(* ===== verification/Prelude.thy ===== *)
theory Prelude
  imports Main "HOL-Library.Word"
begin

text \<open>
  Shared vocabulary of the development: \<open>size_t\<close> and \<open>std::uint64_t\<close> as 64-bit
  words, the arithmetic of ring indices, reachability of a step relation, and two
  interfaces: \<open>guarded_machine\<close> (an invariant of a step relation that holds while a
  monotone counter has not reached a bound) and \<open>bounded_fifo\<close> (what a bounded queue
  promises to its client).
\<close>

unbundle bit_operations_syntax

named_theorems ring_simps \<open>index arithmetic of the ring buffers\<close>

section \<open>Machine words\<close>

type_synonym size_t = "64 word"
type_synonym u64 = "64 word"

text \<open>An increment or an addition that stays in range does not wrap.\<close>

lemma unat_plus1 [ring_simps]: "unat w + 1 < 2 ^ 64 \<Longrightarrow> unat (w + 1 :: size_t) = unat w + 1"
  by (simp add: unat_word_ariths)

lemma unat_plus_small: "unat a + unat b < 2 ^ 64 \<Longrightarrow> unat (a + b :: size_t) = unat a + unat b"
  by (simp add: unat_word_ariths)

lemma unat_minus_le: "unat b \<le> unat a \<Longrightarrow> unat (a - b :: size_t) = unat a - unat b"
  by (simp add: unat_sub_if')

lemma unat_lt_2p64 [simp]: "unat (w :: size_t) < 18446744073709551616"
  using unsigned_less [of w] by simp

lemma word_eq_iff_unat: "(a :: size_t) = b \<longleftrightarrow> unat a = unat b"
  by (simp add: word_unat_eq_iff)

lemma all_less_two: "(\<forall>i < Suc (Suc 0). P i) \<longleftrightarrow> P 0 \<and> P 1"
  by (auto simp: less_Suc_eq)

lemma replicate_2: "replicate 2 y = [y, y]"
  by (simp add: numeral_2_eq_2)

text \<open>Masking with \<open>2 ^ k - 1\<close> is the remainder modulo \<open>2 ^ k\<close>.\<close>

lemma unat_and_mask: "k < 64 \<Longrightarrow> unat (w AND (2 ^ k - 1) :: size_t) = unat w mod 2 ^ k"
proof -
  have "w AND (2 ^ k - 1) = take_bit k w"
    by (simp add: take_bit_eq_mask mask_eq_exp_minus_1)
  then show ?thesis
    by (simp add: unsigned_take_bit_eq take_bit_eq_mod [where 'a = nat] del: take_bit_eq_mask)
qed

lemma unat_2p: "k < 64 \<Longrightarrow> unat (2 ^ k :: size_t) = 2 ^ k"
  using unat_of_nat [of "2 ^ k", where 'a = 64] power_strict_increasing [of k 64 "2::nat"] by simp

text \<open>
  \<open>is_pow2 c\<close>: \<open>c\<close> is one of the powers of two a \<open>size_t\<close> can hold. It is the
  condition under which \<open>pos & (capacity - 1)\<close> is the ring index of a position.
\<close>

definition is_pow2 :: "size_t \<Rightarrow> bool" where
  "is_pow2 c \<longleftrightarrow> (\<exists>k < 64. c = 2 ^ k)"

lemma unat_and_cap [ring_simps]: "is_pow2 c \<Longrightarrow> unat (w AND (c - 1)) = unat w mod unat c"
  by (auto simp: is_pow2_def unat_and_mask unat_2p)

lemma is_pow2_pos: "is_pow2 c \<Longrightarrow> 0 < unat c"
  by (auto simp: is_pow2_def unat_2p)

lemma is_pow2_le: "is_pow2 c \<Longrightarrow> unat c \<le> 2 ^ 63"
  unfolding is_pow2_def using power_increasing [of _ 63 "2::nat"] by (auto simp: unat_2p)

lemma is_pow2_dvd: "is_pow2 c \<Longrightarrow> unat c dvd 2 ^ 64"
  unfolding is_pow2_def using le_imp_power_dvd [of _ 64 "2::nat"] by (force simp: unat_2p simp del: power_numeral)

section \<open>Step relations and reachable states\<close>

text \<open>
  A component whose threads interleave is a step relation over its shared state and the
  program counters of its threads. \<open>reach init step s\<close>: some run from an initial state
  leads to \<open>s\<close>.
\<close>

inductive reach :: "('s \<Rightarrow> bool) \<Rightarrow> ('s \<Rightarrow> 's \<Rightarrow> bool) \<Rightarrow> 's \<Rightarrow> bool"
  for init :: "'s \<Rightarrow> bool" and step :: "'s \<Rightarrow> 's \<Rightarrow> bool" where
  reach_init: "init s \<Longrightarrow> reach init step s"
| reach_step: "reach init step s \<Longrightarrow> step s t \<Longrightarrow> reach init step t"

definition stuck :: "('s \<Rightarrow> 's \<Rightarrow> bool) \<Rightarrow> 's \<Rightarrow> bool" where
  "stuck step s \<longleftrightarrow> (\<forall>t. \<not> step s t)"

text \<open>
  The interface between a machine and its invariant. Positions are 64-bit and wrap, so an
  invariant is claimed for runs in which fewer than \<open>bound\<close> operations have been counted
  by \<open>count\<close>; a machine whose invariant needs no such bound counts nothing.
\<close>

locale guarded_machine =
  fixes init :: "'s \<Rightarrow> bool"
    and step :: "'s \<Rightarrow> 's \<Rightarrow> bool"
    and inv :: "'s \<Rightarrow> bool"
    and count :: "'s \<Rightarrow> nat"
    and bound :: nat
  assumes inv_init: "init s \<Longrightarrow> inv s"
    and count_mono: "step s t \<Longrightarrow> count s \<le> count t"
    and inv_step: "inv s \<Longrightarrow> step s t \<Longrightarrow> count t < bound \<Longrightarrow> inv t"
begin

lemma reach_inv: "reach init step s \<Longrightarrow> count s < bound \<Longrightarrow> inv s"
proof (induction rule: reach.induct)
  case (reach_init s)
  then show ?case by (simp add: inv_init)
next
  case (reach_step s t)
  then have "inv s" using count_mono by force
  with reach_step show ?case using inv_step by blast
qed

lemma reach_safe:
  assumes "\<And>s. inv s \<Longrightarrow> P s" and "reach init step s" and "count s < bound"
  shows "P s"
  using assms reach_inv by blast

end

section \<open>The contract of a bounded queue\<close>

text \<open>
  What a client of \<open>SPSCQueue\<close> or \<open>SPMCQueue\<close> relies on when it calls the operations
  one after the other: an insertion appends or is refused exactly when \<open>room\<close> elements
  are held, a removal takes the oldest element or reports that there is none.
\<close>

datatype 'a qop = Enq 'a | Deq

datatype 'a qout = Accepted bool | Popped "'a option"

fun run_ops ::
  "('a \<Rightarrow> 'q \<Rightarrow> bool \<times> 'q) \<Rightarrow> ('q \<Rightarrow> 'a option \<times> 'q) \<Rightarrow> 'a qop list \<Rightarrow> 'q \<Rightarrow> 'a qout list \<times> 'q" where
  "run_ops enq deq [] q = ([], q)"
| "run_ops enq deq (Enq x # ops) q =
     (let (b, q1) = enq x q; (outs, q2) = run_ops enq deq ops q1 in (Accepted b # outs, q2))"
| "run_ops enq deq (Deq # ops) q =
     (let (r, q1) = deq q; (outs, q2) = run_ops enq deq ops q1 in (Popped r # outs, q2))"

text \<open>The abstract queue: a list of at most \<open>room\<close> elements.\<close>

definition fifo_enq :: "nat \<Rightarrow> 'a \<Rightarrow> 'a list \<Rightarrow> bool \<times> 'a list" where
  "fifo_enq room x xs = (if length xs < room then (True, xs @ [x]) else (False, xs))"

definition fifo_deq :: "'a list \<Rightarrow> 'a option \<times> 'a list" where
  "fifo_deq xs = (case xs of [] \<Rightarrow> (None, []) | x # ys \<Rightarrow> (Some x, ys))"

locale bounded_fifo =
  fixes enq :: "'a \<Rightarrow> 'q \<Rightarrow> bool \<times> 'q"
    and deq :: "'q \<Rightarrow> 'a option \<times> 'q"
    and view :: "'q \<Rightarrow> 'a list"
    and room :: "'q \<Rightarrow> nat"
    and inv :: "'q \<Rightarrow> bool"
  assumes enq_inv: "inv q \<Longrightarrow> inv (snd (enq x q))"
    and deq_inv: "inv q \<Longrightarrow> inv (snd (deq q))"
    and enq_room: "inv q \<Longrightarrow> room (snd (enq x q)) = room q"
    and deq_room: "inv q \<Longrightarrow> room (snd (deq q)) = room q"
    and enq_view: "inv q \<Longrightarrow> (fst (enq x q), view (snd (enq x q))) = fifo_enq (room q) x (view q)"
    and deq_view: "inv q \<Longrightarrow> (fst (deq q), view (snd (deq q))) = fifo_deq (view q)"
begin

lemma run_refines:
  "inv q \<Longrightarrow> inv (snd (run_ops enq deq ops q)) \<and>
    (fst (run_ops enq deq ops q), view (snd (run_ops enq deq ops q))) =
      run_ops (fifo_enq (room q)) fifo_deq ops (view q)"
proof (induction ops arbitrary: q)
  case Nil
  then show ?case by simp
next
  case (Cons op ops)
  show ?case
  proof (cases op)
    case (Enq x)
    obtain b q1 where e: "enq x q = (b, q1)" by fastforce
    with Cons.prems have i: "inv q1" and r: "room q1 = room q"
      and v: "fifo_enq (room q) x (view q) = (b, view q1)"
      using enq_inv [of q x] enq_room [of q x] enq_view [of q x] by auto
    from Cons.IH [OF i] show ?thesis
      unfolding Enq by (simp add: e v r split: prod.splits) (metis fst_conv snd_conv)
  next
    case Deq
    obtain b q1 where e: "deq q = (b, q1)" by fastforce
    with Cons.prems have i: "inv q1" and r: "room q1 = room q"
      and v: "fifo_deq (view q) = (b, view q1)"
      using deq_inv [of q] deq_room [of q] deq_view [of q] by auto
    from Cons.IH [OF i] show ?thesis
      unfolding Deq by (simp add: e v r split: prod.splits) (metis fst_conv snd_conv)
  qed
qed

end

end
