(* ===== verification/Capacity.thy ===== *)
theory Capacity
  imports Prelude
begin

text \<open>
  How the queues turn a requested capacity into the size of the ring: \<open>std::has_single_bit\<close>
  and \<open>std::bit_ceil\<close> of the C++ library on \<open>size_t\<close>, and the three
  \<open>check_and_round_capacity\<close> functions of the headers. Exceptions are values of \<open>exn\<close>.
  The locale \<open>capacity_policy\<close> states what a queue needs of such a function and is
  interpreted on each of the three.
\<close>

datatype exn = Invalid_argument string | Bad_alloc | Length_error

section \<open>Bit operations of the C++ library\<close>

text \<open>\<open>std::has_single_bit(n)\<close>: the number of one bits is 1.\<close>

definition has_single_bit :: "size_t \<Rightarrow> bool" where
  "has_single_bit n \<longleftrightarrow> length (filter (bit n) [0..<64]) = 1"

lemma has_single_bit_is_pow2: "has_single_bit n \<longleftrightarrow> is_pow2 n"
proof
  assume "has_single_bit n"
  then obtain k where k: "filter (bit n) [0..<64] = [k]"
    by (auto simp: has_single_bit_def length_Suc_conv)
  have "set (filter (bit n) [0..<64]) = {k}" by (simp only: k) simp
  then have iff: "bit n i \<longleftrightarrow> i = k" if "i < 64" for i using that by auto
  moreover have "k < 64" using \<open>set (filter (bit n) [0..<64]) = {k}\<close> by auto
  ultimately have "n = 2 ^ k"
    by (intro bit_word_eqI) (auto simp: bit_exp_iff)
  with \<open>k < 64\<close> show "is_pow2 n" by (auto simp: is_pow2_def)
next
  assume "is_pow2 n"
  then obtain k where k: "k < 64" "n = 2 ^ k" by (auto simp: is_pow2_def)
  have "length (filter (bit n) [0..<64]) = card {i. i < 64 \<and> bit n i}"
    by (simp add: length_filter_conv_card) (rule arg_cong [where f = card], auto)
  also have "{i. i < 64 \<and> bit n i} = {k}" using k by (auto simp: bit_exp_iff)
  finally show "has_single_bit n" by (simp add: has_single_bit_def)
qed

text \<open>\<open>std::bit_ceil(n)\<close>: the least power of two that is not below \<open>n\<close>.\<close>

fun bit_ceil_nat :: "nat \<Rightarrow> nat" where
  "bit_ceil_nat n = (if n \<le> 1 then 1 else 2 * bit_ceil_nat ((n + 1) div 2))"

declare bit_ceil_nat.simps [simp del]

definition bit_ceil :: "size_t \<Rightarrow> size_t" where
  "bit_ceil n = word_of_nat (bit_ceil_nat (unat n))"

lemma bit_ceil_nat_ge: "n \<le> bit_ceil_nat n"
proof (induction n rule: bit_ceil_nat.induct)
  case (1 n)
  then show ?case by (cases "n \<le> 1") (simp_all add: bit_ceil_nat.simps [of n])
qed

lemma bit_ceil_nat_pow2: "\<exists>k. bit_ceil_nat n = 2 ^ k"
proof (induction n rule: bit_ceil_nat.induct)
  case (1 n)
  show ?case
  proof (cases "n \<le> 1")
    case True
    then have "bit_ceil_nat n = 2 ^ 0" by (simp add: bit_ceil_nat.simps [of n])
    then show ?thesis by blast
  next
    case False
    with 1 obtain k where "bit_ceil_nat ((n + 1) div 2) = 2 ^ k" by blast
    with False have "bit_ceil_nat n = 2 ^ Suc k" by (simp add: bit_ceil_nat.simps [of n])
    then show ?thesis by blast
  qed
qed

text \<open>No power of two lies between \<open>n\<close> and \<open>bit_ceil_nat n\<close>.\<close>

lemma bit_ceil_nat_least: "n \<le> 2 ^ k \<Longrightarrow> bit_ceil_nat n \<le> 2 ^ k"
proof (induction n arbitrary: k rule: bit_ceil_nat.induct)
  case (1 n)
  show ?case
  proof (cases "n \<le> 1")
    case True
    then show ?thesis by (simp add: bit_ceil_nat.simps [of n])
  next
    case False
    with 1 obtain j where k: "k = Suc j" by (cases k) auto
    with 1 False have "(n + 1) div 2 \<le> 2 ^ j" by simp
    with 1 False have "bit_ceil_nat ((n + 1) div 2) \<le> 2 ^ j" by blast
    with False k show ?thesis by (simp add: bit_ceil_nat.simps [of n])
  qed
qed

lemma unat_bit_ceil:
  assumes "unat n \<le> 2 ^ k" and "k < 64"
  shows "unat (bit_ceil n) = bit_ceil_nat (unat n)"
proof -
  have "bit_ceil_nat (unat n) \<le> 2 ^ k" using assms by (simp add: bit_ceil_nat_least)
  also have "(2::nat) ^ k < 2 ^ 64" using assms by (intro power_strict_increasing) auto
  finally show ?thesis by (simp add: bit_ceil_def unat_of_nat)
qed

lemma is_pow2_bit_ceil:
  assumes "unat n \<le> 2 ^ k" and "k < 64"
  shows "is_pow2 (bit_ceil n)"
proof -
  obtain j where j: "bit_ceil_nat (unat n) = 2 ^ j" using bit_ceil_nat_pow2 by blast
  with bit_ceil_nat_least [OF assms(1)] have "j \<le> k" by simp
  with assms j have "bit_ceil n = 2 ^ j" by (simp add: bit_ceil_def)
  with \<open>j \<le> k\<close> assms show ?thesis unfolding is_pow2_def by (meson le_less_trans)
qed

lemma bit_ceil_power: "k < 64 \<Longrightarrow> bit_ceil (2 ^ k) = 2 ^ k"
  using bit_ceil_nat_least [of "2 ^ k" k] bit_ceil_nat_ge [of "2 ^ k"] by (simp add: bit_ceil_def unat_2p)

lemma bit_ceil_values: "bit_ceil 2 = 2" "bit_ceil 8 = 8"
  by (simp_all add: bit_ceil_def bit_ceil_nat.simps [of "Suc 0"] bit_ceil_nat.simps [of 2]
      bit_ceil_nat.simps [of 4] bit_ceil_nat.simps [of 8])

section \<open>check_and_round_capacity\<close>

text \<open>\<open>detail::check_and_round_capacity\<close> of SPMCLockFreeQueue.h.\<close>

definition spmc_check_and_round_capacity :: "size_t \<Rightarrow> exn + size_t" where
  "spmc_check_and_round_capacity n =
     (if n < 2 then Inl (Invalid_argument ''SPMCQueue: capacity must be >= 2'')
      else let max_cap = push_bit (8 * 8 - 1) 1
      in if n > max_cap then Inl (Invalid_argument ''SPMCQueue: capacity exceeds maximum'')
      else Inr (bit_ceil n))"

text \<open>\<open>detail_broadcast::check_and_round_capacity\<close> of SPMCBroadcastQueue.h.\<close>

definition bc_check_and_round_capacity :: "size_t \<Rightarrow> exn + size_t" where
  "bc_check_and_round_capacity n =
     (if n < 2 then Inl (Invalid_argument ''SPMCBroadcastQueue: capacity must be >= 2'')
      else let max_cap = push_bit (8 * 8 - 1) 1
      in if n > max_cap then Inl (Invalid_argument ''SPMCBroadcastQueue: capacity exceeds maximum'')
      else Inr (bit_ceil n))"

text \<open>
  \<open>detail_overwrite::check_and_round_capacity\<close> of SPMCOverwriteQueue.h: one bit less, since
  a sequence number holds a position shifted left by one.
\<close>

definition ow_check_and_round_capacity :: "size_t \<Rightarrow> exn + size_t" where
  "ow_check_and_round_capacity n =
     (if n < 2 then Inl (Invalid_argument ''SPMCOverwriteQueue: capacity must be >= 2'')
      else let max_cap = push_bit (8 * 8 - 2) 1
      in if n > max_cap then Inl (Invalid_argument ''SPMCOverwriteQueue: capacity exceeds maximum'')
      else Inr (bit_ceil n))"

text \<open>
  The interface: everything between 2 and \<open>2 ^ max_exp\<close> is accepted and rounded,
  everything else is an \<open>invalid_argument\<close>.
\<close>

definition rounds_to_pow2 :: "(size_t \<Rightarrow> exn + size_t) \<Rightarrow> nat \<Rightarrow> size_t \<Rightarrow> bool" where
  "rounds_to_pow2 check max_exp n \<longleftrightarrow>
     (case check n of
        Inl e \<Rightarrow> \<not> (2 \<le> unat n \<and> unat n \<le> 2 ^ max_exp) \<and> (\<exists>m. e = Invalid_argument m)
      | Inr c \<Rightarrow> has_single_bit c \<and> 2 \<le> unat c \<and> unat n \<le> unat c \<and> unat c \<le> 2 ^ max_exp
          \<and> check c = Inr c \<and> \<not> (\<exists>k. unat n \<le> 2 ^ k \<and> 2 ^ k < unat c))"

locale capacity_policy =
  fixes check :: "size_t \<Rightarrow> exn + size_t" and max_exp :: nat
  assumes max_exp: "1 \<le> max_exp" "max_exp < 64"
    and accept: "2 \<le> unat n \<Longrightarrow> unat n \<le> 2 ^ max_exp \<Longrightarrow> check n = Inr (bit_ceil n)"
    and reject: "unat n < 2 \<or> 2 ^ max_exp < unat n \<Longrightarrow> \<exists>m. check n = Inl (Invalid_argument m)"
begin

lemma accepted: "check n = Inr c \<Longrightarrow> 2 \<le> unat n \<and> unat n \<le> 2 ^ max_exp \<and> c = bit_ceil n"
  using accept [of n] reject [of n] by (cases "2 \<le> unat n \<and> unat n \<le> 2 ^ max_exp") auto

lemma accepted_pow2: "check n = Inr c \<Longrightarrow> is_pow2 c"
  using accepted is_pow2_bit_ceil max_exp by blast

lemma accepted_bounds:
  assumes "check n = Inr c"
  shows "2 \<le> unat c" and "unat n \<le> unat c" and "unat c \<le> 2 ^ max_exp"
    and "unat n \<le> 2 ^ k \<Longrightarrow> unat c \<le> 2 ^ k"
proof -
  have n: "2 \<le> unat n" "unat n \<le> 2 ^ max_exp" and "c = bit_ceil n"
    using accepted [OF assms] by auto
  then have c: "unat c = bit_ceil_nat (unat n)" using unat_bit_ceil max_exp by blast
  show "unat n \<le> unat c" by (simp add: c bit_ceil_nat_ge)
  with n show "2 \<le> unat c" by linarith
  show "unat c \<le> 2 ^ max_exp" using n by (simp add: c bit_ceil_nat_least)
  show "unat n \<le> 2 ^ k \<Longrightarrow> unat c \<le> 2 ^ k" by (simp add: c bit_ceil_nat_least)
qed

text \<open>Rounding an accepted capacity again changes nothing.\<close>

lemma check_idem:
  assumes "check n = Inr c"
  shows "check c = Inr c"
proof -
  obtain k where k: "k < 64" "c = 2 ^ k" using accepted_pow2 [OF assms] by (auto simp: is_pow2_def)
  have b: "2 \<le> unat c" "unat c \<le> 2 ^ max_exp" using accepted_bounds [OF assms] by auto
  have "bit_ceil_nat (unat c) = unat c"
    using bit_ceil_nat_ge [of "unat c"] bit_ceil_nat_least [of "unat c" k] k by (simp add: unat_2p)
  then have "bit_ceil c = c" by (simp add: bit_ceil_def)
  with accept [OF b] show ?thesis by simp
qed

text \<open>The contract in one statement.\<close>

lemma contract: "rounds_to_pow2 check max_exp n"
proof (cases "check n")
  case (Inl e)
  then have "\<not> (2 \<le> unat n \<and> unat n \<le> 2 ^ max_exp)" using accept [of n] by auto
  then show ?thesis using reject [of n] Inl by (auto simp: rounds_to_pow2_def)
next
  case (Inr c)
  then show ?thesis
    using accepted_bounds [OF Inr] accepted_pow2 [OF Inr] check_idem [OF Inr]
    by (auto simp: rounds_to_pow2_def has_single_bit_is_pow2 not_less)
qed

text \<open>The ring index of a position is its remainder modulo the accepted capacity.\<close>

lemma index_mod: "check n = Inr c \<Longrightarrow> unat (w AND (c - 1)) = unat w mod unat c"
  by (simp add: accepted_pow2 unat_and_cap)

end

lemma word_lt_2: "(n :: size_t) < 2 \<longleftrightarrow> unat n < 2"
  by (simp add: word_less_nat_alt)

interpretation spmc_cap: capacity_policy spmc_check_and_round_capacity 63
  by unfold_locales
    (auto simp: spmc_check_and_round_capacity_def word_lt_2 word_less_nat_alt Let_def)

interpretation bc_cap: capacity_policy bc_check_and_round_capacity 63
  by unfold_locales
    (auto simp: bc_check_and_round_capacity_def word_lt_2 word_less_nat_alt Let_def)

interpretation ow_cap: capacity_policy ow_check_and_round_capacity 62
  by unfold_locales
    (auto simp: ow_check_and_round_capacity_def word_lt_2 word_less_nat_alt Let_def)

text \<open>
  C39. The three \<open>check_and_round_capacity\<close> functions: a request below 2 or above the
  maximum (\<open>2 ^ 63\<close>; \<open>2 ^ 62\<close> for the overwrite queue) throws
  \<open>std::invalid_argument\<close>; any other request \<open>n\<close> gives a capacity with a single one
  bit that is at least 2, at least \<open>n\<close> and at most the maximum, such that no smaller
  power of two reaches \<open>n\<close>; rounding the capacity again leaves it unchanged.
\<close>

theorem capacity_contract:
  "rounds_to_pow2 spmc_check_and_round_capacity 63 n
   \<and> rounds_to_pow2 bc_check_and_round_capacity 63 n
   \<and> rounds_to_pow2 ow_check_and_round_capacity 62 n"
  using spmc_cap.contract bc_cap.contract ow_cap.contract by blast

end
