(* ===== verification/Ring.thy ===== *)
theory Ring
  imports Prelude
begin

text \<open>
  The part of a ring buffer that holds the elements of a queue: \<open>ring_slice buf start n\<close>
  reads \<open>n\<close> cells from position \<open>start\<close>, each at its position modulo the length of the
  buffer. The four queues share these lemmas.
\<close>

definition ring_slice :: "'a list \<Rightarrow> nat \<Rightarrow> nat \<Rightarrow> 'a list" where
  "ring_slice buf start n = map (\<lambda>i. buf ! ((start + i) mod length buf)) [0..<n]"

text \<open>Two positions less than a lap apart never share a cell.\<close>

lemma mod_lap_neq:
  assumes "p < q" and "q < p + L"
  shows "p mod L \<noteq> q mod (L::nat)"
proof
  assume "p mod L = q mod L"
  then have "L dvd q - p" using assms by (metis mod_eq_dvd_iff_nat less_imp_le)
  with assms show False by (auto dest: dvd_imp_le)
qed

lemma mod_lap_eq_iff:
  assumes "q < p + L" and "p < q + L"
  shows "p mod L = q mod (L::nat) \<longleftrightarrow> p = q"
  using mod_lap_neq [of p q L] mod_lap_neq [of q p L] assms by (cases p q rule: linorder_cases) auto

lemma length_ring_slice [simp]: "length (ring_slice buf start n) = n"
  by (simp add: ring_slice_def)

lemma ring_slice_0 [simp]: "ring_slice buf start 0 = []"
  by (simp add: ring_slice_def)

lemma nth_ring_slice: "i < n \<Longrightarrow> ring_slice buf start n ! i = buf ! ((start + i) mod length buf)"
  by (simp add: ring_slice_def)

lemma ring_slice_Suc: "ring_slice buf start (Suc n) = buf ! (start mod length buf) # ring_slice buf (Suc start) n"
  by (rule nth_equalityI) (auto simp: nth_ring_slice nth_Cons split: nat.splits)

lemma ring_slice_mod [simp]: "ring_slice buf (start mod length buf) n = ring_slice buf start n"
  by (simp add: ring_slice_def mod_add_left_eq)

lemma ring_slice_start: "s mod length buf = t mod length buf \<Longrightarrow> ring_slice buf s n = ring_slice buf t n"
  by (metis ring_slice_mod)

lemma ring_slice_update_other:
  assumes "n \<le> length buf" and "j = (start + k) mod length buf" and "n \<le> k" and "k < length buf"
  shows "ring_slice (buf[j := x]) start n = ring_slice buf start n"
proof -
  have "j \<noteq> (start + i) mod length buf" if "i < n" for i
    using mod_lap_neq [of "start + i" "start + k" "length buf"] that assms by auto
  then show ?thesis by (auto simp: ring_slice_def)
qed

lemma ring_slice_snoc:
  assumes "n < length buf" and "j = (start + n) mod length buf"
  shows "ring_slice (buf[j := x]) start (Suc n) = ring_slice buf start n @ [x]"
proof -
  have "ring_slice (buf[j := x]) start (Suc n) =
      ring_slice (buf[j := x]) start n @ [buf[j := x] ! ((start + n) mod length buf)]"
    by (simp add: ring_slice_def)
  moreover have "j < length buf" using assms by (metis gr_implies_not0 mod_less_divisor not_gr_zero)
  ultimately show ?thesis using assms ring_slice_update_other [of n buf j start n x] by simp
qed

text \<open>The element just taken may be overwritten: it is no longer part of the slice.\<close>

lemma ring_slice_drop_first:
  assumes "n < length buf"
  shows "ring_slice (buf[start mod length buf := x]) (Suc start) n = ring_slice buf (Suc start) n"
proof -
  have "start mod length buf \<noteq> Suc (start + i) mod length buf" if "i < n" for i
    using mod_lap_neq [of start "Suc start + i" "length buf"] that assms by auto
  then show ?thesis by (auto simp: ring_slice_def)
qed

text \<open>Walking a lap from any start visits every cell.\<close>

lemma lap_covers:
  assumes "j < L"
  shows "\<exists>i < L. (start + i) mod L = (j::nat)"
proof -
  let ?i = "(j + L - start mod L) mod L"
  have "start mod L < L" using assms by simp
  then have "(start + ?i) mod L = (start mod L + (j + L - start mod L)) mod L"
    by (metis mod_add_eq mod_mod_trivial)
  also have "start mod L + (j + L - start mod L) = j + L" using \<open>start mod L < L\<close> by linarith
  also have "(j + L) mod L = j" using assms by simp
  finally show ?thesis using assms by (intro exI [of _ ?i]) simp
qed

end
