(* ===== verification/Spsc.thy ===== *)
theory Spsc
  imports Capacity Ring
begin

text \<open>
  \<open>SPSCQueue<T>\<close> of SPSCLockFreeQueue.h as a sequential object: its fields, constructor
  and the two operations, and the refinement to a bounded list. The buffer holds one
  element less than its capacity, since \<open>head = tail\<close> means empty.
\<close>

section \<open>State and operations\<close>

record 'a spsc =
  sp_capacity_mask :: size_t
  sp_buffer :: "'a list"
  sp_head :: size_t
  sp_tail :: size_t

text \<open>
  The constructor: the mask and the buffer are initialised before the body runs, so
  \<open>std::make_unique<T[]>(capacity)\<close> allocates (and may throw \<open>bad_alloc\<close>: \<open>can_alloc\<close>
  says whether the allocation succeeds) before the capacity is checked. \<open>dflt\<close> is the
  value-initialised element.
\<close>

definition spsc_ctor :: "(size_t \<Rightarrow> bool) \<Rightarrow> 'a \<Rightarrow> size_t \<Rightarrow> exn + 'a spsc" where
  "spsc_ctor can_alloc dflt capacity =
     (let mask = capacity - 1 in
      if \<not> can_alloc capacity then Inl Bad_alloc
      else if \<not> has_single_bit capacity
      then Inl (Invalid_argument ''Capacity must be a power of 2'')
      else Inr \<lparr>sp_capacity_mask = mask, sp_buffer = replicate (unat capacity) dflt,
                sp_head = 0, sp_tail = 0\<rparr>)"

text \<open>
  \<open>try_emplace\<close>: \<open>mk\<close> is the outcome of constructing \<open>T\<close> from the arguments, an element
  or the exception its constructor throws. It is run only when the queue is not full.
\<close>

definition spsc_try_emplace :: "'e + 'a \<Rightarrow> 'a spsc \<Rightarrow> ('e + bool) \<times> 'a spsc" where
  "spsc_try_emplace mk q =
     (let t = sp_tail q; h = sp_head q in
      if (t + 1) AND sp_capacity_mask q = h then (Inr False, q)
      else case mk of
        Inl e \<Rightarrow> (Inl e, q)
      | Inr x \<Rightarrow>
          (Inr True, q\<lparr>sp_buffer := (sp_buffer q)[unat t := x],
                       sp_tail := (t + 1) AND sp_capacity_mask q\<rparr>))"

text \<open>
  \<open>try_pop\<close>: \<open>mv x\<close> is the outcome of move-constructing the result from the cell that
  holds \<open>x\<close>: an exception, or the value the move leaves behind in the cell.
\<close>

definition spsc_try_pop :: "('a \<Rightarrow> 'e + 'a) \<Rightarrow> 'a spsc \<Rightarrow> ('e + 'a option) \<times> 'a spsc" where
  "spsc_try_pop mv q =
     (let h = sp_head q; t = sp_tail q in
      if h = t then (Inr None, q)
      else let x = sp_buffer q ! unat h in
      case mv x of
        Inl e \<Rightarrow> (Inl e, q)
      | Inr left_behind \<Rightarrow>
          (Inr (Some x), q\<lparr>sp_buffer := (sp_buffer q)[unat h := left_behind],
                           sp_head := (h + 1) AND sp_capacity_mask q\<rparr>))"

section \<open>Well-formedness and the abstract queue\<close>

definition spsc_inv :: "'a spsc \<Rightarrow> bool" where
  "spsc_inv q \<longleftrightarrow> is_pow2 (sp_capacity_mask q + 1)
     \<and> length (sp_buffer q) = unat (sp_capacity_mask q + 1)
     \<and> unat (sp_head q) < length (sp_buffer q) \<and> unat (sp_tail q) < length (sp_buffer q)"

definition spsc_size :: "'a spsc \<Rightarrow> nat" where
  "spsc_size q =
     (unat (sp_tail q) + length (sp_buffer q) - unat (sp_head q)) mod length (sp_buffer q)"

definition spsc_view :: "'a spsc \<Rightarrow> 'a list" where
  "spsc_view q = ring_slice (sp_buffer q) (unat (sp_head q)) (spsc_size q)"

definition spsc_room :: "'a spsc \<Rightarrow> nat" where
  "spsc_room q = length (sp_buffer q) - 1"

lemma spsc_view_length [simp]: "length (spsc_view q) = spsc_size q"
  by (simp add: spsc_view_def)

text \<open>The next index is the successor modulo the capacity, also at the end of the buffer.\<close>

lemma spsc_next_index:
  assumes "spsc_inv q" and "unat w < length (sp_buffer q)"
  shows "unat ((w + 1) AND sp_capacity_mask q) = Suc (unat w) mod length (sp_buffer q)"
proof -
  let ?c = "sp_capacity_mask q + 1"
  have "unat w + 1 < 2 ^ 64"
    using assms is_pow2_le [of ?c] by (auto simp: spsc_inv_def)
  then show ?thesis
    using assms unat_and_cap [of ?c "w + 1"] by (simp add: spsc_inv_def unat_plus1)
qed

lemma spsc_size_bound: "spsc_inv q \<Longrightarrow> spsc_size q < length (sp_buffer q)"
  unfolding spsc_inv_def spsc_size_def by (simp add: is_pow2_pos)

text \<open>The distance from head to tail, and the cell the tail points to.\<close>

lemma mod_dist:
  assumes "h < L" and "t < (L::nat)"
  shows "(t + L - h) mod L = (if h \<le> t then t - h else t + L - h)"
proof (cases "h \<le> t")
  case True
  then have "t + L - h = (t - h) + L" by simp
  with True assms show ?thesis by (simp only: mod_add_self2) auto
next
  case False
  with assms show ?thesis by auto
qed

lemma spsc_size_cases:
  assumes "spsc_inv q"
  shows "spsc_size q = (if unat (sp_head q) \<le> unat (sp_tail q) then unat (sp_tail q) - unat (sp_head q)
           else unat (sp_tail q) + length (sp_buffer q) - unat (sp_head q))"
  unfolding spsc_size_def by (rule mod_dist) (use assms in \<open>auto simp: spsc_inv_def\<close>)

lemma spsc_tail_cell:
  assumes "spsc_inv q"
  shows "(unat (sp_head q) + spsc_size q) mod length (sp_buffer q) = unat (sp_tail q)"
  using assms by (auto simp: spsc_size_cases spsc_inv_def)

lemma spsc_empty_iff: "spsc_inv q \<Longrightarrow> sp_head q = sp_tail q \<longleftrightarrow> spsc_size q = 0"
  by (auto simp: spsc_size_cases spsc_inv_def word_eq_iff_unat)

lemma suc_mod_cases: "n < L \<Longrightarrow> Suc n mod L = (if Suc n = L then 0 else Suc n)"
  by (auto simp: mod_Suc)

lemma spsc_full_iff:
  assumes "spsc_inv q"
  shows "(sp_tail q + 1) AND sp_capacity_mask q = sp_head q \<longleftrightarrow> spsc_size q = spsc_room q"
proof -
  have "unat (sp_tail q) < length (sp_buffer q)" "unat (sp_head q) < length (sp_buffer q)"
    using assms by (auto simp: spsc_inv_def)
  then show ?thesis
    using assms by (auto simp: word_eq_iff_unat spsc_next_index spsc_room_def spsc_size_cases suc_mod_cases)
qed

section \<open>Each operation on every branch\<close>

lemma spsc_emplace_full:
  "spsc_inv q \<Longrightarrow> spsc_size q = spsc_room q \<Longrightarrow> spsc_try_emplace mk q = (Inr False, q)"
  by (simp add: spsc_try_emplace_def spsc_full_iff)

lemma spsc_emplace_throws:
  "spsc_inv q \<Longrightarrow> spsc_size q \<noteq> spsc_room q \<Longrightarrow> spsc_try_emplace (Inl e) q = (Inl e, q)"
  by (simp add: spsc_try_emplace_def spsc_full_iff)

lemma spsc_emplace_ok:
  assumes "spsc_inv q" and "spsc_size q \<noteq> spsc_room q"
  shows "\<exists>q'. spsc_try_emplace (Inr x) q = (Inr True, q') \<and> spsc_inv q'
    \<and> spsc_view q' = spsc_view q @ [x] \<and> spsc_room q' = spsc_room q"
proof -
  let ?L = "length (sp_buffer q)"
  let ?q' = "q\<lparr>sp_buffer := (sp_buffer q)[unat (sp_tail q) := x],
              sp_tail := (sp_tail q + 1) AND sp_capacity_mask q\<rparr>"
  have t: "unat (sp_tail q) < ?L" and h: "unat (sp_head q) < ?L"
    using assms by (auto simp: spsc_inv_def)
  have n: "unat (sp_tail ?q') = Suc (unat (sp_tail q)) mod ?L"
    using spsc_next_index [OF assms(1) t] by simp
  have lt: "spsc_size q < ?L - 1"
    using spsc_size_bound [OF assms(1)] assms(2) by (simp add: spsc_room_def)
  have i: "spsc_inv ?q'" using assms n t by (simp add: spsc_inv_def)
  have "spsc_size ?q' = Suc (spsc_size q)"
    unfolding spsc_size_cases [OF i] using lt t h n
    by (auto simp: spsc_size_cases [OF assms(1)] suc_mod_cases split: if_splits)
  then have "spsc_view ?q' = spsc_view q @ [x]"
    using ring_slice_snoc [of "spsc_size q" "sp_buffer q" "unat (sp_tail q)" "unat (sp_head q)" x] lt
      spsc_tail_cell [OF assms(1)]
    by (simp add: spsc_view_def)
  with i show ?thesis using assms
    by (simp add: spsc_try_emplace_def spsc_full_iff spsc_room_def Let_def)
qed

lemma spsc_pop_empty: "spsc_inv q \<Longrightarrow> spsc_size q = 0 \<Longrightarrow> spsc_try_pop mv q = (Inr None, q)"
  by (simp add: spsc_try_pop_def spsc_empty_iff)

lemma spsc_view_hd:
  assumes "spsc_inv q" and "spsc_view q = x # xs"
  shows "sp_buffer q ! unat (sp_head q) = x"
proof -
  have "spsc_size q \<noteq> 0" using assms(2) spsc_view_length [of q] by auto
  with assms show ?thesis
    by (cases "spsc_size q") (auto simp: spsc_view_def ring_slice_Suc spsc_inv_def)
qed

lemma spsc_pop_throws:
  assumes "spsc_inv q" and "spsc_view q = x # xs" and "mv x = Inl e"
  shows "spsc_try_pop mv q = (Inl e, q)"
proof -
  have "spsc_size q \<noteq> 0" using assms(2) spsc_view_length [of q] by auto
  with assms show ?thesis by (simp add: spsc_try_pop_def spsc_empty_iff spsc_view_hd Let_def)
qed

lemma spsc_pop_ok:
  assumes "spsc_inv q" and v: "spsc_view q = x # xs" and "mv x = Inr y"
  shows "\<exists>q'. spsc_try_pop mv q = (Inr (Some x), q') \<and> spsc_inv q'
    \<and> spsc_view q' = xs \<and> spsc_room q' = spsc_room q"
proof -
  let ?L = "length (sp_buffer q)"
  let ?q' = "q\<lparr>sp_buffer := (sp_buffer q)[unat (sp_head q) := y],
              sp_head := (sp_head q + 1) AND sp_capacity_mask q\<rparr>"
  have h: "unat (sp_head q) < ?L" and t: "unat (sp_tail q) < ?L"
    using assms by (auto simp: spsc_inv_def)
  have n: "unat (sp_head ?q') = Suc (unat (sp_head q)) mod ?L"
    using spsc_next_index [OF assms(1) h] by simp
  obtain k where k: "spsc_size q = Suc k" using v spsc_view_length [of q] by (cases "spsc_size q") auto
  have i: "spsc_inv ?q'" using assms n h by (simp add: spsc_inv_def)
  have "spsc_size ?q' = k"
    unfolding spsc_size_cases [OF i] using k t h n
    by (auto simp: spsc_size_cases [OF assms(1)] suc_mod_cases split: if_splits)
  moreover have "k < ?L" using spsc_size_bound [OF assms(1)] k by simp
  moreover have "xs = ring_slice (sp_buffer q) (Suc (unat (sp_head q))) k"
    using v k by (simp add: spsc_view_def ring_slice_Suc)
  ultimately have "spsc_view ?q' = xs"
    using ring_slice_drop_first [of k "sp_buffer q" "unat (sp_head q)" y] h n
      ring_slice_mod [of "(sp_buffer q)[unat (sp_head q) := y]" "Suc (unat (sp_head q))" k]
    by (simp add: spsc_view_def)
  with i k assms show ?thesis
    by (simp add: spsc_try_pop_def spsc_empty_iff spsc_room_def spsc_view_hd Let_def)
qed

section \<open>The queue as a bounded FIFO\<close>

lemma spsc_ctor_ok:
  assumes "spsc_ctor can_alloc dflt capacity = Inr q"
  shows "spsc_inv q \<and> spsc_view q = [] \<and> spsc_room q = unat capacity - 1
    \<and> length (sp_buffer q) = unat capacity \<and> sp_capacity_mask q = capacity - 1 \<and> is_pow2 capacity"
proof -
  have "has_single_bit capacity" using assms by (auto simp: spsc_ctor_def Let_def split: if_splits)
  then have p: "is_pow2 capacity" by (simp add: has_single_bit_is_pow2)
  then have "0 < unat capacity" by (rule is_pow2_pos)
  moreover have "q = \<lparr>sp_capacity_mask = capacity - 1, sp_buffer = replicate (unat capacity) dflt,
                sp_head = 0, sp_tail = 0\<rparr>"
    using assms by (auto simp: spsc_ctor_def Let_def split: if_splits)
  ultimately show ?thesis
    using p by (simp add: spsc_inv_def spsc_view_def spsc_size_def spsc_room_def)
qed

text \<open>
  The operations as a client sees them when neither the constructor nor the move of \<open>T\<close>
  throws; \<open>left_behind\<close> is what a move leaves in the cell.
\<close>

definition spsc_enq :: "'a \<Rightarrow> 'a spsc \<Rightarrow> bool \<times> 'a spsc" where
  "spsc_enq x q = (case spsc_try_emplace (Inr x :: unit + 'a) q of (r, q') \<Rightarrow> (projr r, q'))"

definition spsc_deq :: "('a \<Rightarrow> 'a) \<Rightarrow> 'a spsc \<Rightarrow> 'a option \<times> 'a spsc" where
  "spsc_deq left_behind q =
     (case spsc_try_pop (\<lambda>x. Inr (left_behind x) :: unit + 'a) q of (r, q') \<Rightarrow> (projr r, q'))"

lemma spsc_enq_spec:
  assumes "spsc_inv q"
  shows "spsc_inv (snd (spsc_enq x q)) \<and> spsc_room (snd (spsc_enq x q)) = spsc_room q
    \<and> (fst (spsc_enq x q), spsc_view (snd (spsc_enq x q))) = fifo_enq (spsc_room q) x (spsc_view q)"
proof (cases "spsc_size q = spsc_room q")
  case True
  with assms show ?thesis by (simp add: spsc_enq_def spsc_emplace_full fifo_enq_def)
next
  case False
  moreover have "spsc_size q < spsc_room q"
    using False spsc_size_bound [OF assms] by (simp add: spsc_room_def)
  moreover obtain q' where "spsc_try_emplace (Inr x :: unit + 'a) q = (Inr True, q')"
    and "spsc_inv q'" "spsc_view q' = spsc_view q @ [x]" "spsc_room q' = spsc_room q"
    using spsc_emplace_ok [OF assms False] by blast
  ultimately show ?thesis by (simp add: spsc_enq_def fifo_enq_def)
qed

lemma spsc_deq_spec:
  assumes "spsc_inv q"
  shows "spsc_inv (snd (spsc_deq left_behind q)) \<and> spsc_room (snd (spsc_deq left_behind q)) = spsc_room q
    \<and> (fst (spsc_deq left_behind q), spsc_view (snd (spsc_deq left_behind q))) = fifo_deq (spsc_view q)"
proof (cases "spsc_view q")
  case Nil
  then have "spsc_size q = 0" using spsc_view_length [of q] by simp
  with assms Nil show ?thesis by (simp add: spsc_deq_def spsc_pop_empty fifo_deq_def)
next
  case (Cons x xs)
  then show ?thesis
    using spsc_pop_ok [OF assms Cons, of "\<lambda>x. Inr (left_behind x) :: unit + 'a" "left_behind x"]
    by (auto simp: spsc_deq_def fifo_deq_def)
qed

interpretation spsc: bounded_fifo spsc_enq "spsc_deq left_behind" spsc_view spsc_room spsc_inv
  for left_behind
  by unfold_locales (simp_all only: spsc_enq_spec spsc_deq_spec)

section \<open>Properties\<close>

text \<open>
  The constructor of SPSCQueue: it throws \<open>bad_alloc\<close> when the buffer cannot be
  allocated, \<open>invalid_argument\<close> when the capacity is no power of two, and otherwise gives
  a well-formed, empty queue that can hold one element less than its capacity. The
  allocation comes first, so a failing allocation hides an invalid capacity.
\<close>

theorem spsc_ctor_contract:
  "case spsc_ctor can_alloc dflt capacity of
     Inl Bad_alloc \<Rightarrow> \<not> can_alloc capacity
   | Inl (Invalid_argument m) \<Rightarrow> can_alloc capacity \<and> \<not> is_pow2 capacity
   | Inl Length_error \<Rightarrow> False
   | Inr q \<Rightarrow> can_alloc capacity \<and> is_pow2 capacity \<and> spsc_inv q \<and> spsc_view q = []
       \<and> spsc_room q = unat capacity - 1"
proof (cases "spsc_ctor can_alloc dflt capacity")
  case (Inl e)
  then show ?thesis
    by (auto simp: spsc_ctor_def Let_def has_single_bit_is_pow2 split: if_splits)
next
  case (Inr q)
  then have "can_alloc capacity" by (auto simp: spsc_ctor_def Let_def split: if_splits)
  with Inr spsc_ctor_ok [OF Inr] show ?thesis by simp
qed

text \<open>
  C31. SPSCQueue used one call at a time is a bounded FIFO: on a freshly constructed queue any
  sequence of \<open>try_emplace\<close> and \<open>try_pop\<close> calls returns what a list of at most
  \<open>capacity - 1\<close> elements returns, whatever a move leaves behind in the cells.
\<close>

theorem spsc_refines_fifo:
  assumes "spsc_ctor can_alloc dflt capacity = Inr q"
  shows "(fst (run_ops spsc_enq (spsc_deq left_behind) ops q),
          spsc_view (snd (run_ops spsc_enq (spsc_deq left_behind) ops q)))
       = run_ops (fifo_enq (unat capacity - 1)) fifo_deq ops []"
  using spsc.run_refines [of q left_behind ops] spsc_ctor_ok [OF assms] by simp

lemma spsc_ctor_2:
  "spsc_ctor (\<lambda>_. True) dflt 2 = Inr \<lparr>sp_capacity_mask = 1, sp_buffer = [dflt, dflt], sp_head = 0, sp_tail = 0\<rparr>"
proof -
  have "has_single_bit 2"
    unfolding has_single_bit_is_pow2 is_pow2_def by (rule exI [of _ 1]) simp
  moreover have "replicate 2 dflt = [dflt, dflt]" by (simp add: numeral_2_eq_2)
  ultimately show ?thesis by (simp add: spsc_ctor_def)
qed

theorem spsc_refines_fifo_witness:
  "fst (run_ops spsc_enq (spsc_deq (\<lambda>_. 0)) [Enq 7, Enq 8, Deq, Deq]
      \<lparr>sp_capacity_mask = 1, sp_buffer = [0, 0 :: nat], sp_head = 0, sp_tail = 0\<rparr>)
   = [Accepted True, Accepted False, Popped (Some 7), Popped None]"
  using spsc_refines_fifo [OF spsc_ctor_2, of "\<lambda>_. 0 :: nat" "[Enq 7, Enq 8, Deq, Deq]" 0]
  by (simp add: fifo_enq_def fifo_deq_def del: run_ops.simps) (simp add: fifo_enq_def fifo_deq_def)

text \<open>
  One call of \<open>try_emplace\<close> on every branch: a full queue refuses without constructing
  the element; a throwing constructor leaves the queue as it was; otherwise the element is
  appended. In each case the queue stays well formed.
\<close>

theorem spsc_try_emplace_cases:
  assumes "spsc_inv q"
  shows "case spsc_try_emplace mk q of
     (Inl e, q') \<Rightarrow> spsc_size q < spsc_room q \<and> mk = Inl e \<and> q' = q
   | (Inr False, q') \<Rightarrow> spsc_size q = spsc_room q \<and> q' = q
   | (Inr True, q') \<Rightarrow> spsc_size q < spsc_room q \<and> spsc_inv q'
       \<and> (\<exists>x. mk = Inr x \<and> spsc_view q' = spsc_view q @ [x])"
proof (cases "spsc_size q = spsc_room q")
  case True
  with assms show ?thesis by (simp add: spsc_emplace_full)
next
  case False
  then have "spsc_size q < spsc_room q"
    using spsc_size_bound [OF assms] by (simp add: spsc_room_def)
  show ?thesis
  proof (cases mk)
    case (Inl e)
    with False \<open>spsc_size q < spsc_room q\<close> assms show ?thesis by (simp add: spsc_emplace_throws)
  next
    case (Inr x)
    obtain q' where "spsc_try_emplace mk q = (Inr True, q')"
      and "spsc_inv q'" "spsc_view q' = spsc_view q @ [x]"
      using spsc_emplace_ok [OF assms False] Inr by blast
    with Inr \<open>spsc_size q < spsc_room q\<close> show ?thesis by simp
  qed
qed

theorem spsc_try_emplace_cases_witness:
  "case spsc_try_emplace (Inr 5 :: unit + nat)
      \<lparr>sp_capacity_mask = 1, sp_buffer = [0, 0 :: nat], sp_head = 0, sp_tail = 0\<rparr> of
     (Inr True, q') \<Rightarrow> spsc_view q' = [5] | _ \<Rightarrow> False"
proof -
  let ?q = "\<lparr>sp_capacity_mask = 1, sp_buffer = [0, 0 :: nat], sp_head = 0, sp_tail = 0\<rparr>"
  have q: "spsc_inv ?q \<and> spsc_view ?q = [] \<and> spsc_room ?q = unat (2 :: size_t) - 1"
    using spsc_ctor_ok [OF spsc_ctor_2 [of 0]] by blast
  then show ?thesis
    using spsc_try_emplace_cases [of ?q "Inr 5 :: unit + nat"]
    by (auto simp: spsc_try_emplace_def)
qed

text \<open>
  The constructor accepts capacity 1, a power of two, and the queue it builds is of no
  use: every \<open>try_emplace\<close> reports full and every \<open>try_pop\<close> reports empty.
\<close>

theorem spsc_capacity_one:
  "\<exists>q. spsc_ctor (\<lambda>_. True) dflt 1 = Inr q \<and> spsc_try_emplace mk q = (Inr False, q)
     \<and> spsc_try_pop mv q = (Inr None, q)"
  by (auto simp: spsc_ctor_def has_single_bit_is_pow2 is_pow2_def spsc_try_emplace_def
      spsc_try_pop_def intro!: exI [of _ 0])

end
