(* ===== verification/Spsc_Concurrent.thy ===== *)
theory Spsc_Concurrent
  imports Spsc
begin

text \<open>
  \<open>SPSCQueue\<close> with its producer and its consumer running at the same time, one shared
  access per step. Each of \<open>head\<close> and \<open>tail\<close> is written by one thread only; its
  modification order is kept as a list of the values stored so far. A load by the other
  thread may return any entry of that list that is not older than the one it read before:
  this is what C++ promises for an atomic variable (read-read coherence), and it is all the
  proof uses. An acquire load of entry \<open>k\<close> synchronises with the release store that wrote
  it, so the index of the entry says which accesses of the other thread happen before.
  An element type whose move constructor throws is taken to leave its source as it was.
\<close>

section \<open>State\<close>

text \<open>Program counters; the numbers are the locals \<open>t\<close>, \<open>h\<close> and the entry read.\<close>

datatype 'a spsc_prod =
  SP_idle
| SP_load_head 'a size_t            \<comment> \<open>\<open>t\<close> loaded, \<open>head.load(acquire)\<close> is next\<close>
| SP_check 'a size_t size_t nat     \<comment> \<open>\<open>h\<close> loaded as entry \<open>k\<close>, the full test is next\<close>
| SP_write 'a size_t nat            \<comment> \<open>\<open>buffer[t] = T(...)\<close> is next\<close>
| SP_publish 'a size_t              \<comment> \<open>\<open>tail.store(release)\<close> is next\<close>

datatype 'a spsc_cons =
  SC_idle
| SC_load_tail size_t
| SC_check size_t size_t nat
| SC_read size_t nat
| SC_advance size_t 'a

record 'a spsc_sys =
  ss_mask :: size_t
  ss_buffer :: "'a list"
  ss_head :: "size_t list"
  ss_tail :: "size_t list"
  ss_head_seen :: nat
  ss_tail_seen :: nat
  ss_prod :: "'a spsc_prod"
  ss_cons :: "'a spsc_cons"
  ss_pushed :: "'a list"
  ss_popped :: "'a list"

definition spsc_boot :: "'a spsc \<Rightarrow> 'a spsc_sys" where
  "spsc_boot q = \<lparr>ss_mask = sp_capacity_mask q, ss_buffer = sp_buffer q,
     ss_head = [sp_head q], ss_tail = [sp_tail q], ss_head_seen = 0, ss_tail_seen = 0,
     ss_prod = SP_idle, ss_cons = SC_idle, ss_pushed = [], ss_popped = []\<rparr>"

definition spsc_init :: "'a spsc_sys \<Rightarrow> bool" where
  "spsc_init s \<longleftrightarrow> (\<exists>can_alloc dflt capacity q.
     spsc_ctor can_alloc dflt capacity = Inr q \<and> s = spsc_boot q)"

section \<open>Steps\<close>

text \<open>The producer in \<open>try_emplace\<close>. A thread reads its own variable as it last stored it.\<close>

inductive spsc_prod_step :: "'a spsc_sys \<Rightarrow> 'a spsc_sys \<Rightarrow> bool" where
  sp_call: "ss_prod s = SP_idle \<Longrightarrow>
    spsc_prod_step s (s\<lparr>ss_prod := SP_load_head x (last (ss_tail s))\<rparr>)"
| sp_load_head: "ss_prod s = SP_load_head x t \<Longrightarrow> ss_head_seen s \<le> k \<Longrightarrow> k < length (ss_head s) \<Longrightarrow>
    spsc_prod_step s (s\<lparr>ss_prod := SP_check x t (ss_head s ! k) k, ss_head_seen := k\<rparr>)"
| sp_full: "ss_prod s = SP_check x t h k \<Longrightarrow> (t + 1) AND ss_mask s = h \<Longrightarrow>
    spsc_prod_step s (s\<lparr>ss_prod := SP_idle\<rparr>)"
| sp_room: "ss_prod s = SP_check x t h k \<Longrightarrow> (t + 1) AND ss_mask s \<noteq> h \<Longrightarrow>
    spsc_prod_step s (s\<lparr>ss_prod := SP_write x t k\<rparr>)"
| sp_throw: "ss_prod s = SP_write x t k \<Longrightarrow>
    spsc_prod_step s (s\<lparr>ss_prod := SP_idle\<rparr>)"
| sp_write: "ss_prod s = SP_write x t k \<Longrightarrow>
    spsc_prod_step s (s\<lparr>ss_buffer := (ss_buffer s)[unat t := x], ss_prod := SP_publish x t\<rparr>)"
| sp_publish: "ss_prod s = SP_publish x t \<Longrightarrow>
    spsc_prod_step s (s\<lparr>ss_tail := ss_tail s @ [(t + 1) AND ss_mask s],
      ss_pushed := ss_pushed s @ [x], ss_prod := SP_idle\<rparr>)"

text \<open>The consumer in \<open>try_pop\<close>; \<open>y\<close> is what the move leaves in the cell.\<close>

inductive spsc_cons_step :: "'a spsc_sys \<Rightarrow> 'a spsc_sys \<Rightarrow> bool" where
  sc_call: "ss_cons s = SC_idle \<Longrightarrow>
    spsc_cons_step s (s\<lparr>ss_cons := SC_load_tail (last (ss_head s))\<rparr>)"
| sc_load_tail: "ss_cons s = SC_load_tail h \<Longrightarrow> ss_tail_seen s \<le> k \<Longrightarrow> k < length (ss_tail s) \<Longrightarrow>
    spsc_cons_step s (s\<lparr>ss_cons := SC_check h (ss_tail s ! k) k, ss_tail_seen := k\<rparr>)"
| sc_empty: "ss_cons s = SC_check h t k \<Longrightarrow> h = t \<Longrightarrow>
    spsc_cons_step s (s\<lparr>ss_cons := SC_idle\<rparr>)"
| sc_some: "ss_cons s = SC_check h t k \<Longrightarrow> h \<noteq> t \<Longrightarrow>
    spsc_cons_step s (s\<lparr>ss_cons := SC_read h k\<rparr>)"
| sc_throw: "ss_cons s = SC_read h k \<Longrightarrow>
    spsc_cons_step s (s\<lparr>ss_cons := SC_idle\<rparr>)"
| sc_read: "ss_cons s = SC_read h k \<Longrightarrow>
    spsc_cons_step s (s\<lparr>ss_buffer := (ss_buffer s)[unat h := y],
      ss_cons := SC_advance h (ss_buffer s ! unat h)\<rparr>)"
| sc_advance: "ss_cons s = SC_advance h x \<Longrightarrow>
    spsc_cons_step s (s\<lparr>ss_head := ss_head s @ [(h + 1) AND ss_mask s],
      ss_popped := ss_popped s @ [x], ss_cons := SC_idle\<rparr>)"

definition spsc_step :: "'a spsc_sys \<Rightarrow> 'a spsc_sys \<Rightarrow> bool" where
  "spsc_step s t \<longleftrightarrow> spsc_prod_step s t \<or> spsc_cons_step s t"

section \<open>The invariant\<close>

text \<open>
  \<open>counts mask L xs\<close>: entry \<open>k\<close> of the modification order is \<open>k mod L\<close>, so the entry's
  index is the number of operations its writer has completed.
\<close>

definition counts :: "nat \<Rightarrow> size_t list \<Rightarrow> bool" where
  "counts L xs \<longleftrightarrow> xs \<noteq> [] \<and> (\<forall>k < length xs. unat (xs ! k) = k mod L)"

fun spsc_prod_ok :: "nat \<Rightarrow> nat \<Rightarrow> nat \<Rightarrow> 'a list \<Rightarrow> 'a spsc_prod \<Rightarrow> bool" where
  "spsc_prod_ok L m seen buf SP_idle = True"
| "spsc_prod_ok L m seen buf (SP_load_head x t) = (unat t = m mod L)"
| "spsc_prod_ok L m seen buf (SP_check x t h k) =
     (unat t = m mod L \<and> unat h = k mod L \<and> k = seen)"
| "spsc_prod_ok L m seen buf (SP_write x t k) = (unat t = m mod L \<and> m < k + (L - 1) \<and> k = seen)"
| "spsc_prod_ok L m seen buf (SP_publish x t) =
     (unat t = m mod L \<and> m < seen + (L - 1) \<and> buf ! (m mod L) = x)"

fun spsc_cons_ok :: "nat \<Rightarrow> nat \<Rightarrow> nat \<Rightarrow> 'a list \<Rightarrow> 'a spsc_cons \<Rightarrow> bool" where
  "spsc_cons_ok L n seen pushed SC_idle = True"
| "spsc_cons_ok L n seen pushed (SC_load_tail h) = (unat h = n mod L)"
| "spsc_cons_ok L n seen pushed (SC_check h t k) =
     (unat h = n mod L \<and> unat t = k mod L \<and> k = seen)"
| "spsc_cons_ok L n seen pushed (SC_read h k) = (unat h = n mod L \<and> n < k \<and> k = seen)"
| "spsc_cons_ok L n seen pushed (SC_advance h x) =
     (unat h = n mod L \<and> n < seen \<and> x = pushed ! n)"

text \<open>Position \<open>n\<close> has been moved out, but \<open>head\<close> still points to it.\<close>

definition moved_out :: "'a spsc_sys \<Rightarrow> bool" where
  "moved_out s \<longleftrightarrow> (\<exists>h x. ss_cons s = SC_advance h x)"

definition spsc_sys_inv :: "'a spsc_sys \<Rightarrow> bool" where
  "spsc_sys_inv s \<longleftrightarrow>
     (let L = length (ss_buffer s); m = length (ss_pushed s); n = length (ss_popped s) in
      is_pow2 (ss_mask s + 1) \<and> unat (ss_mask s + 1) = L
      \<and> counts L (ss_head s) \<and> length (ss_head s) = Suc n
      \<and> counts L (ss_tail s) \<and> length (ss_tail s) = Suc m
      \<and> ss_head_seen s \<le> n \<and> m \<le> ss_head_seen s + (L - 1)
      \<and> n \<le> ss_tail_seen s \<and> ss_tail_seen s \<le> m
      \<and> take n (ss_pushed s) = ss_popped s
      \<and> (\<forall>p. n \<le> p \<longrightarrow> p < m \<longrightarrow> \<not> (p = n \<and> moved_out s) \<longrightarrow> ss_buffer s ! (p mod L) = ss_pushed s ! p)
      \<and> spsc_prod_ok L m (ss_head_seen s) (ss_buffer s) (ss_prod s)
      \<and> spsc_cons_ok L n (ss_tail_seen s) (ss_pushed s) (ss_cons s))"

lemma spsc_sys_inv_init: "spsc_init s \<Longrightarrow> spsc_sys_inv s"
proof -
  assume "spsc_init s"
  then obtain can_alloc dflt capacity q where c: "spsc_ctor can_alloc dflt capacity = Inr q"
    and s: "s = spsc_boot q" by (auto simp: spsc_init_def)
  have "sp_head q = 0" "sp_tail q = 0"
    using c by (auto simp: spsc_ctor_def Let_def split: if_splits)
  with s spsc_ctor_ok [OF c] show ?thesis
    by (auto simp: spsc_sys_inv_def Let_def spsc_boot_def spsc_inv_def counts_def)
qed

text \<open>The index of the next cell, as both threads compute it.\<close>

lemma next_cell:
  assumes "is_pow2 (msk + 1)" and "unat (msk + 1) = L" and "unat w = k mod L"
  shows "unat ((w + 1) AND msk) = Suc k mod L"
proof -
  have "0 < L" using assms is_pow2_pos by blast
  then have "unat w < L" using assms by simp
  moreover have "L \<le> 2 ^ 63" using assms is_pow2_le by blast
  ultimately have "unat (w + 1) = unat w + 1" by (simp add: unat_plus1)
  with assms unat_and_cap [of "msk + 1" "w + 1"] show ?thesis by (simp add: mod_Suc_eq)
qed

lemma counts_snoc: "counts L xs \<Longrightarrow> unat w = length xs mod L \<Longrightarrow> counts L (xs @ [w])"
  by (auto simp: counts_def nth_append less_Suc_eq)

lemma counts_last: "counts L xs \<Longrightarrow> length xs = Suc n \<Longrightarrow> unat (last xs) = n mod L"
  by (simp add: counts_def last_conv_nth)

lemma counts_nth: "counts L xs \<Longrightarrow> k < length xs \<Longrightarrow> unat (xs ! k) = k mod L"
  by (simp add: counts_def)

text \<open>The tests of the code, in terms of the number of completed operations.\<close>

lemma full_test:
  assumes "is_pow2 (msk + 1)" and "unat (msk + 1) = L"
    and "unat t = m mod L" and "unat h = k mod L" and "(t + 1) AND msk \<noteq> h"
    and "m \<le> k + (L - 1)"
  shows "m < k + (L - 1)"
proof (rule ccontr)
  assume "\<not> m < k + (L - 1)"
  moreover have "0 < L" using assms is_pow2_pos by blast
  ultimately have "Suc m = k + L" using assms by linarith
  then have "Suc m mod L = k mod L" by simp
  with assms next_cell [of msk L t m] show False by (simp add: word_eq_iff_unat)
qed

section \<open>Preservation\<close>

lemma spsc_prod_inv:
  assumes "spsc_prod_step s t" and inv: "spsc_sys_inv s"
  shows "spsc_sys_inv t"
proof -
  define L where "L = length (ss_buffer s)"
  define m where "m = length (ss_pushed s)"
  define n where "n = length (ss_popped s)"
  note I = inv [unfolded spsc_sys_inv_def Let_def, folded L_def m_def n_def]
  have pos: "0 < L" using I is_pow2_pos by metis
  from assms(1) show ?thesis
  proof cases
    case (sp_call x)
    then show ?thesis
      using I counts_last [of L "ss_tail s" m] by (simp add: spsc_sys_inv_def Let_def moved_out_def L_def m_def n_def)
  next
    case (sp_load_head x w k)
    then show ?thesis
      using I counts_nth [of L "ss_head s" k] by (simp add: spsc_sys_inv_def Let_def moved_out_def L_def m_def n_def)
  next
    case (sp_full x w h k)
    then show ?thesis using I by (simp add: spsc_sys_inv_def Let_def moved_out_def L_def m_def n_def)
  next
    case (sp_room x w h k)
    then show ?thesis
      using I full_test [of "ss_mask s" L w m h k] by (simp add: spsc_sys_inv_def Let_def moved_out_def L_def m_def n_def)
  next
    case (sp_throw x w k)
    then show ?thesis using I by (simp add: spsc_sys_inv_def Let_def moved_out_def L_def m_def n_def)
  next
    case (sp_write x w k)
    have other: "p mod L \<noteq> m mod L" if "n \<le> p" "p < m" for p
    proof -
      have "m < p + L" using I sp_write that pos by auto
      then show ?thesis using mod_lap_neq [of p m L] that by simp
    qed
    have "unat w = m mod L" using I sp_write by simp
    moreover have "(ss_buffer s)[m mod L := x] ! (p mod L) = ss_buffer s ! (p mod L)"
      if "n \<le> p" "p < m" for p using other [OF that] by simp
    ultimately show ?thesis
      using I sp_write pos by (simp add: spsc_sys_inv_def Let_def moved_out_def L_def m_def n_def)
  next
    case (sp_publish x w)
    have w: "unat w = m mod L" and "ss_buffer s ! (m mod L) = x" using I sp_publish by auto
    moreover have "unat ((w + 1) AND ss_mask s) = Suc m mod L"
      using I w next_cell [of "ss_mask s" L w m] by simp
    ultimately show ?thesis
      using I sp_publish counts_snoc [of L "ss_tail s" "(w + 1) AND ss_mask s"]
      by (cases "ss_cons s")
        (auto simp: spsc_sys_inv_def Let_def moved_out_def nth_append less_Suc_eq L_def m_def n_def)
  qed
qed

lemma spsc_cons_inv:
  assumes "spsc_cons_step s t" and inv: "spsc_sys_inv s"
  shows "spsc_sys_inv t"
proof -
  define L where "L = length (ss_buffer s)"
  define m where "m = length (ss_pushed s)"
  define n where "n = length (ss_popped s)"
  note I = inv [unfolded spsc_sys_inv_def Let_def, folded L_def m_def n_def]
  have pos: "0 < L" using I is_pow2_pos by metis
  from assms(1) show ?thesis
  proof cases
    case sc_call
    then show ?thesis
      using I counts_last [of L "ss_head s" n] by (simp add: spsc_sys_inv_def Let_def moved_out_def L_def m_def n_def)
  next
    case (sc_load_tail h k)
    then show ?thesis
      using I counts_nth [of L "ss_tail s" k] by (simp add: spsc_sys_inv_def Let_def moved_out_def L_def m_def n_def)
  next
    case (sc_empty h w k)
    then show ?thesis using I by (simp add: spsc_sys_inv_def Let_def moved_out_def L_def m_def n_def)
  next
    case (sc_some h w k)
    then have "n \<noteq> k" using I by (auto simp: word_eq_iff_unat)
    with sc_some show ?thesis using I by (simp add: spsc_sys_inv_def Let_def moved_out_def L_def m_def n_def)
  next
    case (sc_throw h k)
    then show ?thesis using I by (simp add: spsc_sys_inv_def Let_def moved_out_def L_def m_def n_def)
  next
    case (sc_read h k y)
    have h: "unat h = n mod L" and "n < k" "k \<le> m" using I sc_read by auto
    have other: "n mod L \<noteq> p mod L" if "n < p" "p \<le> m" for p
    proof -
      have "p < n + L" using I sc_read that pos by auto
      then show ?thesis using mod_lap_neq [of n p L] that by simp
    qed
    have "ss_buffer s ! (n mod L) = ss_pushed s ! n"
      using I sc_read \<open>n < k\<close> \<open>k \<le> m\<close> by (simp add: moved_out_def)
    moreover have "(ss_buffer s)[n mod L := y] ! (p mod L) = ss_buffer s ! (p mod L)"
      if "n < p" "p \<le> m" for p using other [OF that] by simp
    ultimately show ?thesis
      using I sc_read h pos \<open>n < k\<close> \<open>k \<le> m\<close>
      by (cases "ss_prod s") (auto simp: spsc_sys_inv_def Let_def moved_out_def L_def m_def n_def)
  next
    case (sc_advance h x)
    have h: "unat h = n mod L" and "n < m" "x = ss_pushed s ! n" using I sc_advance by auto
    moreover have "unat ((h + 1) AND ss_mask s) = Suc n mod L"
      using I h next_cell [of "ss_mask s" L h n] by simp
    ultimately show ?thesis
      using I sc_advance counts_snoc [of L "ss_head s" "(h + 1) AND ss_mask s"]
      by (auto simp: spsc_sys_inv_def Let_def moved_out_def take_Suc_conv_app_nth L_def m_def n_def)
  qed
qed

interpretation spsc_sys: guarded_machine spsc_init spsc_step spsc_sys_inv "\<lambda>_. 0" 1
  by unfold_locales (auto simp: spsc_step_def spsc_sys_inv_init spsc_prod_inv spsc_cons_inv)

section \<open>Properties\<close>

lemma spsc_reach_inv: "reach spsc_init spsc_step s \<Longrightarrow> spsc_sys_inv s"
  using spsc_sys.reach_inv by simp

text \<open>
  A run used by the witnesses: on a queue of capacity 2 the producer pushes 7 and the
  consumer is about to read it while the producer is inside its next call.
\<close>

definition spsc_demo :: "nat spsc_sys" where
  "spsc_demo = \<lparr>ss_mask = 1, ss_buffer = [7, 0], ss_head = [0], ss_tail = [0, 1],
     ss_head_seen = 0, ss_tail_seen = 1, ss_prod = SP_check 8 1 0 0, ss_cons = SC_read 0 1,
     ss_pushed = [7], ss_popped = []\<rparr>"

lemma spsc_demo_reach: "reach spsc_init spsc_step spsc_demo"
proof -
  define q :: "nat spsc" where
    "q = \<lparr>sp_capacity_mask = 1, sp_buffer = [0, 0], sp_head = 0, sp_tail = 0\<rparr>"
  define s0 where "s0 = spsc_boot q"
  have r0: "reach spsc_init spsc_step s0"
    using spsc_ctor_2 [of 0] unfolding s0_def spsc_init_def q_def by (intro reach_init) blast
  define s1 where "s1 = s0\<lparr>ss_prod := SP_load_head 7 0\<rparr>"
  define s2 where "s2 = s1\<lparr>ss_prod := SP_check 7 0 0 0\<rparr>"
  define s3 where "s3 = s2\<lparr>ss_prod := SP_write 7 0 0\<rparr>"
  define s4 where "s4 = s3\<lparr>ss_buffer := [7, 0], ss_prod := SP_publish 7 0\<rparr>"
  define s5 where "s5 = s4\<lparr>ss_tail := [0, 1], ss_pushed := [7], ss_prod := SP_idle\<rparr>"
  define s6 where "s6 = s5\<lparr>ss_cons := SC_load_tail 0\<rparr>"
  define s7 where "s7 = s6\<lparr>ss_cons := SC_check 0 1 1, ss_tail_seen := 1\<rparr>"
  define s8 where "s8 = s7\<lparr>ss_cons := SC_read 0 1\<rparr>"
  define s9 where "s9 = s8\<lparr>ss_prod := SP_load_head 8 1\<rparr>"
  note defs = s9_def s8_def s7_def s6_def s5_def s4_def s3_def s2_def s1_def s0_def q_def spsc_boot_def
  note steps = spsc_step_def spsc_prod_step.simps spsc_cons_step.simps
  have "spsc_step s0 s1" "spsc_step s1 s2" "spsc_step s2 s3" "spsc_step s3 s4" "spsc_step s4 s5"
    "spsc_step s5 s6" "spsc_step s6 s7" "spsc_step s7 s8" "spsc_step s8 s9" "spsc_step s9 spsc_demo"
    by (simp_all add: steps defs spsc_demo_def)
  with r0 show ?thesis by (meson reach_step)
qed

text \<open>
  C6. SPSCQueue under concurrency never loses, duplicates or reorders an element: in every
  reachable state the elements popped so far are the first elements pushed, the ones not yet
  popped are at most \<open>capacity - 1\<close>, and each of them that has not been moved out is intact
  in its cell, however old the values are that the loads return.
\<close>

theorem spsc_concurrent_fifo:
  assumes "reach spsc_init spsc_step s"
  shows "\<exists>rest. ss_pushed s = ss_popped s @ rest \<and> length rest \<le> length (ss_buffer s) - 1
    \<and> (\<forall>i < length rest. 0 < i \<or> \<not> moved_out s \<longrightarrow>
          ss_buffer s ! ((length (ss_popped s) + i) mod length (ss_buffer s)) = rest ! i)"
proof -
  let ?n = "length (ss_popped s)"
  have I: "spsc_sys_inv s" using assms by (rule spsc_reach_inv)
  then have "ss_pushed s = ss_popped s @ drop ?n (ss_pushed s)"
    unfolding spsc_sys_inv_def Let_def by (metis append_take_drop_id)
  with I show ?thesis
    by (intro exI [of _ "drop ?n (ss_pushed s)"]) (auto simp: spsc_sys_inv_def Let_def)
qed

theorem spsc_concurrent_fifo_witness:
  "\<exists>rest. [7 :: nat] = [] @ rest \<and> length rest \<le> 1"
  using spsc_concurrent_fifo [OF spsc_demo_reach] by (auto simp: spsc_demo_def)

text \<open>
  C9. No data race on the buffer of SPSCQueue: when the producer is about to write a cell and
  the consumer is about to read one, the cells differ; moreover every earlier element of the
  cell to be written was removed by an operation whose \<open>head\<close> store the producer has
  acquired (entry \<open>k\<close> or older), and the element to be read was inserted by an operation
  whose \<open>tail\<close> store the consumer has acquired.
\<close>

theorem spsc_no_data_race:
  assumes "reach spsc_init spsc_step s"
  shows "(ss_prod s = SP_write x t k \<longrightarrow>
      (\<forall>p < length (ss_pushed s). p mod length (ss_buffer s) = unat t \<longrightarrow> p < k)
      \<and> k < length (ss_head s))
    \<and> (ss_cons s = SC_read h j \<longrightarrow> length (ss_popped s) < j \<and> j < length (ss_tail s)
      \<and> unat h = length (ss_popped s) mod length (ss_buffer s))
    \<and> (ss_prod s = SP_write x t k \<longrightarrow> ss_cons s = SC_read h j \<longrightarrow> t \<noteq> h)"
proof -
  let ?L = "length (ss_buffer s)" and ?m = "length (ss_pushed s)" and ?n = "length (ss_popped s)"
  have I: "spsc_sys_inv s" using assms by (rule spsc_reach_inv)
  then have pos: "0 < ?L" unfolding spsc_sys_inv_def Let_def by (metis is_pow2_pos)
  have W: "unat t = ?m mod ?L \<and> ?m < k + (?L - 1) \<and> k \<le> ?n" if "ss_prod s = SP_write x t k"
    using I that by (simp add: spsc_sys_inv_def Let_def)
  have R: "unat h = ?n mod ?L \<and> ?n < j \<and> j \<le> ?m" if "ss_cons s = SC_read h j"
    using I that by (simp add: spsc_sys_inv_def Let_def)
  have "p < k" if "ss_prod s = SP_write x t k" "p < ?m" "p mod ?L = unat t" for p
    using mod_lap_neq [of p ?m ?L] W [OF that(1)] that by (cases "?m < p + ?L") auto
  moreover have "t \<noteq> h" if "ss_prod s = SP_write x t k" "ss_cons s = SC_read h j"
  proof -
    have "?n < ?m" "?m < ?n + ?L" using W [OF that(1)] R [OF that(2)] by linarith+
    from mod_lap_neq [OF this] show ?thesis using W [OF that(1)] R [OF that(2)] by auto
  qed
  moreover have "length (ss_head s) = Suc ?n" "length (ss_tail s) = Suc ?m"
    using I by (simp_all add: spsc_sys_inv_def Let_def)
  ultimately show ?thesis using W R by auto
qed

theorem spsc_no_data_race_witness:
  "ss_cons spsc_demo = SC_read 0 1 \<and> length (ss_popped spsc_demo) < 1"
  using spsc_no_data_race [OF spsc_demo_reach, of 8 1 0 0 1] by (simp add: spsc_demo_def)

text \<open>
  The reports \<open>full\<close> and \<open>empty\<close> of SPSCQueue are accurate for what the thread has
  seen: \<open>try_emplace\<close> refuses exactly when \<open>capacity - 1\<close> elements are outstanding with
  respect to the \<open>head\<close> store it acquired, and \<open>try_pop\<close> reports empty exactly when it
  has taken every element whose \<open>tail\<close> store it acquired.
\<close>

theorem spsc_reports_accurate:
  assumes "reach spsc_init spsc_step s"
  shows "(ss_prod s = SP_check x t h k \<longrightarrow>
      ((t + 1) AND ss_mask s = h \<longleftrightarrow> length (ss_pushed s) = k + (length (ss_buffer s) - 1)))
    \<and> (ss_cons s = SC_check h' t' j \<longrightarrow> (h' = t' \<longleftrightarrow> j = length (ss_popped s)))"
proof -
  let ?L = "length (ss_buffer s)" and ?m = "length (ss_pushed s)" and ?n = "length (ss_popped s)"
  have I: "spsc_sys_inv s" using assms by (rule spsc_reach_inv)
  have pow: "is_pow2 (ss_mask s + 1)" "unat (ss_mask s + 1) = ?L"
    using I by (simp_all add: spsc_sys_inv_def Let_def)
  then have pos: "0 < ?L" using is_pow2_pos by metis
  have "(t + 1) AND ss_mask s = h \<longleftrightarrow> ?m = k + (?L - 1)" if "ss_prod s = SP_check x t h k"
  proof -
    have c: "unat t = ?m mod ?L" "unat h = k mod ?L" "?m \<le> k + (?L - 1)" "k \<le> ?m"
      using I that by (auto simp: spsc_sys_inv_def Let_def)
    have "unat ((t + 1) AND ss_mask s) = Suc ?m mod ?L" using next_cell [OF pow] c by blast
    moreover have "Suc (k + (?L - 1)) = k + ?L" using pos by simp
    then have "Suc (k + (?L - 1)) mod ?L = k mod ?L" by (simp only: mod_add_self2)
    moreover have "Suc ?m mod ?L \<noteq> k mod ?L" if "?m < k + (?L - 1)"
      using mod_lap_neq [of k "Suc ?m" ?L] c that by linarith
    ultimately show ?thesis using c by (auto simp: word_eq_iff_unat le_less)
  qed
  moreover have "h' = t' \<longleftrightarrow> j = ?n" if "ss_cons s = SC_check h' t' j"
  proof -
    have "unat h' = ?n mod ?L" "unat t' = j mod ?L" "?n \<le> j" "j \<le> ?m"
      "?m \<le> ss_head_seen s + (?L - 1)" "ss_head_seen s \<le> ?n"
      using I that by (simp_all add: spsc_sys_inv_def Let_def)
    moreover from this pos have "j < ?n + ?L" by linarith
    ultimately show ?thesis using mod_lap_eq_iff [of j ?n ?L] by (auto simp: word_eq_iff_unat)
  qed
  ultimately show ?thesis by blast
qed

theorem spsc_reports_accurate_witness:
  "(1 + 1 :: size_t) AND 1 = 0 \<longleftrightarrow> length (ss_pushed spsc_demo) = 0 + (length (ss_buffer spsc_demo) - 1)"
  using spsc_reports_accurate [OF spsc_demo_reach, of 8 1 0 0] by (simp add: spsc_demo_def)

text \<open>How many own steps a call can still take.\<close>

fun spsc_prod_rank :: "'a spsc_prod \<Rightarrow> nat" where
  "spsc_prod_rank SP_idle = 0"
| "spsc_prod_rank (SP_load_head x t) = 4"
| "spsc_prod_rank (SP_check x t h k) = 3"
| "spsc_prod_rank (SP_write x t k) = 2"
| "spsc_prod_rank (SP_publish x t) = 1"

fun spsc_cons_rank :: "'a spsc_cons \<Rightarrow> nat" where
  "spsc_cons_rank SC_idle = 0"
| "spsc_cons_rank (SC_load_tail h) = 4"
| "spsc_cons_rank (SC_check h t k) = 3"
| "spsc_cons_rank (SC_read h k) = 2"
| "spsc_cons_rank (SC_advance h x) = 1"

lemma spsc_prod_enabled:
  assumes "ss_head_seen s < length (ss_head s)"
  shows "Ex (spsc_prod_step s)"
proof (cases "ss_prod s")
  case SP_idle
  then show ?thesis by (meson sp_call)
next
  case (SP_load_head x t)
  then show ?thesis using assms by (blast intro: sp_load_head)
next
  case (SP_check x t h k)
  then show ?thesis by (cases "(t + 1) AND ss_mask s = h") (blast dest: sp_full sp_room)+
next
  case (SP_write x t k)
  then show ?thesis by (meson sp_write)
next
  case (SP_publish x t)
  then show ?thesis by (meson sp_publish)
qed

lemma spsc_cons_enabled:
  assumes "ss_tail_seen s < length (ss_tail s)"
  shows "Ex (spsc_cons_step s)"
proof (cases "ss_cons s")
  case SC_idle
  then show ?thesis by (meson sc_call)
next
  case (SC_load_tail h)
  then show ?thesis using assms by (blast intro: sc_load_tail)
next
  case (SC_check h t k)
  then show ?thesis by (cases "h = t") (blast dest: sc_empty sc_some)+
next
  case (SC_read h k)
  then show ?thesis by (meson sc_read)
next
  case (SC_advance h x)
  then show ?thesis by (meson sc_advance)
qed

lemma spsc_prod_progress:
  "spsc_prod_step s t \<Longrightarrow> ss_cons t = ss_cons s
    \<and> (ss_prod s \<noteq> SP_idle \<longrightarrow> spsc_prod_rank (ss_prod t) < spsc_prod_rank (ss_prod s))"
  by (cases rule: spsc_prod_step.cases) auto

lemma spsc_cons_progress:
  "spsc_cons_step s t \<Longrightarrow> ss_prod t = ss_prod s
    \<and> (ss_cons s \<noteq> SC_idle \<longrightarrow> spsc_cons_rank (ss_cons t) < spsc_cons_rank (ss_cons s))"
  by (cases rule: spsc_cons_step.cases) auto

text \<open>
  C33. Both operations of SPSCQueue are wait-free: inside a call each thread always has a
  step of its own, each of its steps brings it closer to returning, and the other thread's
  steps do not touch its program counter.
\<close>

theorem spsc_wait_free:
  assumes "reach spsc_init spsc_step s"
  shows "Ex (spsc_prod_step s) \<and> Ex (spsc_cons_step s)
    \<and> \<not> (\<exists>t. spsc_prod_step s t \<and> (ss_cons t \<noteq> ss_cons s
          \<or> ss_prod s \<noteq> SP_idle \<and> spsc_prod_rank (ss_prod s) \<le> spsc_prod_rank (ss_prod t)))
    \<and> \<not> (\<exists>t. spsc_cons_step s t \<and> (ss_prod t \<noteq> ss_prod s
          \<or> ss_cons s \<noteq> SC_idle \<and> spsc_cons_rank (ss_cons s) \<le> spsc_cons_rank (ss_cons t)))"
proof -
  have I: "spsc_sys_inv s" using assms by (rule spsc_reach_inv)
  have "ss_head_seen s < length (ss_head s)" "ss_tail_seen s < length (ss_tail s)"
    using I by (auto simp: spsc_sys_inv_def Let_def)
  then have "Ex (spsc_prod_step s)" "Ex (spsc_cons_step s)"
    by (simp_all add: spsc_prod_enabled spsc_cons_enabled)
  then show ?thesis
    using spsc_prod_progress spsc_cons_progress by (meson not_le)
qed

theorem spsc_wait_free_witness: "Ex (spsc_prod_step spsc_demo) \<and> Ex (spsc_cons_step spsc_demo)"
  using spsc_wait_free [OF spsc_demo_reach] by blast

end
