(* ===== verification/Spmc.thy ===== *)
theory Spmc
  imports Capacity Ring
begin

text \<open>
  \<open>SPMCQueue<T>\<close> of SPMCLockFreeQueue.h, one call at a time: the slots with their sequence
  numbers, construction and destruction, the producer and consumer operations and the
  accessors, and the refinement to a bounded list. Positions are 64-bit words throughout
  and nothing here bounds the number of operations: the refinement holds across the
  wrap-around of \<open>head_\<close> and \<open>tail_\<close>.
\<close>

section \<open>State\<close>

datatype queue_error = Empty | Full

definition to_string :: "queue_error \<Rightarrow> string" where
  "to_string e = (case e of Empty \<Rightarrow> ''Empty'' | Full \<Rightarrow> ''Full'')"

text \<open>A slot: \<open>storage\<close> is \<open>None\<close> while no \<open>T\<close> is alive in the raw bytes.\<close>

record 'a slot =
  sl_sequence :: size_t
  sl_storage :: "'a option"

record 'a spmc =
  q_capacity :: size_t
  q_mask :: size_t
  q_slots :: "'a slot list"
  q_head :: size_t
  q_tail :: size_t

text \<open>
  \<open>construct\<close>, \<open>destroy\<close> and \<open>move_out\<close>. To destroy or to move from a slot that holds no
  object is undefined behaviour, \<open>None\<close> here; constructing over a live object would leak it.
\<close>

definition slot_construct :: "'a \<Rightarrow> 'a slot \<Rightarrow> 'a slot" where
  "slot_construct x s = s\<lparr>sl_storage := Some x\<rparr>"

definition slot_destroy :: "'a slot \<Rightarrow> 'a slot option" where
  "slot_destroy s = (case sl_storage s of None \<Rightarrow> None | Some x \<Rightarrow> Some (s\<lparr>sl_storage := None\<rparr>))"

definition slot_move_out :: "'a slot \<Rightarrow> ('a \<times> 'a slot) option" where
  "slot_move_out s =
     (case sl_storage s of
        None \<Rightarrow> None
      | Some tmp \<Rightarrow> (case slot_destroy s of None \<Rightarrow> None | Some s' \<Rightarrow> Some (tmp, s')))"

section \<open>Construction and destruction\<close>

text \<open>
  \<open>allocate_slots(n)\<close> for slots of \<open>sz\<close> bytes: \<open>operator new\<close> (\<open>can_alloc\<close>) is asked for
  \<open>n * sz\<close> bytes, a multiplication of \<open>std::size_t\<close> that may wrap, and then \<open>n\<close> slots are
  constructed one after the other in the memory. \<open>Inr None\<close>: they do not fit into it, which
  is undefined behaviour.
\<close>

definition allocate_slots :: "size_t \<Rightarrow> (size_t \<Rightarrow> bool) \<Rightarrow> size_t \<Rightarrow> exn + 'a slot list option" where
  "allocate_slots sz can_alloc n =
     (let bytes = n * sz in
      if \<not> can_alloc bytes then Inl Bad_alloc
      else if unat n * unat sz \<le> unat bytes
      then Inr (Some (replicate (unat n) \<lparr>sl_sequence = 0, sl_storage = None\<rparr>))
      else Inr None)"

definition spmc_ctor :: "size_t \<Rightarrow> (size_t \<Rightarrow> bool) \<Rightarrow> size_t \<Rightarrow> exn + 'a spmc option" where
  "spmc_ctor sz can_alloc capacity =
     (case spmc_check_and_round_capacity capacity of
        Inl e \<Rightarrow> Inl e
      | Inr cap \<Rightarrow>
          (case allocate_slots sz can_alloc cap of
             Inl e \<Rightarrow> Inl e
           | Inr None \<Rightarrow> Inr None
           | Inr (Some slots) \<Rightarrow> Inr (Some \<lparr>q_capacity = cap, q_mask = cap - 1,
               q_slots = map (\<lambda>i. (slots ! i)\<lparr>sl_sequence := word_of_nat i\<rparr>) [0..<unat cap],
               q_head = 0, q_tail = 0\<rparr>)))"

text \<open>When the number of bytes is a \<open>size_t\<close>, the slots fit.\<close>

lemma slots_fit: "unat n * unat sz \<le> unat (n * sz :: size_t) \<longleftrightarrow> unat n * unat sz < 2 ^ 64"
proof
  assume "unat n * unat sz \<le> unat (n * sz)"
  also have "unat (n * sz) < 2 ^ 64" using unat_lt_2p64 by simp
  finally show "unat n * unat sz < 2 ^ 64" .
qed (simp add: unat_word_ariths)

lemma spmc_ctor_built:
  assumes "spmc_ctor sz can_alloc capacity = Inr (Some q)"
  obtains cap where "spmc_check_and_round_capacity capacity = Inr cap" "can_alloc (cap * sz)"
    "unat cap * unat sz < 2 ^ 64"
    "q = \<lparr>q_capacity = cap, q_mask = cap - 1,
        q_slots = map (\<lambda>i. \<lparr>sl_sequence = word_of_nat i, sl_storage = None\<rparr>) [0..<unat cap],
        q_head = 0, q_tail = 0\<rparr>"
proof -
  obtain cap where cap: "spmc_check_and_round_capacity capacity = Inr cap"
    using assms by (auto simp: spmc_ctor_def split: sum.splits)
  then have al: "can_alloc (cap * sz)" "unat cap * unat sz \<le> unat (cap * sz)"
    using assms by (auto simp: spmc_ctor_def allocate_slots_def Let_def split: if_splits)
  then have "q = \<lparr>q_capacity = cap, q_mask = cap - 1,
        q_slots = map (\<lambda>i. \<lparr>sl_sequence = word_of_nat i, sl_storage = None\<rparr>) [0..<unat cap],
        q_head = 0, q_tail = 0\<rparr>"
    using assms cap by (auto simp: spmc_ctor_def allocate_slots_def Let_def)
  with cap al slots_fit [of cap sz] show ?thesis using that by blast
qed

lemma word_countdown: "pos \<noteq> t \<Longrightarrow> unat (t - (pos + 1)) < unat (t - pos :: size_t)"
  using measure_unat [of "t - pos"] by (simp add: diff_diff_eq)

text \<open>
  The destructor's walk over \<open>[head, tail)\<close>: it destroys what a slot marked full holds.
  \<open>None\<close>: it destroyed an object that is not there.
\<close>

function spmc_drain :: "size_t \<Rightarrow> size_t \<Rightarrow> size_t \<Rightarrow> 'a slot list \<Rightarrow> 'a slot list option" where
  "spmc_drain pos t msk sl =
     (if pos = t then Some sl
      else let i = unat (pos AND msk); s = sl ! i in
        if sl_sequence s = pos + 1
        then (case slot_destroy s of
                None \<Rightarrow> None
              | Some s' \<Rightarrow> spmc_drain (pos + 1) t msk (sl[i := s']))
        else spmc_drain (pos + 1) t msk sl)"
  by pat_completeness auto

termination
  by (relation "measure (\<lambda>(pos, t, _, _). unat (t - pos))") (simp_all add: word_countdown)

declare spmc_drain.simps [simp del]

text \<open>
  \<open>destroy_slots(slots, n)\<close> ends the lifetime of \<open>n\<close> slots and frees them. A \<open>T\<close> that is
  still alive in the bytes of a slot is not destroyed by this: the result lists those that
  are leaked. \<open>None\<close>: there are not that many slots.
\<close>

definition destroy_slots :: "'a slot list \<Rightarrow> size_t \<Rightarrow> 'a list option" where
  "destroy_slots slots n =
     (if unat n \<le> length slots
      then Some (concat (map (\<lambda>i. case sl_storage (slots ! i) of None \<Rightarrow> [] | Some x \<Rightarrow> [x]) [0..<unat n]))
      else None)"

definition spmc_dtor :: "'a spmc \<Rightarrow> 'a list option" where
  "spmc_dtor q =
     (case spmc_drain (q_head q) (q_tail q) (q_mask q) (q_slots q) of
        None \<Rightarrow> None
      | Some slots \<Rightarrow> destroy_slots slots (q_capacity q))"

section \<open>Operations\<close>

definition spmc_check_capacity :: "size_t \<Rightarrow> exn + size_t" where
  "spmc_check_capacity n = spmc_check_and_round_capacity n"

definition spmc_try_emplace :: "'e + 'a \<Rightarrow> 'a spmc \<Rightarrow> ('e + bool) \<times> 'a spmc" where
  "spmc_try_emplace mk q =
     (let t = q_tail q; i = unat (t AND q_mask q); slot = q_slots q ! i; seq = sl_sequence slot in
      if seq \<noteq> t then (Inr False, q)
      else case mk of
        Inl e \<Rightarrow> (Inl e, q)
      | Inr x \<Rightarrow>
          (Inr True, q\<lparr>q_slots := (q_slots q)[i := (slot_construct x slot)\<lparr>sl_sequence := t + 1\<rparr>],
                       q_tail := t + 1\<rparr>))"

text \<open>
  \<open>try_pop\<close>: the retry loop from a value \<open>h\<close> of \<open>head_\<close>. One thread alone never loses the
  compare-exchange, and the loop is given fuel; \<open>Pop_diverges\<close> says it ran out.
\<close>

datatype 'a pop_outcome = Pop_ret "'a option" | Pop_undefined | Pop_diverges

fun spmc_try_pop_from :: "nat \<Rightarrow> size_t \<Rightarrow> 'a spmc \<Rightarrow> 'a pop_outcome \<times> 'a spmc" where
  "spmc_try_pop_from 0 h q = (Pop_diverges, q)"
| "spmc_try_pop_from (Suc fuel) h q =
     (let i = unat (h AND q_mask q); slot = q_slots q ! i; seq = sl_sequence slot; diff = seq - (h + 1) in
      if diff = 0 then
        (if q_head q = h then
           (let q1 = q\<lparr>q_head := h + 1\<rparr> in
            case slot_move_out slot of
              None \<Rightarrow> (Pop_undefined, q1)
            | Some (result, slot1) \<Rightarrow>
                (Pop_ret (Some result),
                 q1\<lparr>q_slots := (q_slots q)[i := slot1\<lparr>sl_sequence := h + q_capacity q\<rparr>]\<rparr>))
         else spmc_try_pop_from fuel (q_head q) q)
      else if diff > (- 1) div 2 then (Pop_ret None, q)
      else spmc_try_pop_from fuel (q_head q) q)"

definition spmc_try_pop :: "nat \<Rightarrow> 'a spmc \<Rightarrow> 'a pop_outcome \<times> 'a spmc" where
  "spmc_try_pop fuel q = spmc_try_pop_from fuel (q_head q) q"

definition spmc_try_pop_expected :: "nat \<Rightarrow> 'a spmc \<Rightarrow> (queue_error + 'a) option \<times> 'a spmc" where
  "spmc_try_pop_expected fuel q =
     (case spmc_try_pop fuel q of
        (Pop_ret (Some v), q') \<Rightarrow> (Some (Inr v), q')
      | (Pop_ret None, q') \<Rightarrow> (Some (Inl Empty), q')
      | (_, q') \<Rightarrow> (None, q'))"

text \<open>
  \<open>emplace_wait\<close> and \<open>pop_wait\<close> for a thread on its own: nobody else changes the sequence number
  it passes to \<open>wait\<close>, so that once there it compares and sleeps for ever (\<open>Wait_blocks\<close>).
\<close>

datatype 'b wait_outcome = Wait_ret 'b | Wait_blocks | Wait_undefined | Wait_diverges

definition spmc_emplace_wait :: "'e + 'a \<Rightarrow> 'a spmc \<Rightarrow> ('e + unit) wait_outcome \<times> 'a spmc" where
  "spmc_emplace_wait mk q =
     (let t = q_tail q; i = unat (t AND q_mask q); slot = q_slots q ! i; seq = sl_sequence slot in
      if seq \<noteq> t then (Wait_blocks, q)
      else case mk of
        Inl e \<Rightarrow> (Wait_ret (Inl e), q)
      | Inr x \<Rightarrow>
          (Wait_ret (Inr ()), q\<lparr>q_slots := (q_slots q)[i := (slot_construct x slot)\<lparr>sl_sequence := t + 1\<rparr>],
                               q_tail := t + 1\<rparr>))"

fun spmc_pop_wait_from :: "nat \<Rightarrow> size_t \<Rightarrow> 'a spmc \<Rightarrow> 'a wait_outcome \<times> 'a spmc" where
  "spmc_pop_wait_from 0 h q = (Wait_diverges, q)"
| "spmc_pop_wait_from (Suc fuel) h q =
     (let i = unat (h AND q_mask q); slot = q_slots q ! i; seq = sl_sequence slot; diff = seq - (h + 1) in
      if diff = 0 then
        (if q_head q = h then
           (let q1 = q\<lparr>q_head := h + 1\<rparr> in
            case slot_move_out slot of
              None \<Rightarrow> (Wait_undefined, q1)
            | Some (result, slot1) \<Rightarrow>
                (Wait_ret result,
                 q1\<lparr>q_slots := (q_slots q)[i := slot1\<lparr>sl_sequence := h + q_capacity q\<rparr>]\<rparr>))
         else spmc_pop_wait_from fuel (q_head q) q)
      else if diff > (- 1) div 2 then (Wait_blocks, q)
      else spmc_pop_wait_from fuel (q_head q) q)"

definition spmc_pop_wait :: "nat \<Rightarrow> 'a spmc \<Rightarrow> 'a wait_outcome \<times> 'a spmc" where
  "spmc_pop_wait fuel q = spmc_pop_wait_from fuel (q_head q) q"

definition spmc_size_approx :: "'a spmc \<Rightarrow> size_t" where
  "spmc_size_approx q = (let h = q_head q; t = q_tail q in t - h)"

definition spmc_capacity :: "'a spmc \<Rightarrow> size_t" where
  "spmc_capacity q = q_capacity q"

definition spmc_empty :: "'a spmc \<Rightarrow> bool" where
  "spmc_empty q \<longleftrightarrow> spmc_size_approx q = 0"

section \<open>Well-formedness and the abstract queue\<close>

definition spmc_size :: "'a spmc \<Rightarrow> nat" where
  "spmc_size q = unat (q_tail q - q_head q)"

definition spmc_room :: "'a spmc \<Rightarrow> nat" where
  "spmc_room q = length (q_slots q)"

text \<open>The slot of the \<open>i\<close>-th position counted from \<open>head_\<close>.\<close>

definition spmc_cell :: "'a spmc \<Rightarrow> nat \<Rightarrow> 'a slot" where
  "spmc_cell q i = q_slots q ! ((unat (q_head q) + i) mod length (q_slots q))"

definition spmc_inv :: "'a spmc \<Rightarrow> bool" where
  "spmc_inv q \<longleftrightarrow> is_pow2 (q_capacity q) \<and> 2 \<le> unat (q_capacity q) \<and> q_mask q = q_capacity q - 1
     \<and> length (q_slots q) = unat (q_capacity q) \<and> spmc_size q \<le> spmc_room q
     \<and> (\<forall>i < spmc_size q. sl_sequence (spmc_cell q i) = q_head q + word_of_nat i + 1
          \<and> sl_storage (spmc_cell q i) \<noteq> None)
     \<and> (\<forall>i < spmc_room q. spmc_size q \<le> i \<longrightarrow> spmc_cell q i =
          \<lparr>sl_sequence = q_head q + word_of_nat i, sl_storage = None\<rparr>)"

definition spmc_view :: "'a spmc \<Rightarrow> 'a list" where
  "spmc_view q = ring_slice (map (\<lambda>s. the (sl_storage s)) (q_slots q)) (unat (q_head q)) (spmc_size q)"

lemma spmc_view_length [simp]: "length (spmc_view q) = spmc_size q"
  by (simp add: spmc_view_def)

text \<open>Adding to a position modulo \<open>2 ^ 64\<close> and then taking the index, across the wrap-around.\<close>

lemma index_add:
  assumes "is_pow2 c"
  shows "unat ((h + word_of_nat i) AND (c - 1)) = (unat h + i) mod unat c"
proof -
  have d: "unat c dvd 18446744073709551616" using is_pow2_dvd [OF assms] by simp
  have "unat ((h + word_of_nat i) AND (c - 1)) = unat (h + word_of_nat i) mod unat c"
    using assms by (rule unat_and_cap)
  also have "\<dots> = (unat h + i) mod 18446744073709551616 mod unat c"
    by (simp add: unat_word_ariths unat_of_nat mod_add_right_eq)
  also have "\<dots> = (unat h + i) mod unat c" using d by (rule mod_mod_cancel)
  finally show ?thesis .
qed

lemma index_plain: "is_pow2 c \<Longrightarrow> unat (h AND (c - 1)) = unat h mod unat c"
  using index_add [of c h 0] by simp

lemma tail_as_offset: "q_tail q = q_head q + word_of_nat (spmc_size q)"
  by (simp add: spmc_size_def)

lemma spmc_inv_bound: "spmc_inv q \<Longrightarrow> spmc_room q \<le> 2 ^ 63"
  using is_pow2_le by (auto simp: spmc_inv_def spmc_room_def)

lemma spmc_inv_pos: "spmc_inv q \<Longrightarrow> 0 < length (q_slots q)"
  by (auto simp: spmc_inv_def)

text \<open>Writing a slot less than a lap away leaves the other slots alone.\<close>

lemma spmc_cell_update:
  assumes "i < length (q_slots q)" and "k < length (q_slots q)"
  shows "(q_slots q)[(h + k) mod length (q_slots q) := s] ! ((h + i) mod length (q_slots q))
    = (if i = k then s else q_slots q ! ((h + i) mod length (q_slots q)))"
proof -
  have "0 < length (q_slots q)" using assms by linarith
  moreover have "(h + k) mod length (q_slots q) = (h + i) mod length (q_slots q) \<longleftrightarrow> k = i"
    using mod_lap_eq_iff [of "h + i" "h + k" "length (q_slots q)"] assms by auto
  ultimately show ?thesis by (auto simp: nth_list_update)
qed

section \<open>Each operation on every branch\<close>

lemma spmc_tail_slot:
  assumes "spmc_inv q"
  shows "unat (q_tail q AND q_mask q) = (unat (q_head q) + spmc_size q) mod length (q_slots q)"
  using assms index_add [of "q_capacity q" "q_head q" "spmc_size q"]
  by (simp add: spmc_inv_def flip: tail_as_offset)

lemma spmc_head_slot: "spmc_inv q \<Longrightarrow> q_slots q ! unat (q_head q AND q_mask q) = spmc_cell q 0"
  by (simp add: spmc_inv_def spmc_cell_def index_plain)

lemma spmc_emplace_full:
  assumes "spmc_inv q" and "spmc_size q = spmc_room q"
  shows "spmc_try_emplace mk q = (Inr False, q)"
proof -
  have "q_slots q ! unat (q_tail q AND q_mask q) = spmc_cell q 0"
    using assms by (simp add: spmc_tail_slot spmc_cell_def spmc_room_def)
  moreover have "sl_sequence (spmc_cell q 0) = q_head q + 1"
    using assms by (auto simp: spmc_inv_def spmc_room_def)
  moreover have "q_head q + 1 \<noteq> q_tail q"
  proof
    assume "q_head q + 1 = q_tail q"
    then have "spmc_size q = 1" by (simp add: spmc_size_def flip: \<open>q_head q + 1 = q_tail q\<close>)
    with assms show False by (simp add: spmc_inv_def spmc_room_def)
  qed
  ultimately show ?thesis by (simp add: spmc_try_emplace_def Let_def)
qed

lemma spmc_free_slot:
  assumes "spmc_inv q" and "spmc_size q < spmc_room q"
  shows "q_slots q ! unat (q_tail q AND q_mask q) = \<lparr>sl_sequence = q_tail q, sl_storage = None\<rparr>"
proof -
  have "q_slots q ! unat (q_tail q AND q_mask q) = spmc_cell q (spmc_size q)"
    using assms by (simp add: spmc_tail_slot spmc_cell_def)
  also have "\<dots> = \<lparr>sl_sequence = q_head q + word_of_nat (spmc_size q), sl_storage = None\<rparr>"
    using assms unfolding spmc_inv_def by blast
  finally show ?thesis by (simp flip: tail_as_offset)
qed

lemma spmc_emplace_throws:
  "spmc_inv q \<Longrightarrow> spmc_size q < spmc_room q \<Longrightarrow> spmc_try_emplace (Inl e) q = (Inl e, q)"
  by (simp add: spmc_try_emplace_def spmc_free_slot Let_def)

lemma spmc_emplace_ok:
  assumes "spmc_inv q" and lt: "spmc_size q < spmc_room q"
  shows "\<exists>q'. spmc_try_emplace (Inr x) q = (Inr True, q') \<and> spmc_inv q'
    \<and> spmc_view q' = spmc_view q @ [x] \<and> spmc_room q' = spmc_room q"
proof -
  let ?L = "length (q_slots q)" and ?n = "spmc_size q" and ?t = "q_tail q" and ?h = "unat (q_head q)"
  let ?s = "\<lparr>sl_sequence = ?t + 1, sl_storage = Some x\<rparr>"
  let ?q' = "q\<lparr>q_slots := (q_slots q)[(?h + ?n) mod ?L := ?s], q_tail := ?t + 1\<rparr>"
  have room: "spmc_room q = ?L" "?n < ?L" "?L \<le> 2 ^ 63"
    using lt spmc_inv_bound [OF assms(1)] by (simp_all add: spmc_room_def)
  have "?t + 1 - q_head q = (?t - q_head q) + 1" by simp
  then have "unat (?t + 1 - q_head q) = unat ((?t - q_head q) + 1)" by (rule arg_cong)
  also have "\<dots> = ?n + 1"
    unfolding spmc_size_def using room by (intro unat_plus1) (simp add: spmc_size_def)
  finally have size: "spmc_size ?q' = Suc ?n" by (simp add: spmc_size_def)
  have cell: "spmc_cell ?q' i = (if i = ?n then ?s else spmc_cell q i)" if "i < ?L" for i
    using spmc_cell_update [of i q ?n ?h ?s] that room by (simp add: spmc_cell_def)
  have "spmc_inv ?q'"
    using assms room size cell tail_as_offset [of q]
    by (auto simp: spmc_inv_def spmc_room_def less_Suc_eq)
  moreover have "spmc_view ?q' = spmc_view q @ [x]"
    using ring_slice_snoc [of ?n "map (\<lambda>s. the (sl_storage s)) (q_slots q)" _ ?h x] room size
    by (simp add: spmc_view_def map_update)
  moreover have "q_slots q ! ((?h + ?n) mod ?L) = \<lparr>sl_sequence = ?t, sl_storage = None\<rparr>"
    using spmc_free_slot [OF assms] spmc_tail_slot [OF assms(1)] by simp
  then have "spmc_try_emplace (Inr x) q = (Inr True, ?q')"
    using assms(1) by (simp add: spmc_try_emplace_def slot_construct_def spmc_tail_slot Let_def)
  ultimately show ?thesis by (auto simp: spmc_room_def)
qed

text \<open>The unsigned difference of \<open>try_pop\<close> on an empty slot is the largest word.\<close>

lemma empty_diff: "(- 1 :: size_t) > (- 1) div 2" "(h :: size_t) - (h + 1) = - 1" "(- 1 :: size_t) \<noteq> 0"
  by simp_all

lemma spmc_pop_empty:
  assumes "spmc_inv q" and "spmc_size q = 0"
  shows "spmc_try_pop (Suc fuel) q = (Pop_ret None, q)"
proof -
  have "spmc_cell q 0 = \<lparr>sl_sequence = q_head q + word_of_nat 0, sl_storage = None\<rparr>"
    using assms spmc_inv_pos [OF assms(1)] unfolding spmc_inv_def spmc_room_def by blast
  with assms show ?thesis
    by (simp add: spmc_try_pop_def spmc_head_slot Let_def empty_diff del: word_div_no)
qed

text \<open>The state after a removal: the head slot emptied and published for the next lap.\<close>

definition spmc_popped :: "'a spmc \<Rightarrow> 'a spmc" where
  "spmc_popped q = q\<lparr>q_head := q_head q + 1,
     q_slots := (q_slots q)[unat (q_head q) mod length (q_slots q) :=
       \<lparr>sl_sequence = q_head q + q_capacity q, sl_storage = None\<rparr>]\<rparr>"

lemma spmc_popped_simps [simp]:
  "q_head (spmc_popped q) = q_head q + 1" "q_tail (spmc_popped q) = q_tail q"
  "q_capacity (spmc_popped q) = q_capacity q" "q_mask (spmc_popped q) = q_mask q"
  "length (q_slots (spmc_popped q)) = length (q_slots q)" "spmc_room (spmc_popped q) = spmc_room q"
  by (simp_all add: spmc_popped_def spmc_room_def)

lemma spmc_popped_size:
  assumes "spmc_size q = Suc k"
  shows "spmc_size (spmc_popped q) = k"
proof -
  have "q_tail q - (q_head q + 1) = (q_tail q - q_head q) - 1" by (simp add: diff_diff_eq)
  then have "unat (q_tail q - (q_head q + 1)) = unat ((q_tail q - q_head q) - 1)" by (rule arg_cong)
  also have "\<dots> = k" using assms by (subst unat_minus_le) (simp_all add: spmc_size_def)
  finally show ?thesis by (simp add: spmc_size_def)
qed

lemma spmc_popped_start:
  assumes "spmc_inv q"
  shows "unat (q_head q + 1) mod length (q_slots q) = Suc (unat (q_head q)) mod length (q_slots q)"
  using index_add [of "q_capacity q" "q_head q" 1] index_plain [of "q_capacity q" "q_head q + 1"] assms
  by (simp add: spmc_inv_def)

text \<open>The slots move up by one, and the emptied one becomes the last.\<close>

lemma spmc_popped_cell:
  assumes inv: "spmc_inv q" and i: "i < length (q_slots q)"
  shows "spmc_cell (spmc_popped q) i = (if Suc i = length (q_slots q)
    then \<lparr>sl_sequence = q_head q + 1 + word_of_nat i, sl_storage = None\<rparr> else spmc_cell q (Suc i))"
proof -
  let ?L = "length (q_slots q)" and ?h = "unat (q_head q)"
  let ?s = "\<lparr>sl_sequence = q_head q + q_capacity q, sl_storage = None\<rparr>"
  have room: "unat (q_capacity q) = ?L" using inv by (simp add: spmc_inv_def)
  have "(unat (q_head q + 1) + i) mod ?L = (?h + Suc i) mod ?L"
    by (metis add_Suc_shift mod_add_left_eq spmc_popped_start [OF inv])
  then have e: "spmc_cell (spmc_popped q) i = (q_slots q)[?h mod ?L := ?s] ! ((?h + Suc i) mod ?L)"
    by (simp add: spmc_cell_def spmc_popped_def)
  show ?thesis
  proof (cases "Suc i = ?L")
    case True
    have "(word_of_nat (Suc i) :: size_t) = q_capacity q" by (simp only: True) (simp flip: room)
    then have "q_head q + q_capacity q = q_head q + 1 + word_of_nat i" by (simp add: algebra_simps)
    moreover have "?h mod ?L < ?L" using i by (intro mod_less_divisor) linarith
    ultimately show ?thesis using True e by simp
  next
    case False
    then have "(q_slots q)[?h mod ?L := ?s] ! ((?h + Suc i) mod ?L) = q_slots q ! ((?h + Suc i) mod ?L)"
      using spmc_cell_update [of "Suc i" q 0 ?h ?s] i by (cases "q_slots q") auto
    with e False show ?thesis by (simp add: spmc_cell_def)
  qed
qed

lemma spmc_popped_inv:
  assumes inv: "spmc_inv q" and n: "spmc_size q = Suc k"
  shows "spmc_inv (spmc_popped q)"
proof -
  let ?L = "length (q_slots q)" and ?q = "spmc_popped q"
  have k: "k < ?L" using inv n by (auto simp: spmc_inv_def spmc_room_def)
  have held: "sl_sequence (spmc_cell ?q i) = q_head q + 1 + word_of_nat i + 1 \<and> sl_storage (spmc_cell ?q i) \<noteq> None"
    if "i < k" for i
  proof -
    have "sl_sequence (spmc_cell q (Suc i)) = q_head q + word_of_nat (Suc i) + 1 \<and> sl_storage (spmc_cell q (Suc i)) \<noteq> None"
      using inv n that unfolding spmc_inv_def by (metis Suc_less_eq)
    then show ?thesis using spmc_popped_cell [OF inv, of i] k that by (simp add: algebra_simps)
  qed
  have free: "spmc_cell ?q i = \<lparr>sl_sequence = q_head q + 1 + word_of_nat i, sl_storage = None\<rparr>"
    if "i < ?L" "k \<le> i" for i
  proof (cases "Suc i = ?L")
    case True
    with spmc_popped_cell [OF inv that(1)] show ?thesis by simp
  next
    case False
    then have "spmc_cell q (Suc i) = \<lparr>sl_sequence = q_head q + word_of_nat (Suc i), sl_storage = None\<rparr>"
      using inv n that by (simp add: spmc_inv_def spmc_room_def Suc_lessI)
    with spmc_popped_cell [OF inv that(1)] False show ?thesis by (simp add: algebra_simps)
  qed
  show ?thesis
    unfolding spmc_inv_def spmc_popped_size [OF n] using inv k n held free by (simp add: spmc_inv_def spmc_room_def)
qed

lemma spmc_pop_ok:
  assumes inv: "spmc_inv q" and v: "spmc_view q = x # xs"
  shows "\<exists>q'. spmc_try_pop (Suc fuel) q = (Pop_ret (Some x), q') \<and> spmc_inv q'
    \<and> spmc_view q' = xs \<and> spmc_room q' = spmc_room q"
proof -
  let ?L = "length (q_slots q)" and ?hd = "q_head q" and ?h = "unat (q_head q)"
  let ?m = "map (\<lambda>s. the (sl_storage s)) (q_slots q)"
  obtain k where n: "spmc_size q = Suc k" using v spmc_view_length [of q] by (cases "spmc_size q") auto
  have room: "k < ?L" "0 < ?L" using inv n by (auto simp: spmc_inv_def spmc_room_def)
  have vx: "x = ?m ! (?h mod ?L)" and vxs: "xs = ring_slice ?m (Suc ?h) k"
    using v by (simp_all add: spmc_view_def n ring_slice_Suc)
  have "spmc_cell q 0 = \<lparr>sl_sequence = ?hd + 1, sl_storage = Some x\<rparr>"
    using inv n vx room by (auto simp: spmc_inv_def spmc_cell_def intro!: slot.equality)
  moreover have "unat (?hd AND q_mask q) = ?h mod ?L" "q_slots q ! (?h mod ?L) = spmc_cell q 0"
    using inv by (simp_all add: spmc_inv_def index_plain spmc_cell_def)
  ultimately have "spmc_try_pop (Suc fuel) q = (Pop_ret (Some x), spmc_popped q)"
    by (simp add: spmc_try_pop_def Let_def slot_move_out_def slot_destroy_def spmc_popped_def)
  moreover have "spmc_view (spmc_popped q) = xs"
    using ring_slice_drop_first [of k ?m ?h "the None"] spmc_popped_start [OF inv] room
      ring_slice_start [of "unat (?hd + 1)" "?m[?h mod ?L := the None]" "Suc ?h" k]
    by (simp add: spmc_view_def spmc_popped_size [OF n] vxs) (simp add: spmc_popped_def map_update)
  ultimately show ?thesis using spmc_popped_inv [OF inv n] by auto
qed

section \<open>The destructor\<close>

lemma next_position: "is_pow2 c \<Longrightarrow> unat (pos + 1 :: size_t) mod unat c = Suc (unat pos) mod unat c"
  using index_add [of c pos 1] index_plain [of c "pos + 1"] by simp

lemma spmc_drain_ok:
  assumes "is_pow2 c" and "length sl = unat c" and "n \<le> unat c" and "t = pos + word_of_nat n"
    and "\<And>i. i < n \<Longrightarrow> sl_sequence (sl ! ((unat pos + i) mod unat c)) = pos + word_of_nat i + 1
      \<and> sl_storage (sl ! ((unat pos + i) mod unat c)) \<noteq> None"
    and "\<And>i. i < unat c \<Longrightarrow> n \<le> i \<Longrightarrow> sl_storage (sl ! ((unat pos + i) mod unat c)) = None"
  shows "\<exists>sl'. spmc_drain pos t (c - 1) sl = Some sl' \<and> length sl' = length sl
    \<and> (\<forall>j < length sl'. sl_storage (sl' ! j) = None)"
  using assms(2-)
proof (induction n arbitrary: pos sl)
  case 0
  have "sl_storage (sl ! j) = None" if "j < unat c" for j
    using lap_covers [OF that, of "unat pos"] 0 by auto
  with 0 show ?case by (simp add: spmc_drain.simps)
next
  case (Suc n)
  let ?L = "unat c" and ?j = "unat pos mod unat c"
  have L: "Suc n \<le> ?L" "?L \<le> 2 ^ 63" "0 < ?L"
    using Suc.prems(2) is_pow2_le [OF assms(1)] is_pow2_pos [OF assms(1)] by auto
  have ne: "pos \<noteq> t"
  proof
    assume "pos = t"
    then have "(word_of_nat (Suc n) :: size_t) = 0" using Suc.prems(3) by simp
    then have "unat (word_of_nat (Suc n) :: size_t) = 0" by (simp only: unsigned_0)
    moreover have "Suc n < 2 ^ 64" using L by simp
    ultimately show False by (simp only: unat_of_nat) (simp del: of_nat_Suc)
  qed
  obtain x where x: "sl_storage (sl ! ?j) = Some x" and q: "sl_sequence (sl ! ?j) = pos + 1"
    using Suc.prems(4) [of 0] by auto
  let ?sl = "sl[?j := (sl ! ?j)\<lparr>sl_storage := None\<rparr>]"
  have shift: "(unat (pos + 1) + i) mod ?L = (unat pos + Suc i) mod ?L" for i
    using next_position [OF assms(1), of pos] by (metis add_Suc_shift mod_add_left_eq)
  have keep: "?sl ! ((unat pos + Suc i) mod ?L) = sl ! ((unat pos + Suc i) mod ?L)" if "Suc i < ?L" for i
    using mod_lap_neq [of "unat pos" "unat pos + Suc i" ?L] that by simp
  have "\<exists>sl'. spmc_drain (pos + 1) t (c - 1) ?sl = Some sl' \<and> length sl' = length ?sl
    \<and> (\<forall>j < length sl'. sl_storage (sl' ! j) = None)"
  proof (rule Suc.IH)
    show "length ?sl = ?L" "n \<le> ?L" "t = pos + 1 + word_of_nat n"
      using Suc.prems by (simp_all add: add.assoc)
    show "sl_sequence (?sl ! ((unat (pos + 1) + i) mod ?L)) = pos + 1 + word_of_nat i + 1
      \<and> sl_storage (?sl ! ((unat (pos + 1) + i) mod ?L)) \<noteq> None" if "i < n" for i
      using Suc.prems(4) [of "Suc i"] keep [of i] that L unfolding shift by (simp add: algebra_simps)
    show "sl_storage (?sl ! ((unat (pos + 1) + i) mod ?L)) = None" if "i < ?L" "n \<le> i" for i
    proof (cases "Suc i = ?L")
      case True
      then show ?thesis unfolding shift using Suc.prems(1) L by simp
    next
      case False
      then show ?thesis unfolding shift using Suc.prems(5) [of "Suc i"] keep [of i] that by simp
    qed
  qed
  then show ?case
    using ne x q unfolding spmc_drain.simps [of pos]
    by (simp add: Let_def index_plain [OF assms(1)] slot_destroy_def)
qed

lemma spmc_drain_wf:
  assumes "spmc_inv q"
  shows "\<exists>sl. spmc_drain (q_head q) (q_tail q) (q_mask q) (q_slots q) = Some sl \<and> length sl = length (q_slots q)
    \<and> list_all (\<lambda>s. sl_storage s = None) sl"
proof -
  have "\<exists>sl'. spmc_drain (q_head q) (q_tail q) (q_capacity q - 1) (q_slots q) = Some sl'
    \<and> length sl' = length (q_slots q) \<and> (\<forall>j < length sl'. sl_storage (sl' ! j) = None)"
    using assms by (intro spmc_drain_ok [where n = "spmc_size q"])
      (auto simp: spmc_inv_def spmc_cell_def spmc_room_def tail_as_offset)
  then show ?thesis using assms by (auto simp: spmc_inv_def list_all_length)
qed

lemma spmc_dtor_wf:
  assumes "spmc_inv q"
  shows "spmc_dtor q = Some []"
proof -
  obtain sl where sl: "spmc_drain (q_head q) (q_tail q) (q_mask q) (q_slots q) = Some sl"
    "length sl = length (q_slots q)" "list_all (\<lambda>s. sl_storage s = None) sl"
    using spmc_drain_wf [OF assms] by blast
  moreover have "length sl = unat (q_capacity q)" using sl(2) assms by (simp add: spmc_inv_def)
  ultimately show ?thesis by (simp add: spmc_dtor_def destroy_slots_def list_all_length)
qed

section \<open>The queue as a bounded FIFO\<close>

lemma spmc_ctor_ok:
  assumes "spmc_ctor sz can_alloc capacity = Inr (Some q)"
  shows "spmc_inv q \<and> spmc_view q = [] \<and> spmc_check_and_round_capacity capacity = Inr (q_capacity q)
    \<and> spmc_room q = unat (q_capacity q)"
proof -
  obtain cap where c: "spmc_check_and_round_capacity capacity = Inr cap"
    and q: "q = \<lparr>q_capacity = cap, q_mask = cap - 1,
        q_slots = map (\<lambda>i. \<lparr>sl_sequence = word_of_nat i, sl_storage = None\<rparr>) [0..<unat cap],
        q_head = 0, q_tail = 0\<rparr>"
    using assms by (rule spmc_ctor_built)
  with spmc_cap.accepted_pow2 [OF c] spmc_cap.accepted_bounds(1) [OF c] show ?thesis
    by (simp add: spmc_inv_def spmc_view_def spmc_size_def spmc_room_def spmc_cell_def)
qed

text \<open>Each call returns, and does what it does to a list.\<close>

lemma spmc_try_emplace_fifo:
  fixes q :: "'a spmc"
  assumes "spmc_inv q"
  shows "\<exists>b q'. spmc_try_emplace (Inr x :: 'e + 'a) q = (Inr b, q') \<and> spmc_inv q' \<and> spmc_room q' = spmc_room q
    \<and> fifo_enq (spmc_room q) x (spmc_view q) = (b, spmc_view q')"
proof (cases "spmc_size q = spmc_room q")
  case True
  with assms show ?thesis by (simp add: spmc_emplace_full fifo_enq_def) blast
next
  case False
  then have lt: "spmc_size q < spmc_room q" using assms by (simp add: spmc_inv_def)
  obtain q' where "spmc_try_emplace (Inr x :: 'e + 'a) q = (Inr True, q')" "spmc_inv q'"
    "spmc_view q' = spmc_view q @ [x]" "spmc_room q' = spmc_room q"
    using spmc_emplace_ok [OF assms lt, of x] by blast
  with lt show ?thesis by (simp add: fifo_enq_def) blast
qed

lemma spmc_try_pop_fifo:
  assumes "spmc_inv q"
  shows "\<exists>r q'. spmc_try_pop (Suc fuel) q = (Pop_ret r, q') \<and> spmc_inv q' \<and> spmc_room q' = spmc_room q
    \<and> fifo_deq (spmc_view q) = (r, spmc_view q')"
proof (cases "spmc_view q")
  case Nil
  then have "spmc_size q = 0" using spmc_view_length [of q] by simp
  with assms Nil show ?thesis by (simp add: spmc_pop_empty fifo_deq_def)
next
  case (Cons x xs)
  then show ?thesis using spmc_pop_ok [OF assms Cons, of fuel] by (auto simp: fifo_deq_def)
qed

text \<open>
  The two calls as operations of \<open>bounded_fifo\<close>. One iteration of the retry loop is enough for a
  thread that runs alone: by the lemmas above the outcomes dropped here do not occur.
\<close>

definition spmc_enq :: "'a \<Rightarrow> 'a spmc \<Rightarrow> bool \<times> 'a spmc" where
  "spmc_enq x q = (case spmc_try_emplace (Inr x :: unit + 'a) q of (r, q') \<Rightarrow> (projr r, q'))"

definition spmc_deq :: "'a spmc \<Rightarrow> 'a option \<times> 'a spmc" where
  "spmc_deq q = (case spmc_try_pop 1 q of (Pop_ret r, q') \<Rightarrow> (r, q') | (_, q') \<Rightarrow> (None, q'))"

lemma spmc_enq_spec:
  assumes "spmc_inv q"
  shows "spmc_inv (snd (spmc_enq x q)) \<and> spmc_room (snd (spmc_enq x q)) = spmc_room q
    \<and> (fst (spmc_enq x q), spmc_view (snd (spmc_enq x q))) = fifo_enq (spmc_room q) x (spmc_view q)"
proof -
  obtain b q' where "spmc_try_emplace (Inr x :: unit + 'a) q = (Inr b, q')" "spmc_inv q'" "spmc_room q' = spmc_room q"
    "fifo_enq (spmc_room q) x (spmc_view q) = (b, spmc_view q')"
    using spmc_try_emplace_fifo [OF assms] by blast
  then show ?thesis by (simp add: spmc_enq_def)
qed

lemma spmc_deq_spec:
  assumes "spmc_inv q"
  shows "spmc_inv (snd (spmc_deq q)) \<and> spmc_room (snd (spmc_deq q)) = spmc_room q
    \<and> (fst (spmc_deq q), spmc_view (snd (spmc_deq q))) = fifo_deq (spmc_view q)"
  using spmc_try_pop_fifo [OF assms, of 0] by (auto simp: spmc_deq_def)

interpretation spmc: bounded_fifo spmc_enq spmc_deq spmc_view spmc_room spmc_inv
  by unfold_locales (simp_all only: spmc_enq_spec spmc_deq_spec)

section \<open>Properties\<close>

text \<open>
  The constructor of SPMCQueue on every branch: a capacity the policy rejects throws
  \<open>invalid_argument\<close> before anything is allocated, a failing allocation throws
  \<open>bad_alloc\<close>, and when the slots need fewer than \<open>2 ^ 64\<close> bytes the queue is well formed and
  empty with the rounded capacity. When they need more, the requested number of bytes has
  wrapped around and the constructor writes slots outside the memory it was given.
\<close>

theorem spmc_ctor_contract:
  "case spmc_ctor sz can_alloc capacity of
     Inl (Invalid_argument m) \<Rightarrow> unat capacity < 2 \<or> 2 ^ 63 < unat capacity
   | Inl Bad_alloc \<Rightarrow> \<not> can_alloc (bit_ceil capacity * sz)
   | Inl Length_error \<Rightarrow> False
   | Inr None \<Rightarrow> can_alloc (bit_ceil capacity * sz) \<and> 2 ^ 64 \<le> unat (bit_ceil capacity) * unat sz
   | Inr (Some q) \<Rightarrow> q_capacity q = bit_ceil capacity \<and> can_alloc (bit_ceil capacity * sz)
       \<and> unat (bit_ceil capacity) * unat sz < 2 ^ 64 \<and> spmc_inv q
       \<and> spmc_view q = [] \<and> \<not> (\<exists>s \<in> set (q_slots q). sl_storage s \<noteq> None)"
  (is "case_sum _ _ ?r")
proof (cases "spmc_check_and_round_capacity capacity")
  case (Inl e)
  then show ?thesis
    using spmc_cap.contract [of capacity]
    by (auto simp: spmc_ctor_def rounds_to_pow2_def not_le)
next
  case (Inr cap)
  then have cap: "cap = bit_ceil capacity" using spmc_cap.accepted by blast
  show ?thesis
  proof (cases ?r)
    case (Inr r)
    show ?thesis
    proof (cases r)
      case None
      then have "can_alloc (cap * sz)" "\<not> unat cap * unat sz \<le> unat (cap * sz)"
        using Inr \<open>spmc_check_and_round_capacity capacity = Inr cap\<close>
        by (auto simp: spmc_ctor_def allocate_slots_def Let_def split: if_splits)
      then show ?thesis using None Inr cap slots_fit [of cap sz] by simp
    next
      case (Some q)
      then have "spmc_ctor sz can_alloc capacity = Inr (Some q)" using Inr by simp
      note ok = spmc_ctor_ok [OF this]
      from \<open>spmc_ctor sz can_alloc capacity = Inr (Some q)\<close> obtain cap' where
        "spmc_check_and_round_capacity capacity = Inr cap'" "can_alloc (cap' * sz)" "unat cap' * unat sz < 2 ^ 64"
        and q: "q_capacity q = cap'" "q_slots q = map (\<lambda>i. \<lparr>sl_sequence = word_of_nat i, sl_storage = None\<rparr>) [0..<unat cap']"
        by (rule spmc_ctor_built) simp
      moreover have "cap' = bit_ceil capacity" using calculation(1) spmc_cap.accepted by blast
      moreover have "\<not> (\<exists>s \<in> set (q_slots q). sl_storage s \<noteq> None)" unfolding q(2) by auto
      ultimately show ?thesis using ok by (simp add: Some Inr)
    qed
  qed (use Inr cap in \<open>auto simp: spmc_ctor_def allocate_slots_def Let_def split: if_splits\<close>)
qed

text \<open>
  C40. The constructor of SPMCQueue overruns its allocation for capacities that its own check
  accepts: with slots of 64 bytes, the smallest a cache-line-aligned slot can be, and a
  capacity of \<open>2 ^ 58\<close> it asks \<open>operator new\<close> for 0 bytes, which succeeds, and then
  constructs \<open>2 ^ 58\<close> slots there.
\<close>

theorem spmc_ctor_overruns:
  assumes "can_alloc 0"
  shows "spmc_check_and_round_capacity (2 ^ 58) = Inr (2 ^ 58)
    \<and> spmc_ctor 64 can_alloc (2 ^ 58) = (Inr None :: exn + 'a spmc option)"
proof -
  have c: "spmc_check_and_round_capacity (2 ^ 58) = Inr (2 ^ 58)"
    using bit_ceil_power [of 58] by (simp add: spmc_check_and_round_capacity_def)
  have z: "(18446744073709551616 :: size_t) = 0" by (simp add: word_eq_iff_unat)
  show ?thesis using assms c by (simp add: spmc_ctor_def allocate_slots_def z)
qed

theorem spmc_ctor_overruns_witness: "spmc_ctor 64 (\<lambda>bytes. bytes \<le> 1024) (2 ^ 58) = (Inr None :: exn + nat spmc option)"
  using conjunct2 [OF spmc_ctor_overruns [of "\<lambda>bytes. bytes \<le> 1024"]] by simp

text \<open>
  A sequence of calls with the result of each. \<open>None\<close>: a \<open>try_pop\<close> did not return within its fuel,
  or had no defined behaviour, or a constructor threw.
\<close>

fun spmc_run :: "nat \<Rightarrow> 'a qop list \<Rightarrow> 'a spmc \<Rightarrow> ('a qout list \<times> 'a spmc) option" where
  "spmc_run fuel [] q = Some ([], q)"
| "spmc_run fuel (Enq x # ops) q =
     (case spmc_try_emplace (Inr x :: unit + 'a) q of
        (Inl _, q1) \<Rightarrow> None
      | (Inr b, q1) \<Rightarrow> map_option (\<lambda>(outs, q2). (Accepted b # outs, q2)) (spmc_run fuel ops q1))"
| "spmc_run fuel (Deq # ops) q =
     (case spmc_try_pop fuel q of
        (Pop_ret r, q1) \<Rightarrow> map_option (\<lambda>(outs, q2). (Popped r # outs, q2)) (spmc_run fuel ops q1)
      | _ \<Rightarrow> None)"

lemma spmc_run_refines:
  "spmc_inv q \<Longrightarrow> \<exists>outs q'. spmc_run (Suc fuel) ops q = Some (outs, q') \<and> spmc_inv q' \<and> spmc_room q' = spmc_room q
    \<and> (outs, spmc_view q') = run_ops (fifo_enq (spmc_room q)) fifo_deq ops (spmc_view q)"
proof (induction ops arbitrary: q)
  case (Cons op ops)
  show ?case
  proof (cases op)
    case (Enq x)
    obtain b q1 where e: "spmc_try_emplace (Inr x :: unit + 'a) q = (Inr b, q1)" and q1: "spmc_inv q1" "spmc_room q1 = spmc_room q"
      "fifo_enq (spmc_room q) x (spmc_view q) = (b, spmc_view q1)"
      using spmc_try_emplace_fifo [OF Cons.prems, of x] by blast
    from Cons.IH [OF q1(1)] obtain outs q' where "spmc_run (Suc fuel) ops q1 = Some (outs, q')" "spmc_inv q'"
      "spmc_room q' = spmc_room q1" "(outs, spmc_view q') = run_ops (fifo_enq (spmc_room q1)) fifo_deq ops (spmc_view q1)"
      by blast
    then show ?thesis using e q1 by (simp add: Enq) (metis case_prod_conv)
  next
    case Deq
    obtain r q1 where e: "spmc_try_pop (Suc fuel) q = (Pop_ret r, q1)" and q1: "spmc_inv q1" "spmc_room q1 = spmc_room q"
      "fifo_deq (spmc_view q) = (r, spmc_view q1)"
      using spmc_try_pop_fifo [OF Cons.prems, of fuel] by blast
    from Cons.IH [OF q1(1)] obtain outs q' where "spmc_run (Suc fuel) ops q1 = Some (outs, q')" "spmc_inv q'"
      "spmc_room q' = spmc_room q1" "(outs, spmc_view q') = run_ops (fifo_enq (spmc_room q1)) fifo_deq ops (spmc_view q1)"
      by blast
    then show ?thesis using e q1 by (simp add: Deq) (metis case_prod_conv)
  qed
qed simp

text \<open>
  C25. SPMCQueue used one call at a time is a bounded FIFO of \<open>capacity\<close> elements: from any
  well-formed state every call of a sequence of \<open>try_emplace\<close> and \<open>try_pop\<close> returns, already in
  the first iteration of its loop, and returns what a list returns. There is no bound on the
  number of operations: the positions wrap around.
\<close>

theorem spmc_refines_fifo:
  assumes "spmc_inv q"
  shows "\<exists>outs q'. spmc_run (Suc fuel) ops q = Some (outs, q') \<and> spmc_inv q' \<and> q_capacity q' = q_capacity q
    \<and> (outs, spmc_view q') = run_ops (fifo_enq (unat (q_capacity q))) fifo_deq ops (spmc_view q)"
proof -
  obtain outs q' where "spmc_run (Suc fuel) ops q = Some (outs, q')" and q': "spmc_inv q'" "spmc_room q' = spmc_room q"
    and "(outs, spmc_view q') = run_ops (fifo_enq (spmc_room q)) fifo_deq ops (spmc_view q)"
    using spmc_run_refines [OF assms, of fuel ops] by blast
  moreover have "spmc_room q = unat (q_capacity q)" "q_capacity q' = q_capacity q"
    using assms q' by (simp_all add: spmc_inv_def spmc_room_def word_eq_iff_unat)
  ultimately show ?thesis by auto
qed

text \<open>A queue of capacity 2 whose next position is the largest \<open>size_t\<close>.\<close>

definition spmc_wrap_demo :: "nat spmc" where
  "spmc_wrap_demo = \<lparr>q_capacity = 2, q_mask = 1,
     q_slots = [\<lparr>sl_sequence = 0, sl_storage = None\<rparr>, \<lparr>sl_sequence = - 1, sl_storage = None\<rparr>],
     q_head = - 1, q_tail = - 1\<rparr>"

lemma spmc_wrap_demo_inv: "spmc_inv spmc_wrap_demo"
proof -
  have "is_pow2 2" unfolding is_pow2_def by (rule exI [of _ 1]) simp
  moreover have "unat (- 1 :: size_t) = 18446744073709551615"
    by (simp add: unsigned_minus_1_eq_mask mask_eq_exp_minus_1)
  moreover have "(18446744073709551615 :: nat) mod Suc (Suc 0) = 1" "(18446744073709551616 :: nat) mod Suc (Suc 0) = 0"
    by (simp_all flip: numeral_2_eq_2)
  ultimately show ?thesis
    by (simp add: spmc_wrap_demo_def spmc_inv_def spmc_size_def spmc_room_def spmc_cell_def all_less_two)
qed

theorem spmc_refines_fifo_witness:
  "map_option fst (spmc_run 1 [Enq 1, Enq 2, Enq 3, Deq, Enq 4, Deq, Deq, Deq] spmc_wrap_demo)
   = Some [Accepted True, Accepted True, Accepted False, Popped (Some 1), Accepted True,
      Popped (Some 2), Popped (Some 4), Popped None]"
proof -
  have v: "spmc_view spmc_wrap_demo = []" "unat (q_capacity spmc_wrap_demo) = 2"
    by (simp_all add: spmc_wrap_demo_def spmc_view_def spmc_size_def)
  obtain outs q' where "spmc_run 1 [Enq 1, Enq 2, Enq 3, Deq, Enq 4, Deq, Deq, Deq] spmc_wrap_demo = Some (outs, q')"
    "(outs, spmc_view q') = run_ops (fifo_enq 2) fifo_deq [Enq 1, Enq 2, Enq 3, Deq, Enq 4, Deq, Deq, Deq] []"
    using spmc_refines_fifo [OF spmc_wrap_demo_inv, of 0 "[Enq 1, Enq 2, Enq 3, Deq, Enq 4, Deq, Deq, Deq]"]
    unfolding v One_nat_def by blast
  then show ?thesis by (simp add: fifo_enq_def fifo_deq_def del: spmc_run.simps)
qed

text \<open>
  Run alone, the retry loop of \<open>try_pop\<close> ends in its first iteration whatever the fuel,
  never touches a slot that holds no object, and returns the oldest element, or
  \<open>nullopt\<close> exactly when the queue is empty. \<open>try_pop_expected\<close> reports \<open>Empty\<close> in that
  case and never \<open>Full\<close>.
\<close>

theorem spmc_try_pop_total:
  assumes "spmc_inv q"
  shows "fst (spmc_try_pop (Suc fuel) q) = Pop_ret (case spmc_view q of [] \<Rightarrow> None | x # xs \<Rightarrow> Some x)
    \<and> spmc_inv (snd (spmc_try_pop (Suc fuel) q))
    \<and> spmc_view (snd (spmc_try_pop (Suc fuel) q)) = tl (spmc_view q)
    \<and> fst (spmc_try_pop_expected (Suc fuel) q)
        = Some (case spmc_view q of [] \<Rightarrow> Inl Empty | x # xs \<Rightarrow> Inr x)"
proof (cases "spmc_view q")
  case Nil
  then have "spmc_size q = 0" using spmc_view_length [of q] by simp
  with assms Nil show ?thesis by (simp add: spmc_pop_empty spmc_try_pop_expected_def)
next
  case (Cons x xs)
  with spmc_pop_ok [OF assms Cons, of fuel] show ?thesis by (auto simp: spmc_try_pop_expected_def)
qed

theorem spmc_try_pop_total_witness:
  "fst (spmc_try_pop 1 spmc_wrap_demo) = Pop_ret None
   \<and> fst (spmc_try_pop_expected 1 spmc_wrap_demo) = Some (Inl Empty)"
  using spmc_try_pop_total [OF spmc_wrap_demo_inv, of 0]
  by (simp add: spmc_wrap_demo_def spmc_view_def spmc_size_def)

text \<open>
  The destructor of SPMCQueue destroys exactly the elements still in the queue: on a
  well-formed queue its walk never destroys an object that is not there, no slot holds
  an object afterwards, and none is leaked when the slots are freed. \<open>size_approx\<close> is the number of elements and \<open>empty\<close> tells whether
  there is none.
\<close>

theorem spmc_dtor_destroys_all:
  assumes "spmc_inv q"
  shows "(case spmc_drain (q_head q) (q_tail q) (q_mask q) (q_slots q) of
      None \<Rightarrow> False
    | Some sl \<Rightarrow> length sl = spmc_room q \<and> list_all (\<lambda>s. sl_storage s = None) sl)
    \<and> spmc_dtor q = Some []
    \<and> length (filter (\<lambda>s. sl_storage s \<noteq> None) (map (spmc_cell q) [0..<spmc_room q])) = length (spmc_view q)
    \<and> unat (spmc_size_approx q) = length (spmc_view q) \<and> (spmc_empty q \<longleftrightarrow> spmc_view q = [])"
proof -
  let ?n = "spmc_size q" and ?L = "unat (q_capacity q)"
  have L: "length (q_slots q) = ?L" "?n \<le> ?L" "spmc_room q = ?L"
    using assms by (auto simp: spmc_inv_def spmc_room_def)
  have "case spmc_drain (q_head q) (q_tail q) (q_mask q) (q_slots q) of None \<Rightarrow> False
    | Some sl \<Rightarrow> length sl = spmc_room q \<and> list_all (\<lambda>s. sl_storage s = None) sl"
    using spmc_drain_wf [OF assms] by (auto simp: spmc_room_def)
  moreover note spmc_dtor_wf [OF assms]
  moreover have "filter (\<lambda>s. sl_storage s \<noteq> None) (map (spmc_cell q) [0..<?L]) = map (spmc_cell q) [0..<?n]"
  proof -
    have "[0..<?L] = [0..<?n] @ [?n..<?L]" using L by (metis le0 le_add_diff_inverse upt_add_eq_append)
    moreover have "filter (\<lambda>s. sl_storage s \<noteq> None) (map (spmc_cell q) [0..<?n]) = map (spmc_cell q) [0..<?n]"
      using assms by (intro filter_True) (auto simp: spmc_inv_def)
    moreover have "filter (\<lambda>s. sl_storage s \<noteq> None) (map (spmc_cell q) [?n..<?L]) = []"
      using assms L by (intro filter_False) (auto simp: spmc_inv_def)
    ultimately show ?thesis by simp
  qed
  moreover have "spmc_view q = [] \<longleftrightarrow> ?n = 0" using spmc_view_length [of q] by (metis length_0_conv)
  ultimately show ?thesis
    using L by (simp add: spmc_size_approx_def spmc_empty_def spmc_size_def unat_eq_0)
qed

theorem spmc_dtor_destroys_all_witness: "spmc_empty spmc_wrap_demo \<and> spmc_dtor spmc_wrap_demo = Some []"
  using spmc_dtor_destroys_all [OF spmc_wrap_demo_inv]
  by (auto simp: spmc_wrap_demo_def spmc_view_def spmc_size_def split: option.splits)

section \<open>From the constructor to the destructor\<close>

text \<open>
  A thread that constructs a queue, calls its operations and destroys it. \<open>Wrong\<close>: some call
  had no defined behaviour or used up its fuel; \<open>Blocked\<close>: the call named sleeps for ever. The
  lists are the elements constructed in the queue and those moved out to the caller.
\<close>

datatype ('e, 'a) spmc_call =
  Call_emplace "'e + 'a" | Call_emplace_wait "'e + 'a" | Call_pop | Call_pop_expected | Call_pop_wait

datatype ('e, 'a) spmc_ended =
  Wrong
| Blocked "('e, 'a) spmc_call" "'a list" "'a list" "'a spmc"
| Finished "'a list" "'a list" "'a spmc"

fun spmc_do_call :: "nat \<Rightarrow> ('e, 'a) spmc_call \<Rightarrow> 'a spmc \<Rightarrow> ('e, 'a) spmc_ended" where
  "spmc_do_call fuel (Call_emplace mk) q =
     (case spmc_try_emplace mk q of (r, q') \<Rightarrow> Finished (if r = Inr True then [projr mk] else []) [] q')"
| "spmc_do_call fuel (Call_emplace_wait mk) q =
     (case spmc_emplace_wait mk q of
        (Wait_ret r, q') \<Rightarrow> Finished (if r = Inr () then [projr mk] else []) [] q'
      | (Wait_blocks, q') \<Rightarrow> Blocked (Call_emplace_wait mk) [] [] q'
      | _ \<Rightarrow> Wrong)"
| "spmc_do_call fuel Call_pop q =
     (case spmc_try_pop fuel q of
        (Pop_ret (Some v), q') \<Rightarrow> Finished [] [v] q'
      | (Pop_ret None, q') \<Rightarrow> Finished [] [] q'
      | _ \<Rightarrow> Wrong)"
| "spmc_do_call fuel Call_pop_expected q =
     (case spmc_try_pop_expected fuel q of
        (Some (Inr v), q') \<Rightarrow> Finished [] [v] q'
      | (Some (Inl e), q') \<Rightarrow> Finished [] [] q'
      | _ \<Rightarrow> Wrong)"
| "spmc_do_call fuel Call_pop_wait q =
     (case spmc_pop_wait fuel q of
        (Wait_ret v, q') \<Rightarrow> Finished [] [v] q'
      | (Wait_blocks, q') \<Rightarrow> Blocked Call_pop_wait [] [] q'
      | _ \<Rightarrow> Wrong)"

fun spmc_session :: "nat \<Rightarrow> ('e, 'a) spmc_call list \<Rightarrow> 'a spmc \<Rightarrow> ('e, 'a) spmc_ended" where
  "spmc_session fuel [] q = Finished [] [] q"
| "spmc_session fuel (c # cs) q =
     (case spmc_do_call fuel c q of
        Finished made moved q1 \<Rightarrow>
          (case spmc_session fuel cs q1 of
             Finished made' moved' q2 \<Rightarrow> Finished (made @ made') (moved @ moved') q2
           | Blocked d made' moved' q2 \<Rightarrow> Blocked d (made @ made') (moved @ moved') q2
           | Wrong \<Rightarrow> Wrong)
      | r \<Rightarrow> r)"

text \<open>The blocking operations do what the others do, and block where those refuse.\<close>

lemma spmc_emplace_wait_alt:
  "spmc_emplace_wait mk q = (case spmc_try_emplace mk q of
     (Inl e, q') \<Rightarrow> (Wait_ret (Inl e), q')
   | (Inr b, q') \<Rightarrow> (if b then Wait_ret (Inr ()) else Wait_blocks, q'))"
  by (auto simp: spmc_emplace_wait_def spmc_try_emplace_def Let_def split: sum.splits)

lemma spmc_pop_wait_from_alt:
  "spmc_pop_wait_from fuel h q = (case spmc_try_pop_from fuel h q of
     (Pop_ret (Some v), q') \<Rightarrow> (Wait_ret v, q')
   | (Pop_ret None, q') \<Rightarrow> (Wait_blocks, q')
   | (Pop_undefined, q') \<Rightarrow> (Wait_undefined, q')
   | (Pop_diverges, q') \<Rightarrow> (Wait_diverges, q'))"
  by (induction fuel arbitrary: h) (simp_all add: Let_def split: option.split)

text \<open>
  What holds when a call has ended or blocked; \<open>blocks_rightly\<close>: only \<open>emplace_wait\<close> on a full queue
  and \<open>pop_wait\<close> on an empty one block.
\<close>

definition spmc_accounted :: "'a list \<Rightarrow> size_t \<Rightarrow> 'a list \<Rightarrow> 'a list \<Rightarrow> 'a spmc \<Rightarrow> bool" where
  "spmc_accounted before capacity made moved q \<longleftrightarrow>
     spmc_inv q \<and> spmc_capacity q = capacity \<and> before @ made = moved @ spmc_view q"

fun blocks_rightly :: "('e, 'a) spmc_call \<Rightarrow> 'a spmc \<Rightarrow> bool" where
  "blocks_rightly (Call_emplace_wait mk) q \<longleftrightarrow> length (spmc_view q) = unat (spmc_capacity q)"
| "blocks_rightly Call_pop_wait q \<longleftrightarrow> spmc_view q = []"
| "blocks_rightly _ q \<longleftrightarrow> False"

fun spmc_ended_well :: "'a list \<Rightarrow> size_t \<Rightarrow> ('e, 'a) spmc_ended \<Rightarrow> bool" where
  "spmc_ended_well before capacity Wrong \<longleftrightarrow> False"
| "spmc_ended_well before capacity (Blocked c made moved q) \<longleftrightarrow>
     spmc_accounted before capacity made moved q \<and> blocks_rightly c q"
| "spmc_ended_well before capacity (Finished made moved q) \<longleftrightarrow> spmc_accounted before capacity made moved q"

lemma spmc_emplace_call:
  fixes q :: "'a spmc" and mk :: "'e + 'a"
  assumes inv: "spmc_inv q"
  shows "spmc_ended_well (spmc_view q) (spmc_capacity q) (spmc_do_call fuel (Call_emplace mk) q)
    \<and> spmc_ended_well (spmc_view q) (spmc_capacity q) (spmc_do_call fuel (Call_emplace_wait mk) q)"
proof (cases "spmc_size q = spmc_room q")
  case True
  then have "spmc_size q = unat (spmc_capacity q)" using inv by (simp add: spmc_inv_def spmc_room_def spmc_capacity_def)
  with True show ?thesis using inv by (simp add: spmc_emplace_full spmc_emplace_wait_alt spmc_accounted_def)
next
  case False
  then have lt: "spmc_size q < spmc_room q" using inv by (simp add: spmc_inv_def)
  show ?thesis
  proof (cases mk)
    case (Inl e)
    then show ?thesis using inv lt by (simp add: spmc_emplace_throws spmc_emplace_wait_alt spmc_accounted_def)
  next
    case (Inr x)
    from spmc_emplace_ok [OF inv lt, of x] obtain q' where
      e: "spmc_try_emplace (Inr x :: 'e + 'a) q = (Inr True, q')" "spmc_inv q'"
      "spmc_view q' = spmc_view q @ [x]" "spmc_room q' = spmc_room q" by blast
    then have "q_capacity q' = q_capacity q" using inv by (simp add: spmc_inv_def spmc_room_def word_eq_iff_unat)
    with e show ?thesis by (simp add: Inr spmc_emplace_wait_alt spmc_accounted_def spmc_capacity_def)
  qed
qed

lemma spmc_pop_call:
  fixes q :: "'a spmc" and c :: "('e, 'a) spmc_call"
  assumes inv: "spmc_inv q" and c: "c \<in> {Call_pop, Call_pop_expected, Call_pop_wait}"
  shows "spmc_ended_well (spmc_view q) (spmc_capacity q) (spmc_do_call (Suc fuel) c q)"
proof -
  obtain r q' where e: "spmc_try_pop (Suc fuel) q = (Pop_ret r, q')" and q': "spmc_inv q'" "spmc_room q' = spmc_room q"
    and v: "fifo_deq (spmc_view q) = (r, spmc_view q')" using spmc_try_pop_fifo [OF inv, of fuel] by blast
  have cap: "spmc_capacity q' = spmc_capacity q"
    using inv q' by (simp add: spmc_inv_def spmc_room_def spmc_capacity_def word_eq_iff_unat)
  have w: "spmc_pop_wait (Suc fuel) q = (case r of None \<Rightarrow> (Wait_blocks, q') | Some v \<Rightarrow> (Wait_ret v, q'))"
    using e by (simp add: spmc_pop_wait_def spmc_try_pop_def spmc_pop_wait_from_alt
        del: spmc_try_pop_from.simps spmc_pop_wait_from.simps split: option.split)
  show ?thesis
  proof (cases "spmc_view q")
    case Nil
    then have "r = None" "spmc_view q' = []" using v by (simp_all add: fifo_deq_def)
    with c e w q' cap Nil show ?thesis by (auto simp: spmc_accounted_def spmc_try_pop_expected_def)
  next
    case (Cons x xs)
    then have "r = Some x" "spmc_view q' = xs" using v by (simp_all add: fifo_deq_def)
    with c e w q' cap Cons show ?thesis by (auto simp: spmc_accounted_def spmc_try_pop_expected_def)
  qed
qed

lemma spmc_session_safe:
  "spmc_inv q \<Longrightarrow> spmc_ended_well (spmc_view q) (spmc_capacity q) (spmc_session (Suc fuel) calls q)"
proof (induction calls arbitrary: q)
  case Nil
  then show ?case by (simp add: spmc_accounted_def)
next
  case (Cons c cs)
  have S: "spmc_ended_well (spmc_view q) (spmc_capacity q) (spmc_do_call (Suc fuel) c q)"
    using spmc_emplace_call [OF Cons.prems] spmc_pop_call [OF Cons.prems] by (cases c) blast+
  show ?case
  proof (cases "spmc_do_call (Suc fuel) c q")
    case (Finished made moved q1)
    then have q1: "spmc_inv q1" "spmc_capacity q1 = spmc_capacity q" "spmc_view q @ made = moved @ spmc_view q1"
      using S by (simp_all add: spmc_accounted_def)
    have join: "spmc_view q @ made @ made' = (moved @ moved') @ spmc_view q2"
      if "spmc_view q1 @ made' = moved' @ spmc_view q2" for made' moved' q2
      using that q1(3) by (metis append.assoc)
    from Cons.IH [OF q1(1)] show ?thesis
      using q1(2) join
      by (cases "spmc_session (Suc fuel) cs q1") (auto simp: Finished spmc_accounted_def)
  qed (use S in simp_all)
qed

text \<open>
  C26. A thread that goes through the operations of SPMCQueue never goes wrong: from the
  constructor on, whatever calls of \<open>try_emplace\<close>, \<open>emplace_wait\<close>, \<open>try_pop\<close>,
  \<open>try_pop_expected\<close> and \<open>pop_wait\<close> it makes in whatever order, constructors of elements that
  throw included, every call returns, but for an \<open>emplace_wait\<close> on a full queue and a
  \<open>pop_wait\<close> on an empty one, which no other thread is there to end. No object is constructed
  over, moved from or destroyed where there is none, the queue stays well formed with its
  capacity, and each element constructed in it was moved out once, in order, or is still
  there; those the destructor destroys, and nothing is leaked.
\<close>

theorem spmc_never_goes_wrong:
  assumes "spmc_ctor sz can_alloc capacity = Inr (Some q)"
  shows "case spmc_session (Suc fuel) calls q of
      Wrong \<Rightarrow> False
    | Blocked c made moved q' \<Rightarrow> blocks_rightly c q' \<and> spmc_accounted [] (bit_ceil capacity) made moved q'
    | Finished made moved q' \<Rightarrow> spmc_accounted [] (bit_ceil capacity) made moved q' \<and> spmc_dtor q' = Some []"
proof -
  have q: "spmc_inv q" "spmc_view q = []" "spmc_capacity q = bit_ceil capacity"
    using spmc_ctor_ok [OF assms] spmc_cap.accepted by (auto simp: spmc_capacity_def)
  from spmc_session_safe [OF q(1), of fuel calls] show ?thesis
    unfolding q(2,3) using spmc_dtor_wf by (auto simp: spmc_accounted_def split: spmc_ended.split)
qed

theorem spmc_never_goes_wrong_witness:
  "\<exists>made moved q'. spmc_session 1
      [Call_emplace_wait (Inr 7), Call_emplace (Inl ''bad''), Call_pop_expected, Call_emplace (Inr 8), Call_pop_wait, Call_pop_wait]
      (\<lparr>q_capacity = 2, q_mask = 1, q_slots = [\<lparr>sl_sequence = 0, sl_storage = None\<rparr>,
         \<lparr>sl_sequence = 1, sl_storage = None\<rparr>], q_head = 0, q_tail = 0\<rparr> :: nat spmc) = Blocked Call_pop_wait made moved q'
    \<and> made = [7, 8] \<and> moved = [7, 8] \<and> spmc_view q' = []"
proof -
  let ?calls = "[Call_emplace_wait (Inr 7), Call_emplace (Inl ''bad''), Call_pop_expected, Call_emplace (Inr 8),
      Call_pop_wait, Call_pop_wait]"
  let ?q = "\<lparr>q_capacity = 2, q_mask = 1, q_slots = [\<lparr>sl_sequence = 0, sl_storage = None\<rparr>,
         \<lparr>sl_sequence = 1, sl_storage = None\<rparr>], q_head = 0, q_tail = 0\<rparr> :: nat spmc"
  have c: "spmc_ctor 64 (\<lambda>_. True) 2 = (Inr (Some ?q) :: exn + nat spmc option)"
    by (simp add: spmc_ctor_def allocate_slots_def replicate_2 spmc_check_and_round_capacity_def bit_ceil_values upt_rec)
  obtain q' where r: "spmc_session 1 ?calls ?q = Blocked Call_pop_wait [7, 8] [7, 8] q'"
    by (simp add: spmc_emplace_wait_def spmc_try_emplace_def spmc_try_pop_expected_def spmc_try_pop_def spmc_pop_wait_def
        slot_construct_def slot_move_out_def slot_destroy_def Let_def)
  from spmc_never_goes_wrong [OF c, of 0 ?calls] r show ?thesis by (simp add: One_nat_def del: spmc_session.simps)
qed

end
