(* ===== verification/Spmc_Concurrent.thy ===== *)
theory Spmc_Concurrent
  imports Spmc "HOL-Library.Multiset"
begin

text \<open>
  \<open>SPMCQueue\<close> with one producer and any number of consumers, one access to shared memory
  per step. A load of \<open>head_\<close>, a failing compare-exchange included, and a load of a sequence
  number may return an earlier value: as the values of each only grow, any value up to the
  latest one is allowed, which covers every history. A successful compare-exchange and the
  comparison inside \<open>wait\<close> see the latest store. All four operations are modelled with the
  blocking ones: \<open>std::atomic::wait\<close> compares the value and
  parks the thread in one step, \<open>notify_one\<close> releases one parked thread of the slot (which
  one is not determined), \<open>notify_all\<close> all of them; a released thread compares again.
  \<open>m_pushed\<close> and \<open>m_log\<close> are history: the elements in the order they were made visible, and
  for each finished removal the consumer, the position and the element it returned.
\<close>

section \<open>State\<close>

text \<open>
  Program counters. The flag of a call is \<open>True\<close> in \<open>emplace_wait\<close> and \<open>pop_wait\<close>; \<open>t\<close>,
  \<open>h\<close> and \<open>seq\<close> are the locals of the code.
\<close>

datatype 'a mprod =
  MP_idle
| MP_load_seq bool 'a size_t
| MP_check bool 'a size_t size_t
| MP_wait 'a size_t size_t
| MP_parked 'a size_t size_t
| MP_construct 'a size_t
| MP_store_seq 'a size_t
| MP_store_tail size_t
| MP_notify size_t

datatype 'a mcons =
  MC_idle
| MC_load_seq bool size_t
| MC_check bool size_t size_t
| MC_reload bool
| MC_wait size_t size_t
| MC_parked size_t size_t
| MC_cas bool size_t
| MC_move size_t
| MC_release size_t 'a
| MC_notify size_t 'a

record 'a spmc_sys =
  m_capacity :: size_t
  m_mask :: size_t
  m_slots :: "'a slot list"
  m_head :: size_t
  m_tail :: size_t
  m_prod :: "'a mprod"
  m_cons :: "nat \<Rightarrow> 'a mcons"
  m_pushed :: "'a list"
  m_log :: "(nat \<times> nat \<times> 'a) list"

definition spmc_boot :: "'a spmc \<Rightarrow> 'a spmc_sys" where
  "spmc_boot q = \<lparr>m_capacity = q_capacity q, m_mask = q_mask q, m_slots = q_slots q,
     m_head = q_head q, m_tail = q_tail q, m_prod = MP_idle, m_cons = (\<lambda>_. MC_idle),
     m_pushed = [], m_log = []\<rparr>"

definition spmc_init :: "'a spmc_sys \<Rightarrow> bool" where
  "spmc_init s \<longleftrightarrow> (\<exists>sz can_alloc capacity q. spmc_ctor sz can_alloc capacity = Inr (Some q) \<and> s = spmc_boot q)"

abbreviation slot_ix :: "'a spmc_sys \<Rightarrow> size_t \<Rightarrow> nat" where
  "slot_ix s pos \<equiv> unat (pos AND m_mask s)"

abbreviation slot_seq :: "'a spmc_sys \<Rightarrow> size_t \<Rightarrow> size_t" where
  "slot_seq s pos \<equiv> sl_sequence (m_slots s ! slot_ix s pos)"

definition set_seq :: "size_t \<Rightarrow> size_t \<Rightarrow> 'a spmc_sys \<Rightarrow> 'a spmc_sys" where
  "set_seq pos v s = s\<lparr>m_slots := (m_slots s)[slot_ix s pos := (m_slots s ! slot_ix s pos)\<lparr>sl_sequence := v\<rparr>]\<rparr>"

definition set_storage :: "size_t \<Rightarrow> 'a option \<Rightarrow> 'a spmc_sys \<Rightarrow> 'a spmc_sys" where
  "set_storage pos v s = s\<lparr>m_slots := (m_slots s)[slot_ix s pos := (m_slots s ! slot_ix s pos)\<lparr>sl_storage := v\<rparr>]\<rparr>"

definition set_cons :: "nat \<Rightarrow> 'a mcons \<Rightarrow> 'a spmc_sys \<Rightarrow> 'a spmc_sys" where
  "set_cons i pc s = s\<lparr>m_cons := (m_cons s)(i := pc)\<rparr>"

section \<open>Steps\<close>

text \<open>\<open>notify_all\<close> on the slot with index \<open>j\<close>: every consumer parked on it compares again.\<close>

definition wake_all :: "nat \<Rightarrow> 'a spmc_sys \<Rightarrow> 'a spmc_sys" where
  "wake_all j s = s\<lparr>m_cons := (\<lambda>i. case m_cons s i of
       MC_parked h seq \<Rightarrow> if slot_ix s h = j then MC_wait h seq else MC_parked h seq
     | pc \<Rightarrow> pc)\<rparr>"

text \<open>\<open>notify_one\<close>: one thread parked on the slot, producer or consumer, or nobody if none is.\<close>

inductive wake_one :: "nat \<Rightarrow> 'a spmc_sys \<Rightarrow> 'a spmc_sys \<Rightarrow> bool" where
  wake_prod: "m_prod s = MP_parked x t seq \<Longrightarrow> slot_ix s t = j \<Longrightarrow>
    wake_one j s (s\<lparr>m_prod := MP_wait x t seq\<rparr>)"
| wake_cons: "m_cons s i = MC_parked h seq \<Longrightarrow> slot_ix s h = j \<Longrightarrow>
    wake_one j s (set_cons i (MC_wait h seq) s)"
| wake_none: "(\<And>x t seq. m_prod s = MP_parked x t seq \<Longrightarrow> slot_ix s t \<noteq> j) \<Longrightarrow>
    (\<And>i h seq. m_cons s i = MC_parked h seq \<Longrightarrow> slot_ix s h \<noteq> j) \<Longrightarrow> wake_one j s s"

text \<open>The producer in \<open>try_emplace\<close> (flag \<open>False\<close>) and \<open>emplace_wait\<close> (flag \<open>True\<close>).\<close>

inductive spmc_prod_step :: "'a spmc_sys \<Rightarrow> 'a spmc_sys \<Rightarrow> bool" where
  mp_call: "m_prod s = MP_idle \<Longrightarrow>
    spmc_prod_step s (s\<lparr>m_prod := MP_load_seq b x (m_tail s)\<rparr>)"
| mp_load: "m_prod s = MP_load_seq b x t \<Longrightarrow> seq \<le> slot_seq s t \<Longrightarrow>
    spmc_prod_step s (s\<lparr>m_prod := MP_check b x t seq\<rparr>)"
| mp_full: "m_prod s = MP_check False x t seq \<Longrightarrow> seq \<noteq> t \<Longrightarrow>
    spmc_prod_step s (s\<lparr>m_prod := MP_idle\<rparr>)"
| mp_block: "m_prod s = MP_check True x t seq \<Longrightarrow> seq \<noteq> t \<Longrightarrow>
    spmc_prod_step s (s\<lparr>m_prod := MP_wait x t seq\<rparr>)"
| mp_park: "m_prod s = MP_wait x t seq \<Longrightarrow> slot_seq s t = seq \<Longrightarrow>
    spmc_prod_step s (s\<lparr>m_prod := MP_parked x t seq\<rparr>)"
| mp_resume: "m_prod s = MP_wait x t seq \<Longrightarrow> slot_seq s t \<noteq> seq \<Longrightarrow>
    spmc_prod_step s (s\<lparr>m_prod := MP_load_seq True x t\<rparr>)"
| mp_free: "m_prod s = MP_check b x t seq \<Longrightarrow> seq = t \<Longrightarrow>
    spmc_prod_step s (s\<lparr>m_prod := MP_construct x t\<rparr>)"
| mp_throw: "m_prod s = MP_construct x t \<Longrightarrow>
    spmc_prod_step s (s\<lparr>m_prod := MP_idle\<rparr>)"
| mp_construct: "m_prod s = MP_construct x t \<Longrightarrow>
    spmc_prod_step s ((set_storage t (Some x) s)\<lparr>m_prod := MP_store_seq x t\<rparr>)"
| mp_store_seq: "m_prod s = MP_store_seq x t \<Longrightarrow>
    spmc_prod_step s ((set_seq t (t + 1) s)\<lparr>m_pushed := m_pushed s @ [x], m_prod := MP_store_tail t\<rparr>)"
| mp_store_tail: "m_prod s = MP_store_tail t \<Longrightarrow>
    spmc_prod_step s (s\<lparr>m_tail := t + 1, m_prod := MP_notify t\<rparr>)"
| mp_notify: "m_prod s = MP_notify t \<Longrightarrow>
    spmc_prod_step s ((wake_all (slot_ix s t) s)\<lparr>m_prod := MP_idle\<rparr>)"

text \<open>Consumer \<open>i\<close> in \<open>try_pop\<close> (flag \<open>False\<close>) and \<open>pop_wait\<close> (flag \<open>True\<close>).\<close>

inductive spmc_cons_step :: "nat \<Rightarrow> 'a spmc_sys \<Rightarrow> 'a spmc_sys \<Rightarrow> bool" where
  mc_call: "m_cons s i = MC_idle \<Longrightarrow> h \<le> m_head s \<Longrightarrow>
    spmc_cons_step i s (set_cons i (MC_load_seq b h) s)"
| mc_load: "m_cons s i = MC_load_seq b h \<Longrightarrow> seq \<le> slot_seq s h \<Longrightarrow>
    spmc_cons_step i s (set_cons i (MC_check b h seq) s)"
| mc_ready: "m_cons s i = MC_check b h seq \<Longrightarrow> seq - (h + 1) = 0 \<Longrightarrow>
    spmc_cons_step i s (set_cons i (MC_cas b h) s)"
| mc_empty: "m_cons s i = MC_check False h seq \<Longrightarrow> seq - (h + 1) \<noteq> 0 \<Longrightarrow>
    seq - (h + 1) > (- 1) div 2 \<Longrightarrow>
    spmc_cons_step i s (set_cons i MC_idle s)"
| mc_block: "m_cons s i = MC_check True h seq \<Longrightarrow> seq - (h + 1) \<noteq> 0 \<Longrightarrow>
    seq - (h + 1) > (- 1) div 2 \<Longrightarrow>
    spmc_cons_step i s (set_cons i (MC_wait h seq) s)"
| mc_stale: "m_cons s i = MC_check b h seq \<Longrightarrow> seq - (h + 1) \<noteq> 0 \<Longrightarrow>
    \<not> seq - (h + 1) > (- 1) div 2 \<Longrightarrow>
    spmc_cons_step i s (set_cons i (MC_reload b) s)"
| mc_reload: "m_cons s i = MC_reload b \<Longrightarrow> h \<le> m_head s \<Longrightarrow>
    spmc_cons_step i s (set_cons i (MC_load_seq b h) s)"
| mc_park: "m_cons s i = MC_wait h seq \<Longrightarrow> slot_seq s h = seq \<Longrightarrow>
    spmc_cons_step i s (set_cons i (MC_parked h seq) s)"
| mc_resume: "m_cons s i = MC_wait h seq \<Longrightarrow> slot_seq s h \<noteq> seq \<Longrightarrow>
    spmc_cons_step i s (set_cons i (MC_load_seq True h) s)"
| mc_cas_ok: "m_cons s i = MC_cas b h \<Longrightarrow> m_head s = h \<Longrightarrow>
    spmc_cons_step i s (set_cons i (MC_move h) (s\<lparr>m_head := h + 1\<rparr>))"
| mc_cas_fail: "m_cons s i = MC_cas b h \<Longrightarrow> h' \<le> m_head s \<Longrightarrow>
    spmc_cons_step i s (set_cons i (MC_load_seq b h') s)"
| mc_move: "m_cons s i = MC_move h \<Longrightarrow> sl_storage (m_slots s ! slot_ix s h) = Some v \<Longrightarrow>
    spmc_cons_step i s (set_cons i (MC_release h v) (set_storage h None s))"
| mc_release: "m_cons s i = MC_release h v \<Longrightarrow>
    spmc_cons_step i s (set_cons i (MC_notify h v) (set_seq h (h + m_capacity s) s))"
| mc_notify: "m_cons s i = MC_notify h v \<Longrightarrow> wake_one (slot_ix s h) s s' \<Longrightarrow>
    spmc_cons_step i s (set_cons i MC_idle (s'\<lparr>m_log := m_log s @ [(i, unat h, v)]\<rparr>))"

text \<open>
  A failed \<open>compare_exchange_weak\<close> loads \<open>head_\<close> into \<open>h\<close>; it may fail although \<open>head_\<close>
  equals \<open>h\<close> (rule \<open>mc_cas_fail\<close> has no condition). A parked thread may also be released
  for no reason: that is a step of its own, so that runs with and without such releases can
  be told apart.
\<close>

inductive spurious_wake :: "'a spmc_sys \<Rightarrow> 'a spmc_sys \<Rightarrow> bool" where
  spurious_prod: "m_prod s = MP_parked x t seq \<Longrightarrow> spurious_wake s (s\<lparr>m_prod := MP_wait x t seq\<rparr>)"
| spurious_cons: "m_cons s i = MC_parked h seq \<Longrightarrow> spurious_wake s (set_cons i (MC_wait h seq) s)"

definition spmc_step :: "'a spmc_sys \<Rightarrow> 'a spmc_sys \<Rightarrow> bool" where
  "spmc_step s t \<longleftrightarrow> spmc_prod_step s t \<or> (\<exists>i. spmc_cons_step i s t)"

definition spmc_step_any :: "'a spmc_sys \<Rightarrow> 'a spmc_sys \<Rightarrow> bool" where
  "spmc_step_any s t \<longleftrightarrow> spmc_step s t \<or> spurious_wake s t"

text \<open>The steps of programs in which no consumer gets to \<open>wait\<close>: they call \<open>try_pop\<close> only.\<close>

definition without_pop_wait :: "('a spmc_sys \<Rightarrow> 'a spmc_sys \<Rightarrow> bool) \<Rightarrow> 'a spmc_sys \<Rightarrow> 'a spmc_sys \<Rightarrow> bool" where
  "without_pop_wait step s t \<longleftrightarrow> step s t \<and> (\<forall>i h seq. m_cons t i \<noteq> MC_wait h seq)"

section \<open>What the slots hold\<close>

text \<open>
  \<open>H\<close> and \<open>T\<close> are the numbers of claimed and of visible elements. \<open>hold i\<close> is the position
  consumer \<open>i\<close> has claimed and not yet released, with the element once it has been moved
  out; \<open>pend\<close> is the element the producer has constructed and not yet made visible.
  Position \<open>q\<close> of the next lap is free when the consumer of the lap before has released it.
\<close>

definition free_pos :: "nat \<Rightarrow> nat \<Rightarrow> (nat \<Rightarrow> (nat \<times> 'a option) option) \<Rightarrow> nat \<Rightarrow> bool" where
  "free_pos L H hold q \<longleftrightarrow> q < L \<or> (q - L < H \<and> (\<forall>i r. hold i \<noteq> Some (q - L, r)))"

definition slots_ok ::
  "nat \<Rightarrow> nat \<Rightarrow> 'a list \<Rightarrow> 'a slot list \<Rightarrow> 'a option \<Rightarrow> (nat \<Rightarrow> (nat \<times> 'a option) option) \<Rightarrow> bool" where
  "slots_ok L H pushed sl pend hold \<longleftrightarrow>
     (let T = length pushed; seq = (\<lambda>p. unat (sl_sequence (sl ! (p mod L))));
          stor = (\<lambda>p. sl_storage (sl ! (p mod L))) in
      H \<le> T \<and> T \<le> H + L \<and> length sl = L
      \<and> (\<forall>p. H \<le> p \<longrightarrow> p < T \<longrightarrow> seq p = Suc p \<and> stor p = Some (pushed ! p))
      \<and> (\<forall>i p r. hold i = Some (p, r) \<longrightarrow> p < H \<and> T \<le> p + L \<and> seq p = Suc p
           \<and> (case r of None \<Rightarrow> stor p = Some (pushed ! p) | Some v \<Rightarrow> stor p = None \<and> v = pushed ! p))
      \<and> (\<forall>i j p r r'. hold i = Some (p, r) \<longrightarrow> hold j = Some (p, r') \<longrightarrow> i = j)
      \<and> (\<forall>q. T \<le> q \<longrightarrow> q < T + L \<longrightarrow> free_pos L H hold q \<longrightarrow>
           seq q = q \<and> stor q = (if q = T then pend else None))
      \<and> (pend \<noteq> None \<longrightarrow> free_pos L H hold T))"


text \<open>Two positions whose slots are in use at once are less than a lap apart.\<close>

lemma free_pos_claim: "free_pos L H hold q \<Longrightarrow> H \<le> q \<Longrightarrow> hold i = None \<Longrightarrow>
    free_pos L (Suc H) (hold(i := Some (H, None))) q"
  by (auto simp: free_pos_def)

lemma free_pos_unclaim:
  assumes "free_pos L (Suc H) (hold(i := Some (H, None))) q" and "hold i = None"
  shows "free_pos L H hold q"
proof (cases "q < L")
  case False
  then have "q - L < Suc H" and n: "\<And>j r. (hold(i := Some (H, None))) j \<noteq> Some (q - L, r)"
    using assms(1) by (simp_all add: free_pos_def)
  moreover have "q - L \<noteq> H" using n [of i None] by simp
  moreover have "hold j \<noteq> Some (q - L, r)" for j r
    using n [of j r] assms(2) by (cases "j = i") simp_all
  ultimately show ?thesis by (simp add: free_pos_def)
qed (simp add: free_pos_def)

lemma free_pos_near:
  assumes "free_pos L H hold q" and "H \<le> p \<or> q \<le> p + L \<and> hold j = Some (p, r)"
  shows "q < p + L"
proof (rule ccontr)
  assume far: "\<not> q < p + L"
  then have F: "q - L < H" "hold j \<noteq> Some (q - L, r)" using assms(1) by (simp_all add: free_pos_def)
  with far assms(2) have "q = p + L" "hold j = Some (p, r)" by auto
  with F show False by simp
qed

lemma not_free_pos: "\<not> free_pos L H hold q \<longleftrightarrow> (\<exists>p. q = p + L \<and> (H \<le> p \<or> (\<exists>i r. hold i = Some (p, r))))"
  unfolding free_pos_def by (metis add_diff_cancel_right' le_add2 le_add_diff_inverse2 not_le)

lemma free_pos_upd: "free_pos L H hold q \<Longrightarrow> hold i = Some (p, r) \<Longrightarrow> free_pos L H (hold(i := Some (p, r'))) q"
  by (auto simp: free_pos_def)

lemma free_pos_drop: "free_pos L H hold q \<Longrightarrow> free_pos L H (hold(i := None)) q"
  by (auto simp: free_pos_def)

lemma slots_okI:
  assumes "H \<le> length pushed" "length pushed \<le> H + L" "length sl = L"
    and "\<And>p. H \<le> p \<Longrightarrow> p < length pushed \<Longrightarrow>
      unat (sl_sequence (sl ! (p mod L))) = Suc p \<and> sl_storage (sl ! (p mod L)) = Some (pushed ! p)"
    and "\<And>i p r. hold i = Some (p, r) \<Longrightarrow> p < H \<and> length pushed \<le> p + L
      \<and> unat (sl_sequence (sl ! (p mod L))) = Suc p
      \<and> (case r of None \<Rightarrow> sl_storage (sl ! (p mod L)) = Some (pushed ! p)
         | Some v \<Rightarrow> sl_storage (sl ! (p mod L)) = None \<and> v = pushed ! p)"
    and "\<And>i j p r r'. hold i = Some (p, r) \<Longrightarrow> hold j = Some (p, r') \<Longrightarrow> i = j"
    and "\<And>q. length pushed \<le> q \<Longrightarrow> q < length pushed + L \<Longrightarrow> free_pos L H hold q \<Longrightarrow>
      unat (sl_sequence (sl ! (q mod L))) = q
      \<and> sl_storage (sl ! (q mod L)) = (if q = length pushed then pend else None)"
    and "pend \<noteq> None \<Longrightarrow> free_pos L H hold (length pushed)"
  shows "slots_ok L H pushed sl pend hold"
  unfolding slots_ok_def Let_def using assms by blast

lemma slots_okD:
  assumes "slots_ok L H pushed sl pend hold"
  shows "H \<le> length pushed" "length pushed \<le> H + L" "length sl = L"
    and "\<And>p. H \<le> p \<Longrightarrow> p < length pushed \<Longrightarrow>
      unat (sl_sequence (sl ! (p mod L))) = Suc p \<and> sl_storage (sl ! (p mod L)) = Some (pushed ! p)"
    and "\<And>i p r. hold i = Some (p, r) \<Longrightarrow> p < H \<and> length pushed \<le> p + L
      \<and> unat (sl_sequence (sl ! (p mod L))) = Suc p
      \<and> (case r of None \<Rightarrow> sl_storage (sl ! (p mod L)) = Some (pushed ! p)
         | Some v \<Rightarrow> sl_storage (sl ! (p mod L)) = None \<and> v = pushed ! p)"
    and "\<And>i j p r r'. hold i = Some (p, r) \<Longrightarrow> hold j = Some (p, r') \<Longrightarrow> i = j"
    and "\<And>q. length pushed \<le> q \<Longrightarrow> q < length pushed + L \<Longrightarrow> free_pos L H hold q \<Longrightarrow>
      unat (sl_sequence (sl ! (q mod L))) = q
      \<and> sl_storage (sl ! (q mod L)) = (if q = length pushed then pend else None)"
    and "pend \<noteq> None \<Longrightarrow> free_pos L H hold (length pushed)"
  using assms unfolding slots_ok_def Let_def by blast+

text \<open>The sequence number a thread reads tells what it may do.\<close>

lemma slots_seq_free:
  assumes "slots_ok L H pushed sl pend hold" and "2 \<le> L"
  shows "unat (sl_sequence (sl ! (length pushed mod L))) = length pushed \<longleftrightarrow> free_pos L H hold (length pushed)"
proof
  assume e: "unat (sl_sequence (sl ! (length pushed mod L))) = length pushed"
  show "free_pos L H hold (length pushed)"
  proof (rule ccontr)
    assume "\<not> free_pos L H hold (length pushed)"
    then obtain p where p: "length pushed = p + L" "H \<le> p \<or> (\<exists>i r. hold i = Some (p, r))"
      unfolding not_free_pos by blast
    then have "unat (sl_sequence (sl ! (p mod L))) = Suc p"
      using slots_okD(4,5) [OF assms(1)] assms(2) by auto
    with e p assms(2) show False by simp
  qed
next
  assume "free_pos L H hold (length pushed)"
  with slots_okD(7) [OF assms(1), of "length pushed"] assms(2)
  show "unat (sl_sequence (sl ! (length pushed mod L))) = length pushed" by simp
qed

lemma slots_seq_top:
  assumes "slots_ok L H pushed sl pend hold" and "2 \<le> L"
  shows "unat (sl_sequence (sl ! (length pushed mod L))) \<le> length pushed"
proof (cases "free_pos L H hold (length pushed)")
  case True
  then show ?thesis using slots_seq_free [OF assms] by simp
next
  case False
  then obtain p where p: "length pushed = p + L" "H \<le> p \<or> (\<exists>i r. hold i = Some (p, r))"
    unfolding not_free_pos by blast
  then have "unat (sl_sequence (sl ! (p mod L))) = Suc p"
    using slots_okD(4,5) [OF assms(1)] assms(2) by auto
  with p assms(2) show ?thesis by simp
qed

text \<open>A position is behind its slot, or not, according to what has become of it.\<close>

lemma slots_seq_bounds:
  assumes "slots_ok L H pushed sl pend hold" and "2 \<le> L" and "h \<le> H"
  shows "(h < length pushed \<longrightarrow> h < unat (sl_sequence (sl ! (h mod L))))
    \<and> (h = length pushed \<longrightarrow> unat (sl_sequence (sl ! (h mod L))) \<le> h)
    \<and> unat (sl_sequence (sl ! (h mod L))) < length pushed + L"
proof -
  let ?T = "length pushed"
  note D = slots_okD [OF assms(1)]
  \<comment> \<open>the position of the current lap that shares the slot of \<open>h\<close>\<close>
  define k where "k = (?T - h + (L - 1)) div L"
  define q where "q = h + k * L"
  have q: "q mod L = h mod L" "h \<le> q" by (simp_all add: q_def)
  have "?T \<le> q \<and> q < ?T + L"
  proof -
    have "k * L \<le> ?T - h + (L - 1)" by (simp add: k_def)
    moreover have "?T - h + (L - 1) < Suc k * L"
      using assms(2) unfolding k_def by (simp add: dividend_less_times_div mult.commute add.commute)
    ultimately show ?thesis using assms(2,3) D(1) by (auto simp: q_def)
  qed
  show ?thesis
  proof (cases "free_pos L H hold q")
    case True
    then have "unat (sl_sequence (sl ! (h mod L))) = q"
      using D(7) [of q] \<open>?T \<le> q \<and> q < ?T + L\<close> q by simp
    moreover have "h = q" if "h = ?T"
      using that \<open>?T \<le> q \<and> q < ?T + L\<close> mod_lap_neq [of h q L] q by (cases "h = q") auto
    ultimately show ?thesis using \<open>?T \<le> q \<and> q < ?T + L\<close> q by auto
  next
    case False
    then obtain p where p: "q = p + L" "H \<le> p \<or> (\<exists>i r. hold i = Some (p, r))"
      unfolding not_free_pos by blast
    have "p < ?T" "?T \<le> p + L" using \<open>?T \<le> q \<and> q < ?T + L\<close> p by simp_all
    then have "unat (sl_sequence (sl ! (h mod L))) = Suc p"
      using D(4) [of p] D(5) [of _ p] p q by auto
    moreover have "h \<le> p" if "h < ?T"
    proof (rule ccontr)
      assume "\<not> h \<le> p"
      then have "p < h" "h < p + L" using that \<open>?T \<le> p + L\<close> by simp_all
      from mod_lap_neq [OF this] show False using p q by simp
    qed
    ultimately show ?thesis using \<open>p < ?T\<close> assms(2) by auto
  qed
qed

text \<open>The five changes the threads make to the slots.\<close>

lemma slots_claim:
  assumes "slots_ok L H pushed sl pend hold" and "H < length pushed" and "hold i = None"
  shows "slots_ok L (Suc H) pushed sl pend (hold(i := Some (H, None)))"
proof -
  note D = slots_okD [OF assms(1)]
  have free_before: "free_pos L H hold q" if "free_pos L (Suc H) (hold(i := Some (H, None))) q" for q
    using that assms(3) by (rule free_pos_unclaim)
  show ?thesis
  proof (rule slots_okI)
    show "Suc H \<le> length pushed" "length pushed \<le> Suc H + L" "length sl = L"
      using D(1-3) assms(2) by simp_all
    show "unat (sl_sequence (sl ! (p mod L))) = Suc p \<and> sl_storage (sl ! (p mod L)) = Some (pushed ! p)"
      if "Suc H \<le> p" "p < length pushed" for p using D(4) that by simp
    show "p < Suc H \<and> length pushed \<le> p + L \<and> unat (sl_sequence (sl ! (p mod L))) = Suc p
      \<and> (case r of None \<Rightarrow> sl_storage (sl ! (p mod L)) = Some (pushed ! p)
         | Some v \<Rightarrow> sl_storage (sl ! (p mod L)) = None \<and> v = pushed ! p)"
      if "(hold(i := Some (H, None))) j = Some (p, r)" for j p r
      using that D(2) D(4) [of H] D(5) [of j p r] assms(2) by (auto split: if_splits option.splits)
    show "j = k" if "(hold(i := Some (H, None))) j = Some (p, r)" "(hold(i := Some (H, None))) k = Some (p, r')"
      for j k p r r' using that D(5,6) by (fastforce split: if_splits)
    show "unat (sl_sequence (sl ! (q mod L))) = q
      \<and> sl_storage (sl ! (q mod L)) = (if q = length pushed then pend else None)"
      if "length pushed \<le> q" "q < length pushed + L" "free_pos L (Suc H) (hold(i := Some (H, None))) q" for q
      using D(7) [OF that(1,2) free_before [OF that(3)]] .
    show "free_pos L (Suc H) (hold(i := Some (H, None))) (length pushed)" if "pend \<noteq> None"
      using free_pos_claim [OF D(8) [OF that] D(1) assms(3)] .
  qed
qed

lemma lap_update:
  assumes "length sl = L" and "0 < L" and "p < q + L" and "q < p + L"
  shows "sl[p mod L := s] ! (q mod L) = (if q = p then s else sl ! (q mod L))"
  using mod_lap_eq_iff [of q p L] assms by (auto simp: nth_list_update)

lemma slots_move:
  assumes ok: "slots_ok L H pushed sl pend hold" and h: "hold i = Some (p, None)" and "0 < L"
  shows "slots_ok L H pushed (sl[p mod L := (sl ! (p mod L))\<lparr>sl_storage := None\<rparr>]) pend
    (hold(i := Some (p, Some (pushed ! p))))"
proof -
  note D = slots_okD [OF ok]
  let ?s = "(sl ! (p mod L))\<lparr>sl_storage := None\<rparr>"
  have p: "p < H" "length pushed \<le> p + L" "unat (sl_sequence (sl ! (p mod L))) = Suc p"
    using D(5) [OF h] by simp_all
  note upd = lap_update [OF D(3) \<open>0 < L\<close>, of p _ ?s]
  show ?thesis
  proof (rule slots_okI)
    show "H \<le> length pushed" "length pushed \<le> H + L" "length (sl[p mod L := ?s]) = L"
      using D(1-3) by simp_all
    show "unat (sl_sequence (sl[p mod L := ?s] ! (q mod L))) = Suc q
      \<and> sl_storage (sl[p mod L := ?s] ! (q mod L)) = Some (pushed ! q)"
      if "H \<le> q" "q < length pushed" for q using D(4) [OF that] upd [of q] p that by simp
    show "q < H \<and> length pushed \<le> q + L \<and> unat (sl_sequence (sl[p mod L := ?s] ! (q mod L))) = Suc q
      \<and> (case r of None \<Rightarrow> sl_storage (sl[p mod L := ?s] ! (q mod L)) = Some (pushed ! q)
         | Some v \<Rightarrow> sl_storage (sl[p mod L := ?s] ! (q mod L)) = None \<and> v = pushed ! q)"
      if j: "(hold(i := Some (p, Some (pushed ! p)))) j = Some (q, r)" for j q r
    proof (cases "j = i")
      case True
      with j p upd [of p] \<open>0 < L\<close> show ?thesis by auto
    next
      case False
      then have "hold j = Some (q, r)" "q \<noteq> p" using j D(6) [OF h] by auto
      with D(5) [of j q r] D(1) p upd [of q] show ?thesis by (cases r) simp_all
    qed
    show "j = k" if "(hold(i := Some (p, Some (pushed ! p)))) j = Some (q, r)"
      "(hold(i := Some (p, Some (pushed ! p)))) k = Some (q, r')" for j k q r r'
      using that D(6) [OF h] D(6) [of j q r k r'] by (auto split: if_splits)
    show "unat (sl_sequence (sl[p mod L := ?s] ! (q mod L))) = q
      \<and> sl_storage (sl[p mod L := ?s] ! (q mod L)) = (if q = length pushed then pend else None)"
      if q: "length pushed \<le> q" "q < length pushed + L"
        "free_pos L H (hold(i := Some (p, Some (pushed ! p)))) q" for q
    proof -
      have "q \<noteq> p + L" using free_pos_near [OF q(3), of p i] by auto
      then have "p mod L \<noteq> q mod L"
        using mod_lap_neq [of p q L] mod_lap_neq [of "p + L" q L] q D(1) p by (cases "q < p + L") auto
      moreover have "free_pos L H hold q"
        using free_pos_upd [OF q(3), of i p "Some (pushed ! p)" None] h by (simp add: fun_upd_idem)
      ultimately show ?thesis using D(7) [OF q(1,2)] by simp
    qed
    show "free_pos L H (hold(i := Some (p, Some (pushed ! p)))) (length pushed)" if "pend \<noteq> None"
      using free_pos_upd [OF D(8) [OF that] h] .
  qed
qed

lemma slots_release:
  assumes ok: "slots_ok L H pushed sl pend hold" and h: "hold i = Some (p, Some v)" and "0 < L"
    and w: "unat w = p + L"
  shows "slots_ok L H pushed (sl[p mod L := (sl ! (p mod L))\<lparr>sl_sequence := w\<rparr>]) pend (hold(i := None))"
proof -
  note D = slots_okD [OF ok]
  let ?s = "(sl ! (p mod L))\<lparr>sl_sequence := w\<rparr>"
  have p: "p < H" "length pushed \<le> p + L" "sl_storage (sl ! (p mod L)) = None"
    using D(5) [OF h] by simp_all
  note upd = lap_update [OF D(3) \<open>0 < L\<close>, of p _ ?s]
  show ?thesis
  proof (rule slots_okI)
    show "H \<le> length pushed" "length pushed \<le> H + L" "length (sl[p mod L := ?s]) = L"
      using D(1-3) by simp_all
    show "unat (sl_sequence (sl[p mod L := ?s] ! (q mod L))) = Suc q
      \<and> sl_storage (sl[p mod L := ?s] ! (q mod L)) = Some (pushed ! q)"
      if "H \<le> q" "q < length pushed" for q using D(4) [OF that] upd [of q] p that by simp
    show "q < H \<and> length pushed \<le> q + L \<and> unat (sl_sequence (sl[p mod L := ?s] ! (q mod L))) = Suc q
      \<and> (case r of None \<Rightarrow> sl_storage (sl[p mod L := ?s] ! (q mod L)) = Some (pushed ! q)
         | Some v \<Rightarrow> sl_storage (sl[p mod L := ?s] ! (q mod L)) = None \<and> v = pushed ! q)"
      if "(hold(i := None)) j = Some (q, r)" for j q r
    proof -
      have "j \<noteq> i" "hold j = Some (q, r)" using that by (auto split: if_splits)
      moreover from this have "q \<noteq> p" using D(6) [OF h] by auto
      ultimately show ?thesis using D(5) [of j q r] D(1) p upd [of q] by (cases r) simp_all
    qed
    show "j = k" if "(hold(i := None)) j = Some (q, r)" "(hold(i := None)) k = Some (q, r')" for j k q r r'
      using that D(6) [of j q r k r'] by (auto split: if_splits)
    show "unat (sl_sequence (sl[p mod L := ?s] ! (q mod L))) = q
      \<and> sl_storage (sl[p mod L := ?s] ! (q mod L)) = (if q = length pushed then pend else None)"
      if q: "length pushed \<le> q" "q < length pushed + L" "free_pos L H (hold(i := None)) q" for q
    proof (cases "q = p + L")
      case True
      have "pend = None" if "q = length pushed"
        using D(8) h that True p by (fastforce simp: free_pos_def)
      with True show ?thesis using p w D(3) \<open>0 < L\<close> by auto
    next
      case False
      then have "p mod L \<noteq> q mod L"
        using mod_lap_neq [of p q L] mod_lap_neq [of "p + L" q L] q D(1) p by (cases "q < p + L") auto
      moreover have "free_pos L H hold q"
        using q(3) False h unfolding free_pos_def
        by (metis fun_upd_apply le_add_diff_inverse2 not_le option.inject prod.inject)
      ultimately show ?thesis using D(7) [OF q(1,2)] by simp
    qed
    show "free_pos L H (hold(i := None)) (length pushed)" if "pend \<noteq> None"
      using free_pos_drop [OF D(8) [OF that]] .
  qed
qed

lemma slots_construct:
  assumes ok: "slots_ok L H pushed sl None hold" and free: "free_pos L H hold (length pushed)" and "0 < L"
  shows "slots_ok L H pushed (sl[length pushed mod L := (sl ! (length pushed mod L))\<lparr>sl_storage := Some x\<rparr>])
    (Some x) hold"
proof -
  note D = slots_okD [OF ok]
  let ?T = "length pushed"
  let ?s = "(sl ! (?T mod L))\<lparr>sl_storage := Some x\<rparr>"
  note upd = lap_update [OF D(3) \<open>0 < L\<close>, of ?T _ ?s]
  have near: "?T < q + L" if "H \<le> q \<or> hold j = Some (q, r)" for j q r
    using free_pos_near [OF free, of q j r] that D(5) [of j q r] by blast
  show ?thesis
  proof (rule slots_okI)
    show "H \<le> length pushed" "length pushed \<le> H + L" "length (sl[?T mod L := ?s]) = L"
      using D(1-3) by simp_all
    show "unat (sl_sequence (sl[?T mod L := ?s] ! (q mod L))) = Suc q
      \<and> sl_storage (sl[?T mod L := ?s] ! (q mod L)) = Some (pushed ! q)"
      if "H \<le> q" "q < length pushed" for q using D(4) [OF that] upd [of q] near [of q] that by simp
    show "q < H \<and> length pushed \<le> q + L \<and> unat (sl_sequence (sl[?T mod L := ?s] ! (q mod L))) = Suc q
      \<and> (case r of None \<Rightarrow> sl_storage (sl[?T mod L := ?s] ! (q mod L)) = Some (pushed ! q)
         | Some v \<Rightarrow> sl_storage (sl[?T mod L := ?s] ! (q mod L)) = None \<and> v = pushed ! q)"
      if "hold j = Some (q, r)" for j q r
      using D(5) [OF that] upd [of q] near [of q j r] that D(1) by (cases r) simp_all
    show "j = k" if "hold j = Some (q, r)" "hold k = Some (q, r')" for j k q r r'
      using that by (rule D(6))
    show "unat (sl_sequence (sl[?T mod L := ?s] ! (q mod L))) = q
      \<and> sl_storage (sl[?T mod L := ?s] ! (q mod L)) = (if q = length pushed then Some x else None)"
      if "length pushed \<le> q" "q < length pushed + L" "free_pos L H hold q" for q
      using D(7) [OF that] upd [of q] that \<open>0 < L\<close> by (auto split: if_splits)
    show "free_pos L H hold (length pushed)" by (rule free)
  qed
qed

lemma slots_publish:
  assumes ok: "slots_ok L H pushed sl (Some x) hold" and "0 < L" and w: "unat w = Suc (length pushed)"
  shows "slots_ok L H (pushed @ [x])
    (sl[length pushed mod L := (sl ! (length pushed mod L))\<lparr>sl_sequence := w\<rparr>]) None hold"
proof -
  note D = slots_okD [OF ok]
  let ?T = "length pushed"
  let ?s = "(sl ! (?T mod L))\<lparr>sl_sequence := w\<rparr>"
  note upd = lap_update [OF D(3) \<open>0 < L\<close>, of ?T _ ?s]
  have free: "free_pos L H hold ?T" using D(8) by simp
  have near: "?T < q + L" if "H \<le> q \<or> hold j = Some (q, r)" for j q r
    using free_pos_near [OF free, of q j r] that D(5) [of j q r] by blast
  have stor: "sl_storage (sl ! (?T mod L)) = Some x"
    using D(7) [of ?T] free \<open>0 < L\<close> by simp
  show ?thesis
  proof (rule slots_okI)
    show "H \<le> length (pushed @ [x])" "length (pushed @ [x]) \<le> H + L" "length (sl[?T mod L := ?s]) = L"
      using D(1-3) near [of H] by simp_all
    show "unat (sl_sequence (sl[?T mod L := ?s] ! (q mod L))) = Suc q
      \<and> sl_storage (sl[?T mod L := ?s] ! (q mod L)) = Some ((pushed @ [x]) ! q)"
      if "H \<le> q" "q < length (pushed @ [x])" for q
    proof (cases "q = ?T")
      case True
      then show ?thesis using upd [of q] stor w \<open>0 < L\<close> by simp
    next
      case False
      then show ?thesis using D(4) [of q] upd [of q] near [of q] that by (simp add: nth_append)
    qed
    show "q < H \<and> length (pushed @ [x]) \<le> q + L \<and> unat (sl_sequence (sl[?T mod L := ?s] ! (q mod L))) = Suc q
      \<and> (case r of None \<Rightarrow> sl_storage (sl[?T mod L := ?s] ! (q mod L)) = Some ((pushed @ [x]) ! q)
         | Some v \<Rightarrow> sl_storage (sl[?T mod L := ?s] ! (q mod L)) = None \<and> v = (pushed @ [x]) ! q)"
      if "hold j = Some (q, r)" for j q r
      using D(5) [OF that] upd [of q] near [of q j r] that D(1) by (cases r) (simp_all add: nth_append)
    show "j = k" if "hold j = Some (q, r)" "hold k = Some (q, r')" for j k q r r'
      using that by (rule D(6))
    show "unat (sl_sequence (sl[?T mod L := ?s] ! (q mod L))) = q
      \<and> sl_storage (sl[?T mod L := ?s] ! (q mod L)) = (if q = length (pushed @ [x]) then None else None)"
      if q: "length (pushed @ [x]) \<le> q" "q < length (pushed @ [x]) + L" "free_pos L H hold q" for q
    proof -
      have "q \<noteq> ?T + L" using q(3) D(1) by (auto simp: free_pos_def)
      then show ?thesis using D(7) [of q] upd [of q] q by simp
    qed
    show "free_pos L H hold (length (pushed @ [x]))" if "(None :: 'a option) \<noteq> None" using that by simp
  qed
qed

section \<open>What has been delivered\<close>

text \<open>
  \<open>taken i\<close> is the position of the element consumer \<open>i\<close> has claimed and not yet returned.
  Every claimed position is with exactly one consumer or exactly once in the log.
\<close>

definition ledger_ok ::
  "nat \<Rightarrow> 'a list \<Rightarrow> (nat \<Rightarrow> nat option) \<Rightarrow> (nat \<times> nat \<times> 'a) list \<Rightarrow> bool" where
  "ledger_ok H pushed taken log \<longleftrightarrow>
     distinct (map (fst \<circ> snd) log)
     \<and> (\<forall>i p v. (i, p, v) \<in> set log \<longrightarrow> p < H \<and> v = pushed ! p \<and> (\<forall>j. taken j \<noteq> Some p))
     \<and> (\<forall>i p. taken i = Some p \<longrightarrow> p < H)
     \<and> (\<forall>i j p. taken i = Some p \<longrightarrow> taken j = Some p \<longrightarrow> i = j)
     \<and> (\<forall>p < H. p \<in> set (map (fst \<circ> snd) log) \<or> (\<exists>i. taken i = Some p))
     \<and> (\<forall>i. sorted_wrt (<) (map (fst \<circ> snd) (filter (\<lambda>e. fst e = i) log)))
     \<and> (\<forall>i p q v. (i, p, v) \<in> set log \<longrightarrow> taken i = Some q \<longrightarrow> p < q)"

lemma ledger_claim:
  assumes "ledger_ok H pushed taken log" and "taken i = None"
  shows "ledger_ok (Suc H) pushed (taken(i := Some H)) log"
proof -
  have cover: "\<forall>p < Suc H. p \<in> set (map (fst \<circ> snd) log) \<or> (\<exists>j. (taken(i := Some H)) j = Some p)"
  proof (intro allI impI)
    fix p assume "p < Suc H"
    show "p \<in> set (map (fst \<circ> snd) log) \<or> (\<exists>j. (taken(i := Some H)) j = Some p)"
    proof (cases "p = H")
      case True
      then show ?thesis by (intro disjI2 exI [of _ i]) simp
    next
      case False
      with \<open>p < Suc H\<close> assms have "p \<in> set (map (fst \<circ> snd) log) \<or> (\<exists>j. taken j = Some p)"
        unfolding ledger_ok_def by (meson less_SucE)
      with assms(2) show ?thesis by (metis fun_upd_other option.distinct(1))
    qed
  qed
  show ?thesis
    unfolding ledger_ok_def
    using assms cover by (intro conjI) (auto simp: ledger_ok_def less_Suc_eq)
qed

lemma ledger_log:
  assumes "ledger_ok H pushed taken log" and "taken i = Some p" and "v = pushed ! p"
  shows "ledger_ok H pushed (taken(i := None)) (log @ [(i, p, v)])"
proof -
  have "p \<notin> (fst \<circ> snd) ` set log" using assms unfolding ledger_ok_def by force
  moreover have "taken j \<noteq> Some p" if "j \<noteq> i" for j using assms that unfolding ledger_ok_def by metis
  moreover have "q \<in> insert p ((fst \<circ> snd) ` set log) \<or> (\<exists>j. (taken(i := None)) j = Some q)" if "q < H" for q
    using assms that unfolding ledger_ok_def by (metis fun_upd_apply insertCI list.set_map option.inject)
  ultimately show ?thesis
    using assms unfolding ledger_ok_def by (auto simp: sorted_wrt_append)
qed

lemma ledger_push:
  assumes "ledger_ok H pushed taken log" and "H \<le> length pushed"
  shows "ledger_ok H (pushed @ [x]) taken log"
  using assms unfolding ledger_ok_def by (fastforce simp: nth_append)

section \<open>The invariant\<close>

fun hold_of :: "'a mcons \<Rightarrow> (nat \<times> 'a option) option" where
  "hold_of (MC_move h) = Some (unat h, None)"
| "hold_of (MC_release h v) = Some (unat h, Some v)"
| "hold_of _ = None"

fun taken_of :: "'a mcons \<Rightarrow> nat option" where
  "taken_of (MC_move h) = Some (unat h)"
| "taken_of (MC_release h v) = Some (unat h)"
| "taken_of (MC_notify h v) = Some (unat h)"
| "taken_of _ = None"

fun pend_of :: "'a mprod \<Rightarrow> 'a option" where
  "pend_of (MP_store_seq x t) = Some x"
| "pend_of _ = None"

text \<open>\<open>T\<close>, \<open>free\<close> and \<open>tail\<close>: how many elements are visible, whether position \<open>T\<close> is free, \<open>tail_\<close>.\<close>

fun mprod_ok :: "nat \<Rightarrow> bool \<Rightarrow> size_t \<Rightarrow> 'a mprod \<Rightarrow> bool" where
  "mprod_ok T free tail MP_idle \<longleftrightarrow> unat tail = T"
| "mprod_ok T free tail (MP_load_seq b x t) \<longleftrightarrow> unat tail = T \<and> t = tail"
| "mprod_ok T free tail (MP_check b x t seq) \<longleftrightarrow> unat tail = T \<and> t = tail \<and> (seq = t \<longrightarrow> free)"
| "mprod_ok T free tail (MP_wait x t seq) \<longleftrightarrow> unat tail = T \<and> t = tail"
| "mprod_ok T free tail (MP_parked x t seq) \<longleftrightarrow> unat tail = T \<and> t = tail"
| "mprod_ok T free tail (MP_construct x t) \<longleftrightarrow> unat tail = T \<and> t = tail \<and> free"
| "mprod_ok T free tail (MP_store_seq x t) \<longleftrightarrow> unat tail = T \<and> t = tail"
| "mprod_ok T free tail (MP_store_tail t) \<longleftrightarrow> Suc (unat tail) = T \<and> t = tail"
| "mprod_ok T free tail (MP_notify t) \<longleftrightarrow> unat tail = T"

fun mcons_ok :: "nat \<Rightarrow> 'a list \<Rightarrow> 'a mcons \<Rightarrow> bool" where
  "mcons_ok H pushed MC_idle \<longleftrightarrow> True"
| "mcons_ok H pushed (MC_reload b) \<longleftrightarrow> True"
| "mcons_ok H pushed (MC_load_seq b h) \<longleftrightarrow> unat h \<le> H"
| "mcons_ok H pushed (MC_check b h seq) \<longleftrightarrow> unat h \<le> H \<and> (seq = h + 1 \<longrightarrow> unat h < length pushed)"
| "mcons_ok H pushed (MC_wait h seq) \<longleftrightarrow> unat h \<le> H"
| "mcons_ok H pushed (MC_parked h seq) \<longleftrightarrow> unat h \<le> H"
| "mcons_ok H pushed (MC_cas b h) \<longleftrightarrow> unat h \<le> H \<and> unat h < length pushed"
| "mcons_ok H pushed (MC_move h) \<longleftrightarrow> unat h < H"
| "mcons_ok H pushed (MC_release h v) \<longleftrightarrow> unat h < H"
| "mcons_ok H pushed (MC_notify h v) \<longleftrightarrow> unat h < H \<and> v = pushed ! unat h"

definition holds :: "(nat \<Rightarrow> 'a mcons) \<Rightarrow> nat \<Rightarrow> (nat \<times> 'a option) option" where
  "holds c = (\<lambda>i. hold_of (c i))"

definition takes :: "(nat \<Rightarrow> 'a mcons) \<Rightarrow> nat \<Rightarrow> nat option" where
  "takes c = (\<lambda>i. taken_of (c i))"

definition m_free :: "'a spmc_sys \<Rightarrow> bool" where
  "m_free s \<longleftrightarrow> free_pos (unat (m_capacity s)) (unat (m_head s)) (holds (m_cons s)) (length (m_pushed s))"

definition spmc_sys_inv :: "'a spmc_sys \<Rightarrow> bool" where
  "spmc_sys_inv s \<longleftrightarrow> is_pow2 (m_capacity s) \<and> 2 \<le> unat (m_capacity s) \<and> m_mask s = m_capacity s - 1
     \<and> length (m_pushed s) < 2 ^ 63
     \<and> slots_ok (unat (m_capacity s)) (unat (m_head s)) (m_pushed s) (m_slots s) (pend_of (m_prod s)) (holds (m_cons s))
     \<and> ledger_ok (unat (m_head s)) (m_pushed s) (takes (m_cons s)) (m_log s)
     \<and> mprod_ok (length (m_pushed s)) (m_free s) (m_tail s) (m_prod s)
     \<and> (\<forall>i. mcons_ok (unat (m_head s)) (m_pushed s) (m_cons s i))"

lemma mcons_ok_mono: "mcons_ok H pushed pc \<Longrightarrow> H \<le> length pushed \<Longrightarrow> H \<le> H' \<Longrightarrow> mcons_ok H' (pushed @ ys) pc"
  by (cases pc) (auto simp: nth_append)

lemma mcons_ok_claim: "mcons_ok H pushed pc \<Longrightarrow> H \<le> length pushed \<Longrightarrow> mcons_ok (Suc H) pushed pc"
  using mcons_ok_mono [of H pushed pc "Suc H" "[]"] by simp

lemma mprod_ok_free: "mprod_ok T free tail pc \<Longrightarrow> (free \<Longrightarrow> free') \<Longrightarrow> mprod_ok T free' tail pc"
  by (cases pc) auto

lemma holds_upd [simp]: "holds (c(i := pc)) = (holds c)(i := hold_of pc)"
  by (auto simp: holds_def)

lemma takes_upd [simp]: "takes (c(i := pc)) = (takes c)(i := taken_of pc)"
  by (auto simp: takes_def)

lemma slot_ix_mod: "is_pow2 (m_capacity s) \<Longrightarrow> m_mask s = m_capacity s - 1 \<Longrightarrow>
    slot_ix s pos = unat pos mod unat (m_capacity s)"
  by (simp add: unat_and_cap)

text \<open>The initial state.\<close>

lemma spmc_sys_inv_init:
  assumes "spmc_init s"
  shows "spmc_sys_inv s"
proof -
  obtain sz can_alloc capacity q where c: "spmc_ctor sz can_alloc capacity = Inr (Some q)" and s: "s = spmc_boot q"
    using assms by (auto simp: spmc_init_def)
  obtain cap where r: "spmc_check_and_round_capacity capacity = Inr cap"
    and q: "q = \<lparr>q_capacity = cap, q_mask = cap - 1,
        q_slots = map (\<lambda>i. \<lparr>sl_sequence = word_of_nat i, sl_storage = None\<rparr>) [0..<unat cap],
        q_head = 0, q_tail = 0\<rparr>"
    using c by (rule spmc_ctor_built)
  have cap: "is_pow2 cap" "2 \<le> unat cap"
    using spmc_cap.accepted_pow2 [OF r] spmc_cap.accepted_bounds(1) [OF r] by simp_all
  have "unat (word_of_nat p :: size_t) = p" if "p < unat cap" for p
    using that is_pow2_le [OF cap(1)] by (simp add: unat_of_nat)
  then have "slots_ok (unat cap) 0 [] (q_slots q) None (holds (m_cons s))"
    using cap by (intro slots_okI) (auto simp: q s spmc_boot_def holds_def free_pos_def)
  moreover have "ledger_ok 0 [] (takes (m_cons s)) []" by (simp add: ledger_ok_def takes_def s spmc_boot_def)
  ultimately show ?thesis using cap by (simp add: spmc_sys_inv_def s spmc_boot_def q)
qed

text \<open>The producer keeps the invariant.\<close>

lemma wake_all_simps [simp]:
  "m_capacity (wake_all j s) = m_capacity s" "m_mask (wake_all j s) = m_mask s"
  "m_slots (wake_all j s) = m_slots s" "m_head (wake_all j s) = m_head s" "m_tail (wake_all j s) = m_tail s"
  "m_prod (wake_all j s) = m_prod s" "m_pushed (wake_all j s) = m_pushed s" "m_log (wake_all j s) = m_log s"
  "holds (m_cons (wake_all j s)) = holds (m_cons s)" "takes (m_cons (wake_all j s)) = takes (m_cons s)"
  "mcons_ok H xs (m_cons (wake_all j s) i) = mcons_ok H xs (m_cons s i)"
  by (auto simp: wake_all_def holds_def takes_def fun_eq_iff split: mcons.splits)

lemma spmc_sys_invD:
  assumes "spmc_sys_inv s"
  shows "is_pow2 (m_capacity s)" "2 \<le> unat (m_capacity s)" "m_mask s = m_capacity s - 1"
    "length (m_pushed s) < 2 ^ 63"
    "slots_ok (unat (m_capacity s)) (unat (m_head s)) (m_pushed s) (m_slots s) (pend_of (m_prod s)) (holds (m_cons s))"
    "ledger_ok (unat (m_head s)) (m_pushed s) (takes (m_cons s)) (m_log s)"
    "mprod_ok (length (m_pushed s)) (m_free s) (m_tail s) (m_prod s)"
    "mcons_ok (unat (m_head s)) (m_pushed s) (m_cons s i)"
    "unat (m_head s) \<le> length (m_pushed s)"
    "slot_ix s pos = unat pos mod unat (m_capacity s)"
  using assms slots_okD(1) [of "unat (m_capacity s)" "unat (m_head s)" "m_pushed s"] slot_ix_mod [of s pos]
  by (auto simp: spmc_sys_inv_def)

lemma spmc_sys_inv_prod:
  assumes inv: "spmc_sys_inv s" and "pend_of pc = pend_of (m_prod s)"
    and "mprod_ok (length (m_pushed s)) (m_free s) tail pc"
  shows "spmc_sys_inv (s\<lparr>m_tail := tail, m_prod := pc\<rparr>)"
  using assms by (simp add: spmc_sys_inv_def m_free_def)

lemma spmc_prod_keeps_inv:
  assumes step: "spmc_prod_step s t" and inv: "spmc_sys_inv s" and bound: "length (m_pushed t) < 2 ^ 63"
  shows "spmc_sys_inv t"
proof -
  note I = spmc_sys_invD [OF inv]
  have same: "spmc_sys_inv (s\<lparr>m_prod := pc\<rparr>)"
    if "pend_of pc = pend_of (m_prod s)" "mprod_ok (length (m_pushed s)) (m_free s) (m_tail s) pc" for pc
    using spmc_sys_inv_prod [OF inv that] by simp
  from step show ?thesis
  proof cases
    case (mp_call b x)
    with I show ?thesis by (auto intro: same)
  next
    case (mp_load b x w q)
    have w: "unat w = length (m_pushed s)" using I(7) mp_load(2) by simp
    then have "slot_seq s w \<le> w" using slots_seq_top [OF I(5,2)] I(10) [of w] by (simp add: word_le_nat_alt)
    then have "q = w \<longrightarrow> slot_seq s w = w" using mp_load(3) by (auto intro: order_antisym)
    then have "q = w \<longrightarrow> m_free s"
      using slots_seq_free [OF I(5,2)] w I(10) [of w] by (auto simp: m_free_def word_eq_iff_unat)
    with mp_load I(7) show ?thesis by (auto intro: same)
  next
    case (mp_full x w q)
    with I(7) show ?thesis by (auto intro: same)
  next
    case (mp_block x w q)
    with I(7) show ?thesis by (auto intro: same)
  next
    case (mp_park x w q)
    with I(7) show ?thesis by (auto intro: same)
  next
    case (mp_resume x w q)
    with I(7) show ?thesis by (auto intro: same)
  next
    case (mp_free b x w q)
    with I(7) show ?thesis by (auto intro: same)
  next
    case (mp_throw x w)
    with I(7) show ?thesis by (auto intro: same)
  next
    case (mp_construct x w)
    then have w: "unat w = length (m_pushed s)" "w = m_tail s" and "m_free s" using I(7) by auto
    then have "slots_ok (unat (m_capacity s)) (unat (m_head s)) (m_pushed s)
        ((m_slots s)[slot_ix s w := (m_slots s ! slot_ix s w)\<lparr>sl_storage := Some x\<rparr>]) (Some x) (holds (m_cons s))"
      using slots_construct [of _ _ "m_pushed s" "m_slots s" "holds (m_cons s)" x] I(5) I(2) I(10) [of w] mp_construct
      by (simp add: m_free_def)
    with mp_construct inv w show ?thesis by (simp add: spmc_sys_inv_def set_storage_def m_free_def)
  next
    case (mp_store_seq x w)
    then have w: "unat w = length (m_pushed s)" "w = m_tail s" using I(7) by auto
    moreover have "unat (w + 1) = Suc (length (m_pushed s))" using w I(4) by (simp add: unat_plus1)
    ultimately have "slots_ok (unat (m_capacity s)) (unat (m_head s)) (m_pushed s @ [x])
        ((m_slots s)[slot_ix s w := (m_slots s ! slot_ix s w)\<lparr>sl_sequence := w + 1\<rparr>]) None (holds (m_cons s))"
      using slots_publish [of _ _ "m_pushed s" "m_slots s" x "holds (m_cons s)" "w + 1"] I(5) I(2) I(10) [of w] mp_store_seq
      by simp
    moreover have "mcons_ok (unat (m_head s)) (m_pushed s @ [x]) (m_cons s i)" for i
      using mcons_ok_mono [OF I(8) I(9), of "unat (m_head s)" "[x]"] by simp
    ultimately show ?thesis
      using mp_store_seq inv w bound ledger_push [OF I(6) I(9), of x]
      by (simp add: spmc_sys_inv_def set_seq_def)
  next
    case (mp_store_tail w)
    moreover from this have "unat (w + 1) = length (m_pushed s)" using I(4,7) by (auto simp: unat_plus1)
    ultimately show ?thesis using spmc_sys_inv_prod [OF inv, of "MP_notify w" "w + 1"] by simp
  next
    case (mp_notify w)
    then have "spmc_sys_inv (s\<lparr>m_prod := MP_idle\<rparr>)" using I(7) by (auto intro: same)
    with mp_notify show ?thesis by (simp add: spmc_sys_inv_def m_free_def)
  qed
qed

text \<open>The consumers keep it too.\<close>

lemma spmc_sys_inv_cons:
  assumes inv: "spmc_sys_inv s" and "hold_of pc = holds (m_cons s) i" and "taken_of pc = takes (m_cons s) i"
    and "mcons_ok (unat (m_head s)) (m_pushed s) pc"
  shows "spmc_sys_inv (set_cons i pc s)"
proof -
  have "(holds (m_cons s))(i := hold_of pc) = holds (m_cons s)" "(takes (m_cons s))(i := taken_of pc) = takes (m_cons s)"
    using assms by (simp_all add: fun_upd_idem)
  then show ?thesis using assms by (simp add: spmc_sys_inv_def set_cons_def m_free_def)
qed

lemma wake_one_keeps:
  assumes "wake_one j s t" and "spmc_sys_inv s"
  shows "spmc_sys_inv t \<and> m_pushed t = m_pushed s \<and> m_head t = m_head s \<and> m_slots t = m_slots s
    \<and> m_log t = m_log s \<and> m_capacity t = m_capacity s \<and> m_mask t = m_mask s \<and> m_tail t = m_tail s
    \<and> (\<forall>h v. m_cons s i = MC_notify h v \<longrightarrow> m_cons t i = MC_notify h v)"
  using assms(1)
proof cases
  case (wake_prod x w q)
  then show ?thesis
    using assms(2) spmc_sys_invD(7) [OF assms(2)] by (simp add: spmc_sys_inv_def m_free_def)
next
  case (wake_cons k h q)
  have "spmc_sys_inv (set_cons k (MC_wait h q) s)"
    by (rule spmc_sys_inv_cons [OF assms(2)])
      (use wake_cons spmc_sys_invD(8) [OF assms(2), of k] in \<open>auto simp: holds_def takes_def\<close>)
  with wake_cons show ?thesis by (auto simp: set_cons_def)
next
  case wake_none
  then show ?thesis using assms(2) by simp
qed

lemma head_not_max: "spmc_sys_inv s \<Longrightarrow> unat (m_head s + 1) = Suc (unat (m_head s))"
  using spmc_sys_invD(4,9) [of s] by (simp add: unat_plus1)

lemma seq_ready:
  assumes "spmc_sys_inv s" and "unat h \<le> unat (m_head s)" and "h + 1 \<le> slot_seq s h"
  shows "unat h < length (m_pushed s)"
proof -
  note I = spmc_sys_invD [OF assms(1)]
  have "unat (h + 1) = Suc (unat h)" using I(4,9) assms(2) by (simp add: unat_plus1)
  then have "Suc (unat h) \<le> unat (slot_seq s h)" using assms(3) by (simp add: word_le_nat_alt)
  with slots_seq_bounds [OF I(5,2) assms(2)] I(9) I(10) [of h] assms(2) show ?thesis
    by (cases "unat h = length (m_pushed s)") auto
qed

lemma spmc_claim_keeps_inv:
  assumes inv: "spmc_sys_inv s" and pc: "m_cons s i = MC_cas b (m_head s)"
  shows "spmc_sys_inv (set_cons i (MC_move (m_head s)) (s\<lparr>m_head := m_head s + 1\<rparr>))"
proof -
  note I = spmc_sys_invD [OF inv]
  let ?H = "unat (m_head s)" and ?L = "unat (m_capacity s)"
  have h: "?H < length (m_pushed s)" and n: "holds (m_cons s) i = None" "takes (m_cons s) i = None"
    using I(8) [of i] pc by (auto simp: holds_def takes_def)
  have H: "unat (m_head s + 1) = Suc ?H" using inv by (rule head_not_max)
  have "m_free s \<Longrightarrow> free_pos ?L (Suc ?H) ((holds (m_cons s))(i := Some (?H, None))) (length (m_pushed s))"
    using free_pos_claim [of ?L ?H "holds (m_cons s)" "length (m_pushed s)" i] I(9) n by (simp add: m_free_def)
  then have "mprod_ok (length (m_pushed s)) (free_pos ?L (Suc ?H) ((holds (m_cons s))(i := Some (?H, None)))
      (length (m_pushed s))) (m_tail s) (m_prod s)"
    by (rule mprod_ok_free [OF I(7)])
  then show ?thesis
    using inv h H mcons_ok_claim [OF I(8,9)] slots_claim [OF I(5) h n(1)] ledger_claim [OF I(6) n(2)]
    by (simp add: spmc_sys_inv_def set_cons_def m_free_def)
qed

lemma spmc_move_keeps_inv:
  assumes inv: "spmc_sys_inv s" and pc: "m_cons s i = MC_move h"
    and st: "sl_storage (m_slots s ! slot_ix s h) = Some v"
  shows "spmc_sys_inv (set_cons i (MC_release h v) (set_storage h None s))"
proof -
  note I = spmc_sys_invD [OF inv]
  let ?H = "unat (m_head s)" and ?L = "unat (m_capacity s)"
  have h: "holds (m_cons s) i = Some (unat h, None)" "takes (m_cons s) i = Some (unat h)"
    using pc by (simp_all add: holds_def takes_def)
  have "v = m_pushed s ! unat h" using slots_okD(5) [OF I(5) h(1)] st I(10) [of h] by simp
  moreover have "m_free s \<Longrightarrow>
      free_pos ?L ?H ((holds (m_cons s))(i := Some (unat h, Some v))) (length (m_pushed s))"
    using free_pos_upd [where hold = "holds (m_cons s)", OF _ h(1)] by (simp add: m_free_def)
  then have "mprod_ok (length (m_pushed s))
      (free_pos ?L ?H ((holds (m_cons s))(i := Some (unat h, Some v))) (length (m_pushed s))) (m_tail s) (m_prod s)"
    by (rule mprod_ok_free [OF I(7)])
  moreover have "(takes (m_cons s))(i := Some (unat h)) = takes (m_cons s)" using h(2) by (simp add: fun_upd_idem)
  ultimately show ?thesis
    using pc inv I(8) [of i] slots_move [OF I(5) h(1)] I(2) I(10) [of h]
    by (simp add: spmc_sys_inv_def set_cons_def set_storage_def m_free_def)
qed

lemma spmc_release_keeps_inv:
  assumes inv: "spmc_sys_inv s" and pc: "m_cons s i = MC_release h v"
  shows "spmc_sys_inv (set_cons i (MC_notify h v) (set_seq h (h + m_capacity s) s))"
proof -
  note I = spmc_sys_invD [OF inv]
  note C = I(8) [of i]
  let ?H = "unat (m_head s)" and ?L = "unat (m_capacity s)"
  have h: "holds (m_cons s) i = Some (unat h, Some v)" "takes (m_cons s) i = Some (unat h)"
    using pc by (simp_all add: holds_def takes_def)
  have "unat h < 2 ^ 63" "?L \<le> 2 ^ 63" using pc C I(4,9) is_pow2_le [OF I(1)] by simp_all
  then have w: "unat (h + m_capacity s) = unat h + ?L" by (intro unat_plus_small) simp
  have v: "v = m_pushed s ! unat h" using slots_okD(5) [OF I(5) h(1)] by simp
  have "m_free s \<Longrightarrow> free_pos ?L ?H ((holds (m_cons s))(i := None)) (length (m_pushed s))"
    using free_pos_drop by (simp add: m_free_def)
  then have "mprod_ok (length (m_pushed s))
      (free_pos ?L ?H ((holds (m_cons s))(i := None)) (length (m_pushed s))) (m_tail s) (m_prod s)"
    by (rule mprod_ok_free [OF I(7)])
  moreover have "(takes (m_cons s))(i := Some (unat h)) = takes (m_cons s)" using h(2) by (simp add: fun_upd_idem)
  ultimately show ?thesis
    using pc inv C slots_release [OF I(5) h(1) _ w] v I(2) I(10) [of h]
    by (simp add: spmc_sys_inv_def set_cons_def set_seq_def m_free_def)
qed

lemma spmc_return_keeps_inv:
  assumes inv: "spmc_sys_inv s" and pc: "m_cons s i = MC_notify h v" and wake: "wake_one (slot_ix s h) s s'"
  shows "spmc_sys_inv (set_cons i MC_idle (s'\<lparr>m_log := m_log s @ [(i, unat h, v)]\<rparr>))"
proof -
  have W: "spmc_sys_inv s'" "m_pushed s' = m_pushed s" "m_log s' = m_log s" "m_cons s' i = MC_notify h v"
    using wake_one_keeps [OF wake inv, of i] pc by blast+
  note I = spmc_sys_invD [OF W(1)]
  have h: "takes (m_cons s') i = Some (unat h)" "holds (m_cons s') i = None" "v = m_pushed s' ! unat h"
    using W(4) I(8) [of i] by (simp_all add: holds_def takes_def)
  then have "(holds (m_cons s'))(i := None) = holds (m_cons s')" by (simp add: fun_upd_idem)
  with pc W h show ?thesis
    using ledger_log [OF I(6) h(1,3)] I W(1) by (simp add: spmc_sys_inv_def set_cons_def m_free_def)
qed

text \<open>The other steps move a consumer between points at which it holds nothing.\<close>

lemma spmc_cons_keeps_inv:
  assumes step: "spmc_cons_step i s t" and inv: "spmc_sys_inv s"
  shows "spmc_sys_inv t"
proof -
  note C = spmc_sys_invD(8) [OF inv, of i]
  have same: "spmc_sys_inv (set_cons i pc s)"
    if "hold_of pc = hold_of (m_cons s i)" "taken_of pc = taken_of (m_cons s i)"
      "mcons_ok (unat (m_head s)) (m_pushed s) pc" for pc
    using spmc_sys_inv_cons [OF inv] that by (simp add: holds_def takes_def)
  from step show ?thesis
  proof cases
    case (mc_load b h q)
    then show ?thesis using C seq_ready [OF inv, of h] by (auto intro!: same)
  next
    case (mc_cas_ok b h)
    then show ?thesis using spmc_claim_keeps_inv [OF inv] by blast
  next
    case (mc_move h v)
    then show ?thesis using spmc_move_keeps_inv [OF inv] by blast
  next
    case (mc_release h v)
    then show ?thesis using spmc_release_keeps_inv [OF inv] by blast
  next
    case (mc_notify h v s')
    then show ?thesis using spmc_return_keeps_inv [OF inv] by blast
  qed (use C in \<open>auto intro!: same simp: word_le_nat_alt\<close>)
qed

lemma spmc_any_keeps_inv:
  assumes "spmc_step_any s t" and inv: "spmc_sys_inv s" and "length (m_pushed t) < 2 ^ 63"
  shows "spmc_sys_inv t"
  using assms(1) unfolding spmc_step_any_def spmc_step_def
proof (elim disjE exE)
  assume "spurious_wake s t"
  then show ?thesis
  proof cases
    case (spurious_prod x w q)
    then show ?thesis using inv spmc_sys_invD(7) [OF inv] by (simp add: spmc_sys_inv_def m_free_def)
  next
    case (spurious_cons i h q)
    have "spmc_sys_inv (set_cons i (MC_wait h q) s)"
      by (rule spmc_sys_inv_cons [OF inv])
        (use spurious_cons spmc_sys_invD(8) [OF inv, of i] in \<open>auto simp: holds_def takes_def\<close>)
    with spurious_cons show ?thesis by simp
  qed
qed (use assms(3) in \<open>blast intro: spmc_prod_keeps_inv [OF _ inv] spmc_cons_keeps_inv [OF _ inv]\<close>)+

lemma wake_one_pushed: "wake_one j s t \<Longrightarrow> m_pushed t = m_pushed s"
  by (cases rule: wake_one.cases) (auto simp: set_cons_def)

lemma spmc_step_any_pushed: "spmc_step_any s t \<Longrightarrow> length (m_pushed s) \<le> length (m_pushed t)"
  unfolding spmc_step_any_def spmc_step_def
  by (auto simp: set_cons_def set_seq_def set_storage_def wake_one_pushed
      elim!: spmc_prod_step.cases spmc_cons_step.cases spurious_wake.cases)

lemma spmc_step_any_capacity: "spmc_step_any s t \<Longrightarrow> m_capacity t = m_capacity s"
  unfolding spmc_step_any_def spmc_step_def
  by (auto simp: set_cons_def set_seq_def set_storage_def
      elim!: spmc_prod_step.cases spmc_cons_step.cases spurious_wake.cases wake_one.cases)

interpretation spmc_sys: guarded_machine spmc_init spmc_step_any spmc_sys_inv "\<lambda>s. length (m_pushed s)" "2 ^ 63"
  by unfold_locales (simp_all only: spmc_sys_inv_init spmc_step_any_pushed spmc_any_keeps_inv)

section \<open>A run of two consumers\<close>

text \<open>
  A queue of capacity 2 in the hands of consumers 0 and 1, as a function of what changes.
\<close>

definition duo :: "nat slot list \<Rightarrow> size_t \<Rightarrow> size_t \<Rightarrow> nat mprod \<Rightarrow> nat mcons \<Rightarrow> nat mcons \<Rightarrow>
    nat list \<Rightarrow> (nat \<times> nat \<times> nat) list \<Rightarrow> nat spmc_sys" where
  "duo sl h t p a b pushed lg = \<lparr>m_capacity = 2, m_mask = 1, m_slots = sl, m_head = h, m_tail = t,
     m_prod = p, m_cons = (\<lambda>_. MC_idle)(0 := a, 1 := b), m_pushed = pushed, m_log = lg\<rparr>"

lemma duo_fields:
  "m_capacity (duo sl h t p a b xs lg) = 2" "m_mask (duo sl h t p a b xs lg) = 1"
  "m_slots (duo sl h t p a b xs lg) = sl" "m_head (duo sl h t p a b xs lg) = h"
  "m_tail (duo sl h t p a b xs lg) = t" "m_prod (duo sl h t p a b xs lg) = p"
  "m_pushed (duo sl h t p a b xs lg) = xs" "m_log (duo sl h t p a b xs lg) = lg"
  "m_cons (duo sl h t p a b xs lg) i = (if i = 0 then a else if i = 1 then b else MC_idle)"
  by (simp_all add: duo_def)

lemma duo_updates:
  "(duo sl h t p a b xs lg)\<lparr>m_prod := p'\<rparr> = duo sl h t p' a b xs lg"
  "(duo sl h t p a b xs lg)\<lparr>m_head := h'\<rparr> = duo sl h' t p a b xs lg"
  "(duo sl h t p a b xs lg)\<lparr>m_tail := t'\<rparr> = duo sl h t' p a b xs lg"
  "(duo sl h t p a b xs lg)\<lparr>m_slots := sl'\<rparr> = duo sl' h t p a b xs lg"
  "(duo sl h t p a b xs lg)\<lparr>m_pushed := xs'\<rparr> = duo sl h t p a b xs' lg"
  "(duo sl h t p a b xs lg)\<lparr>m_log := lg'\<rparr> = duo sl h t p a b xs lg'"
  "set_cons 0 pc (duo sl h t p a b xs lg) = duo sl h t p pc b xs lg"
  "set_cons (Suc 0) pc (duo sl h t p a b xs lg) = duo sl h t p a pc xs lg"
  by (simp_all add: duo_def set_cons_def fun_eq_iff)

lemma duo_wake_all: "wake_all j (duo sl h t p MC_idle MC_idle xs lg) = duo sl h t p MC_idle MC_idle xs lg"
  by (auto simp: duo_def wake_all_def fun_eq_iff)

definition sl2 :: "size_t \<Rightarrow> nat option \<Rightarrow> nat slot" where
  "sl2 seq stor = \<lparr>sl_sequence = seq, sl_storage = stor\<rparr>"

lemma sl2_fields:
  "sl_sequence (sl2 q v) = q" "sl_storage (sl2 q v) = v"
  "(sl2 q v)\<lparr>sl_sequence := q'\<rparr> = sl2 q' v" "(sl2 q v)\<lparr>sl_storage := v'\<rparr> = sl2 q v'"
  by (simp_all add: sl2_def)

lemma duo_init: "reach spmc_init step (duo [sl2 0 None, sl2 1 None] 0 0 (MP_idle) (MC_idle) (MC_idle) [] [])"
proof (rule reach_init)
  have "spmc_ctor 64 (\<lambda>_. True) 2 = Inr (Some \<lparr>q_capacity = 2, q_mask = 1,
      q_slots = [sl2 0 None, sl2 1 None], q_head = 0, q_tail = 0\<rparr>)"
    by (simp add: spmc_ctor_def allocate_slots_def replicate_2 spmc_check_and_round_capacity_def bit_ceil_values sl2_def upt_rec)
  then show "spmc_init (duo [sl2 0 None, sl2 1 None] 0 0 (MP_idle) (MC_idle) (MC_idle) [] [])"
    unfolding spmc_init_def duo_def spmc_boot_def by (intro exI conjI) (auto simp: fun_eq_iff)
qed

text \<open>
  The run: 7 and 8 are pushed; consumer 0 claims 7 and is delayed, consumer 1 removes 8 and
  blocks in \<open>pop_wait\<close> on position 2, the producer blocks in \<open>emplace_wait\<close> on the same
  position, whose slot consumer 0 has not released yet.
\<close>

lemma duo_prod_step: "spmc_prod_step s t \<Longrightarrow> spmc_step s t"
  by (simp add: spmc_step_def)

lemma duo_cons_step: "spmc_cons_step i s t \<Longrightarrow> spmc_step s t"
  unfolding spmc_step_def by blast

lemma duo_notify: "m_cons s i = MC_notify h v \<Longrightarrow> wake_one (slot_ix s h) s r \<Longrightarrow>
    t = set_cons i MC_idle (r\<lparr>m_log := m_log s @ [(i, unat h, v)]\<rparr>) \<Longrightarrow> spmc_step s t"
  by (simp only: duo_cons_step [OF mc_notify])

lemma duo_reach: "reach spmc_init spmc_step s \<Longrightarrow> spmc_step s t \<Longrightarrow> reach spmc_init spmc_step t"
  by (rule reach_step)

text \<open>The first half of the run has no consumer in \<open>pop_wait\<close>.\<close>

lemma duo_calm:
  "reach spmc_init (without_pop_wait spmc_step) s \<Longrightarrow> spmc_step s t \<Longrightarrow> \<forall>i h seq. m_cons t i \<noteq> MC_wait h seq \<Longrightarrow>
    reach spmc_init (without_pop_wait spmc_step) t"
  by (erule reach_step) (simp add: without_pop_wait_def)

lemma calm_reach: "reach spmc_init (without_pop_wait step) s \<Longrightarrow> reach spmc_init step s"
  by (induction rule: reach.induct) (auto intro: reach_init reach_step simp: without_pop_wait_def)

lemmas duo_simps = spmc_prod_step.simps spmc_cons_step.simps duo_fields duo_updates sl2_fields
  set_seq_def set_storage_def duo_wake_all

lemma duo_run_push: "reach spmc_init (without_pop_wait spmc_step) (duo [sl2 1 (Some 7), sl2 1 None] 0 1 MP_idle MC_idle MC_idle [7] [])"
proof -
  have s1: "spmc_step (duo [sl2 0 None, sl2 1 None] 0 0 MP_idle MC_idle MC_idle [] [])
      (duo [sl2 0 None, sl2 1 None] 0 0 (MP_load_seq False 7 0) MC_idle MC_idle [] [])"
    by (rule duo_prod_step) (auto simp: duo_simps)
  have s2: "spmc_step (duo [sl2 0 None, sl2 1 None] 0 0 (MP_load_seq False 7 0) MC_idle MC_idle [] [])
      (duo [sl2 0 None, sl2 1 None] 0 0 (MP_check False 7 0 0) MC_idle MC_idle [] [])"
    by (rule duo_prod_step) (auto simp: duo_simps)
  have s3: "spmc_step (duo [sl2 0 None, sl2 1 None] 0 0 (MP_check False 7 0 0) MC_idle MC_idle [] [])
      (duo [sl2 0 None, sl2 1 None] 0 0 (MP_construct 7 0) MC_idle MC_idle [] [])"
    by (rule duo_prod_step) (auto simp: duo_simps)
  have s4: "spmc_step (duo [sl2 0 None, sl2 1 None] 0 0 (MP_construct 7 0) MC_idle MC_idle [] [])
      (duo [sl2 0 (Some 7), sl2 1 None] 0 0 (MP_store_seq 7 0) MC_idle MC_idle [] [])"
    by (rule duo_prod_step) (auto simp: duo_simps)
  have s5: "spmc_step (duo [sl2 0 (Some 7), sl2 1 None] 0 0 (MP_store_seq 7 0) MC_idle MC_idle [] [])
      (duo [sl2 1 (Some 7), sl2 1 None] 0 0 (MP_store_tail 0) MC_idle MC_idle [7] [])"
    by (rule duo_prod_step) (auto simp: duo_simps)
  have s6: "spmc_step (duo [sl2 1 (Some 7), sl2 1 None] 0 0 (MP_store_tail 0) MC_idle MC_idle [7] [])
      (duo [sl2 1 (Some 7), sl2 1 None] 0 1 (MP_notify 0) MC_idle MC_idle [7] [])"
    by (rule duo_prod_step) (auto simp: duo_simps)
  have s7: "spmc_step (duo [sl2 1 (Some 7), sl2 1 None] 0 1 (MP_notify 0) MC_idle MC_idle [7] [])
      (duo [sl2 1 (Some 7), sl2 1 None] 0 1 MP_idle MC_idle MC_idle [7] [])"
    by (rule duo_prod_step) (auto simp: duo_simps)
  show ?thesis
    by (rule duo_calm [OF duo_calm [OF duo_calm [OF duo_calm [OF duo_calm [OF duo_calm [OF duo_calm [OF duo_init s1] s2] s3] s4] s5] s6] s7]) (simp_all add: duo_fields)
qed

lemma duo_run_push2: "reach spmc_init (without_pop_wait spmc_step) (duo [sl2 1 (Some 7), sl2 2 (Some 8)] 0 2 MP_idle MC_idle MC_idle [7, 8] [])"
proof -
  have s1: "spmc_step (duo [sl2 1 (Some 7), sl2 1 None] 0 1 MP_idle MC_idle MC_idle [7] [])
      (duo [sl2 1 (Some 7), sl2 1 None] 0 1 (MP_load_seq False 8 1) MC_idle MC_idle [7] [])"
    by (rule duo_prod_step) (auto simp: duo_simps)
  have s2: "spmc_step (duo [sl2 1 (Some 7), sl2 1 None] 0 1 (MP_load_seq False 8 1) MC_idle MC_idle [7] [])
      (duo [sl2 1 (Some 7), sl2 1 None] 0 1 (MP_check False 8 1 1) MC_idle MC_idle [7] [])"
    by (rule duo_prod_step) (auto simp: duo_simps)
  have s3: "spmc_step (duo [sl2 1 (Some 7), sl2 1 None] 0 1 (MP_check False 8 1 1) MC_idle MC_idle [7] [])
      (duo [sl2 1 (Some 7), sl2 1 None] 0 1 (MP_construct 8 1) MC_idle MC_idle [7] [])"
    by (rule duo_prod_step) (auto simp: duo_simps)
  have s4: "spmc_step (duo [sl2 1 (Some 7), sl2 1 None] 0 1 (MP_construct 8 1) MC_idle MC_idle [7] [])
      (duo [sl2 1 (Some 7), sl2 1 (Some 8)] 0 1 (MP_store_seq 8 1) MC_idle MC_idle [7] [])"
    by (rule duo_prod_step) (auto simp: duo_simps)
  have s5: "spmc_step (duo [sl2 1 (Some 7), sl2 1 (Some 8)] 0 1 (MP_store_seq 8 1) MC_idle MC_idle [7] [])
      (duo [sl2 1 (Some 7), sl2 2 (Some 8)] 0 1 (MP_store_tail 1) MC_idle MC_idle [7, 8] [])"
    by (rule duo_prod_step) (auto simp: duo_simps)
  have s6: "spmc_step (duo [sl2 1 (Some 7), sl2 2 (Some 8)] 0 1 (MP_store_tail 1) MC_idle MC_idle [7, 8] [])
      (duo [sl2 1 (Some 7), sl2 2 (Some 8)] 0 2 (MP_notify 1) MC_idle MC_idle [7, 8] [])"
    by (rule duo_prod_step) (auto simp: duo_simps)
  have s7: "spmc_step (duo [sl2 1 (Some 7), sl2 2 (Some 8)] 0 2 (MP_notify 1) MC_idle MC_idle [7, 8] [])
      (duo [sl2 1 (Some 7), sl2 2 (Some 8)] 0 2 MP_idle MC_idle MC_idle [7, 8] [])"
    by (rule duo_prod_step) (auto simp: duo_simps)
  show ?thesis
    by (rule duo_calm [OF duo_calm [OF duo_calm [OF duo_calm [OF duo_calm [OF duo_calm [OF duo_calm [OF duo_run_push s1] s2] s3] s4] s5] s6] s7]) (simp_all add: duo_fields)
qed

lemma duo_run_claim: "reach spmc_init (without_pop_wait spmc_step) (duo [sl2 1 (Some 7), sl2 2 (Some 8)] 2 2 MP_idle (MC_move 0) (MC_move 1) [7, 8] [])"
proof -
  have s1: "spmc_step (duo [sl2 1 (Some 7), sl2 2 (Some 8)] 0 2 MP_idle MC_idle MC_idle [7, 8] [])
      (duo [sl2 1 (Some 7), sl2 2 (Some 8)] 0 2 MP_idle (MC_load_seq False 0) MC_idle [7, 8] [])"
    by (rule duo_cons_step [of 0]) (auto simp: duo_simps)
  have s2: "spmc_step (duo [sl2 1 (Some 7), sl2 2 (Some 8)] 0 2 MP_idle (MC_load_seq False 0) MC_idle [7, 8] [])
      (duo [sl2 1 (Some 7), sl2 2 (Some 8)] 0 2 MP_idle (MC_check False 0 1) MC_idle [7, 8] [])"
    by (rule duo_cons_step [of 0]) (auto simp: duo_simps)
  have s3: "spmc_step (duo [sl2 1 (Some 7), sl2 2 (Some 8)] 0 2 MP_idle (MC_check False 0 1) MC_idle [7, 8] [])
      (duo [sl2 1 (Some 7), sl2 2 (Some 8)] 0 2 MP_idle (MC_cas False 0) MC_idle [7, 8] [])"
    by (rule duo_cons_step [of 0]) (auto simp: duo_simps)
  have s4: "spmc_step (duo [sl2 1 (Some 7), sl2 2 (Some 8)] 0 2 MP_idle (MC_cas False 0) MC_idle [7, 8] [])
      (duo [sl2 1 (Some 7), sl2 2 (Some 8)] 1 2 MP_idle (MC_move 0) MC_idle [7, 8] [])"
    by (rule duo_cons_step [of 0]) (auto simp: duo_simps)
  have s5: "spmc_step (duo [sl2 1 (Some 7), sl2 2 (Some 8)] 1 2 MP_idle (MC_move 0) MC_idle [7, 8] [])
      (duo [sl2 1 (Some 7), sl2 2 (Some 8)] 1 2 MP_idle (MC_move 0) (MC_load_seq False 1) [7, 8] [])"
    by (rule duo_cons_step [of 1]) (auto simp: duo_simps)
  have s6: "spmc_step (duo [sl2 1 (Some 7), sl2 2 (Some 8)] 1 2 MP_idle (MC_move 0) (MC_load_seq False 1) [7, 8] [])
      (duo [sl2 1 (Some 7), sl2 2 (Some 8)] 1 2 MP_idle (MC_move 0) (MC_check False 1 2) [7, 8] [])"
    by (rule duo_cons_step [of 1]) (auto simp: duo_simps)
  have s7: "spmc_step (duo [sl2 1 (Some 7), sl2 2 (Some 8)] 1 2 MP_idle (MC_move 0) (MC_check False 1 2) [7, 8] [])
      (duo [sl2 1 (Some 7), sl2 2 (Some 8)] 1 2 MP_idle (MC_move 0) (MC_cas False 1) [7, 8] [])"
    by (rule duo_cons_step [of 1]) (auto simp: duo_simps)
  have s8: "spmc_step (duo [sl2 1 (Some 7), sl2 2 (Some 8)] 1 2 MP_idle (MC_move 0) (MC_cas False 1) [7, 8] [])
      (duo [sl2 1 (Some 7), sl2 2 (Some 8)] 2 2 MP_idle (MC_move 0) (MC_move 1) [7, 8] [])"
    by (rule duo_cons_step [of 1]) (auto simp: duo_simps)
  show ?thesis
    by (rule duo_calm [OF duo_calm [OF duo_calm [OF duo_calm [OF duo_calm [OF duo_calm [OF duo_calm [OF duo_calm [OF duo_run_push2 s1] s2] s3] s4] s5] s6] s7] s8]) (simp_all add: duo_fields)
qed

lemma duo_run_park: "reach spmc_init spmc_step (duo [sl2 1 (Some 7), sl2 3 None] 2 2 (MP_load_seq True 9 2) (MC_move 0) (MC_parked 2 1) [7, 8] [(1, 1, 8)])"
proof -
  have s1: "spmc_step (duo [sl2 1 (Some 7), sl2 2 (Some 8)] 2 2 MP_idle (MC_move 0) (MC_move 1) [7, 8] [])
      (duo [sl2 1 (Some 7), sl2 2 None] 2 2 MP_idle (MC_move 0) (MC_release 1 8) [7, 8] [])"
    by (rule duo_cons_step [of 1]) (auto simp: duo_simps)
  have s2: "spmc_step (duo [sl2 1 (Some 7), sl2 2 None] 2 2 MP_idle (MC_move 0) (MC_release 1 8) [7, 8] [])
      (duo [sl2 1 (Some 7), sl2 3 None] 2 2 MP_idle (MC_move 0) (MC_notify 1 8) [7, 8] [])"
    by (rule duo_cons_step [of 1]) (auto simp: duo_simps)
  have s3: "spmc_step (duo [sl2 1 (Some 7), sl2 3 None] 2 2 MP_idle (MC_move 0) (MC_notify 1 8) [7, 8] [])
      (duo [sl2 1 (Some 7), sl2 3 None] 2 2 MP_idle (MC_move 0) MC_idle [7, 8] [(1, 1, 8)])"
    by (rule duo_notify [where i = 1 and h = 1 and v = 8, OF _ wake_none]) (auto simp: duo_simps split: if_splits)
  have s4: "spmc_step (duo [sl2 1 (Some 7), sl2 3 None] 2 2 MP_idle (MC_move 0) MC_idle [7, 8] [(1, 1, 8)])
      (duo [sl2 1 (Some 7), sl2 3 None] 2 2 MP_idle (MC_move 0) (MC_load_seq True 2) [7, 8] [(1, 1, 8)])"
    by (rule duo_cons_step [of 1]) (auto simp: duo_simps)
  have s5: "spmc_step (duo [sl2 1 (Some 7), sl2 3 None] 2 2 MP_idle (MC_move 0) (MC_load_seq True 2) [7, 8] [(1, 1, 8)])
      (duo [sl2 1 (Some 7), sl2 3 None] 2 2 MP_idle (MC_move 0) (MC_check True 2 1) [7, 8] [(1, 1, 8)])"
    by (rule duo_cons_step [of 1]) (auto simp: duo_simps)
  have s6: "spmc_step (duo [sl2 1 (Some 7), sl2 3 None] 2 2 MP_idle (MC_move 0) (MC_check True 2 1) [7, 8] [(1, 1, 8)])
      (duo [sl2 1 (Some 7), sl2 3 None] 2 2 MP_idle (MC_move 0) (MC_wait 2 1) [7, 8] [(1, 1, 8)])"
    by (rule duo_cons_step [of 1]) (auto simp: duo_simps)
  have s7: "spmc_step (duo [sl2 1 (Some 7), sl2 3 None] 2 2 MP_idle (MC_move 0) (MC_wait 2 1) [7, 8] [(1, 1, 8)])
      (duo [sl2 1 (Some 7), sl2 3 None] 2 2 MP_idle (MC_move 0) (MC_parked 2 1) [7, 8] [(1, 1, 8)])"
    by (rule duo_cons_step [of 1]) (auto simp: duo_simps)
  have s8: "spmc_step (duo [sl2 1 (Some 7), sl2 3 None] 2 2 MP_idle (MC_move 0) (MC_parked 2 1) [7, 8] [(1, 1, 8)])
      (duo [sl2 1 (Some 7), sl2 3 None] 2 2 (MP_load_seq True 9 2) (MC_move 0) (MC_parked 2 1) [7, 8] [(1, 1, 8)])"
    by (rule duo_prod_step) (auto simp: duo_simps)
  show ?thesis
    by (rule duo_reach [OF duo_reach [OF duo_reach [OF duo_reach [OF duo_reach [OF duo_reach [OF duo_reach [OF duo_reach [OF calm_reach [OF duo_run_claim] s1] s2] s3] s4] s5] s6] s7] s8])
qed

lemma duo_run_wake: "reach spmc_init spmc_step (duo [sl2 2 None, sl2 3 None] 2 2 (MP_parked 9 2 1) MC_idle (MC_parked 2 2) [7, 8] [(1, 1, 8), (0, 0, 7)])"
proof -
  have s1: "spmc_step (duo [sl2 1 (Some 7), sl2 3 None] 2 2 (MP_load_seq True 9 2) (MC_move 0) (MC_parked 2 1) [7, 8] [(1, 1, 8)])
      (duo [sl2 1 (Some 7), sl2 3 None] 2 2 (MP_check True 9 2 1) (MC_move 0) (MC_parked 2 1) [7, 8] [(1, 1, 8)])"
    by (rule duo_prod_step) (auto simp: duo_simps)
  have s2: "spmc_step (duo [sl2 1 (Some 7), sl2 3 None] 2 2 (MP_check True 9 2 1) (MC_move 0) (MC_parked 2 1) [7, 8] [(1, 1, 8)])
      (duo [sl2 1 (Some 7), sl2 3 None] 2 2 (MP_wait 9 2 1) (MC_move 0) (MC_parked 2 1) [7, 8] [(1, 1, 8)])"
    by (rule duo_prod_step) (auto simp: duo_simps)
  have s3: "spmc_step (duo [sl2 1 (Some 7), sl2 3 None] 2 2 (MP_wait 9 2 1) (MC_move 0) (MC_parked 2 1) [7, 8] [(1, 1, 8)])
      (duo [sl2 1 (Some 7), sl2 3 None] 2 2 (MP_parked 9 2 1) (MC_move 0) (MC_parked 2 1) [7, 8] [(1, 1, 8)])"
    by (rule duo_prod_step) (auto simp: duo_simps)
  have s4: "spmc_step (duo [sl2 1 (Some 7), sl2 3 None] 2 2 (MP_parked 9 2 1) (MC_move 0) (MC_parked 2 1) [7, 8] [(1, 1, 8)])
      (duo [sl2 1 None, sl2 3 None] 2 2 (MP_parked 9 2 1) (MC_release 0 7) (MC_parked 2 1) [7, 8] [(1, 1, 8)])"
    by (rule duo_cons_step [of 0]) (auto simp: duo_simps)
  have s5: "spmc_step (duo [sl2 1 None, sl2 3 None] 2 2 (MP_parked 9 2 1) (MC_release 0 7) (MC_parked 2 1) [7, 8] [(1, 1, 8)])
      (duo [sl2 2 None, sl2 3 None] 2 2 (MP_parked 9 2 1) (MC_notify 0 7) (MC_parked 2 1) [7, 8] [(1, 1, 8)])"
    by (rule duo_cons_step [of 0]) (auto simp: duo_simps)
  have s6: "spmc_step (duo [sl2 2 None, sl2 3 None] 2 2 (MP_parked 9 2 1) (MC_notify 0 7) (MC_parked 2 1) [7, 8] [(1, 1, 8)])
      (duo [sl2 2 None, sl2 3 None] 2 2 (MP_parked 9 2 1) MC_idle (MC_wait 2 1) [7, 8] [(1, 1, 8), (0, 0, 7)])"
    by (rule duo_notify [where i = 0 and h = 0 and v = 7, OF _ wake_cons [where i = 1 and h = 2 and seq = 1]])
      (auto simp: duo_simps)
  have s7: "spmc_step (duo [sl2 2 None, sl2 3 None] 2 2 (MP_parked 9 2 1) MC_idle (MC_wait 2 1) [7, 8] [(1, 1, 8), (0, 0, 7)])
      (duo [sl2 2 None, sl2 3 None] 2 2 (MP_parked 9 2 1) MC_idle (MC_load_seq True 2) [7, 8] [(1, 1, 8), (0, 0, 7)])"
    by (rule duo_cons_step [of 1]) (auto simp: duo_simps)
  have s8: "spmc_step (duo [sl2 2 None, sl2 3 None] 2 2 (MP_parked 9 2 1) MC_idle (MC_load_seq True 2) [7, 8] [(1, 1, 8), (0, 0, 7)])
      (duo [sl2 2 None, sl2 3 None] 2 2 (MP_parked 9 2 1) MC_idle (MC_check True 2 2) [7, 8] [(1, 1, 8), (0, 0, 7)])"
    by (rule duo_cons_step [of 1]) (auto simp: duo_simps)
  have s9: "spmc_step (duo [sl2 2 None, sl2 3 None] 2 2 (MP_parked 9 2 1) MC_idle (MC_check True 2 2) [7, 8] [(1, 1, 8), (0, 0, 7)])
      (duo [sl2 2 None, sl2 3 None] 2 2 (MP_parked 9 2 1) MC_idle (MC_wait 2 2) [7, 8] [(1, 1, 8), (0, 0, 7)])"
    by (rule duo_cons_step [of 1]) (auto simp: duo_simps)
  have s10: "spmc_step (duo [sl2 2 None, sl2 3 None] 2 2 (MP_parked 9 2 1) MC_idle (MC_wait 2 2) [7, 8] [(1, 1, 8), (0, 0, 7)])
      (duo [sl2 2 None, sl2 3 None] 2 2 (MP_parked 9 2 1) MC_idle (MC_parked 2 2) [7, 8] [(1, 1, 8), (0, 0, 7)])"
    by (rule duo_cons_step [of 1]) (auto simp: duo_simps)
  show ?thesis
    by (rule duo_reach [OF duo_reach [OF duo_reach [OF duo_reach [OF duo_reach [OF duo_reach [OF duo_reach [OF duo_reach [OF duo_reach [OF duo_reach [OF duo_run_park s1] s2] s3] s4] s5] s6] s7] s8] s9] s10])
qed

lemma duo_run_lost: "reach spmc_init spmc_step (duo [sl2 2 None, sl2 3 None] 2 2 (MP_parked 9 2 1) (MC_parked 2 2) (MC_parked 2 2) [7, 8] [(1, 1, 8), (0, 0, 7)])"
proof -
  have s1: "spmc_step (duo [sl2 2 None, sl2 3 None] 2 2 (MP_parked 9 2 1) MC_idle (MC_parked 2 2) [7, 8] [(1, 1, 8), (0, 0, 7)])
      (duo [sl2 2 None, sl2 3 None] 2 2 (MP_parked 9 2 1) (MC_load_seq True 2) (MC_parked 2 2) [7, 8] [(1, 1, 8), (0, 0, 7)])"
    by (rule duo_cons_step [of 0]) (auto simp: duo_simps)
  have s2: "spmc_step (duo [sl2 2 None, sl2 3 None] 2 2 (MP_parked 9 2 1) (MC_load_seq True 2) (MC_parked 2 2) [7, 8] [(1, 1, 8), (0, 0, 7)])
      (duo [sl2 2 None, sl2 3 None] 2 2 (MP_parked 9 2 1) (MC_check True 2 2) (MC_parked 2 2) [7, 8] [(1, 1, 8), (0, 0, 7)])"
    by (rule duo_cons_step [of 0]) (auto simp: duo_simps)
  have s3: "spmc_step (duo [sl2 2 None, sl2 3 None] 2 2 (MP_parked 9 2 1) (MC_check True 2 2) (MC_parked 2 2) [7, 8] [(1, 1, 8), (0, 0, 7)])
      (duo [sl2 2 None, sl2 3 None] 2 2 (MP_parked 9 2 1) (MC_wait 2 2) (MC_parked 2 2) [7, 8] [(1, 1, 8), (0, 0, 7)])"
    by (rule duo_cons_step [of 0]) (auto simp: duo_simps)
  have s4: "spmc_step (duo [sl2 2 None, sl2 3 None] 2 2 (MP_parked 9 2 1) (MC_wait 2 2) (MC_parked 2 2) [7, 8] [(1, 1, 8), (0, 0, 7)])
      (duo [sl2 2 None, sl2 3 None] 2 2 (MP_parked 9 2 1) (MC_parked 2 2) (MC_parked 2 2) [7, 8] [(1, 1, 8), (0, 0, 7)])"
    by (rule duo_cons_step [of 0]) (auto simp: duo_simps)
  show ?thesis
    by (rule duo_reach [OF duo_reach [OF duo_reach [OF duo_reach [OF duo_run_wake s1] s2] s3] s4])
qed

section \<open>Properties\<close>

lemma reach_any: "reach spmc_init spmc_step s \<Longrightarrow> reach spmc_init spmc_step_any s"
  by (induction rule: reach.induct) (auto intro: reach_init reach_step simp: spmc_step_any_def)

text \<open>Three states of the run above.\<close>

definition duo_claimed :: "nat spmc_sys" where
  "duo_claimed = duo [sl2 1 (Some 7), sl2 2 (Some 8)] 2 2 MP_idle (MC_move 0) (MC_move 1) [7, 8] []"

definition duo_full :: "nat spmc_sys" where
  "duo_full = duo [sl2 1 (Some 7), sl2 3 None] 2 2 (MP_load_seq True 9 2) (MC_move 0) (MC_parked 2 1)
     [7, 8] [(1, 1, 8)]"

definition duo_lost :: "nat spmc_sys" where
  "duo_lost = duo [sl2 2 None, sl2 3 None] 2 2 (MP_parked 9 2 1) (MC_parked 2 2) (MC_parked 2 2)
     [7, 8] [(1, 1, 8), (0, 0, 7)]"

lemma duo_claimed_reach: "reach spmc_init spmc_step_any duo_claimed"
  unfolding duo_claimed_def by (rule reach_any [OF calm_reach [OF duo_run_claim]])

lemma duo_full_reach: "reach spmc_init spmc_step_any duo_full"
  unfolding duo_full_def by (rule reach_any [OF duo_run_park])

lemma duo_lost_reach: "reach spmc_init spmc_step duo_lost"
  unfolding duo_lost_def by (rule duo_run_lost)

lemmas duo_defs = duo_claimed_def duo_full_def duo_lost_def duo_fields

lemma ledger_cover:
  assumes "ledger_ok H pushed taken log"
  shows "p < H \<longleftrightarrow> p \<in> set (map (fst \<circ> snd) log) \<or> (\<exists>i. taken i = Some p)"
proof
  assume "p < H"
  with assms show "p \<in> set (map (fst \<circ> snd) log) \<or> (\<exists>i. taken i = Some p)"
    unfolding ledger_ok_def by blast
next
  assume "p \<in> set (map (fst \<circ> snd) log) \<or> (\<exists>i. taken i = Some p)"
  then show "p < H"
  proof
    assume "p \<in> set (map (fst \<circ> snd) log)"
    then obtain i v where "(i, p, v) \<in> set log" by auto
    with assms show ?thesis unfolding ledger_ok_def by blast
  next
    assume "\<exists>i. taken i = Some p"
    with assms show ?thesis unfolding ledger_ok_def by blast
  qed
qed

lemma ledger_values:
  assumes "ledger_ok H pushed taken log" and "\<And>i. taken i = None" and "H \<le> length pushed"
  shows "mset (map (snd \<circ> snd) log) = mset (take H pushed)"
proof -
  let ?pos = "map (fst \<circ> snd) log"
  have val: "map (snd \<circ> snd) log = map (nth pushed) ?pos"
    using assms(1) unfolding ledger_ok_def by fastforce
  have "distinct ?pos" "set ?pos = {0..<H}"
    using assms(1,2) unfolding ledger_ok_def by (fastforce simp: image_iff)+
  then have "mset ?pos = mset [0..<H]"
    using set_eq_iff_mset_eq_distinct [OF _ distinct_upt, of ?pos 0 H] by (simp only: set_upt simp_thms)
  then have "mset (map (nth pushed) ?pos) = mset (map (nth pushed) [0..<H])" by (simp only: mset_map)
  also have "map (nth pushed) [0..<H] = take H pushed"
    using assms(3) by (intro nth_equalityI) auto
  finally show ?thesis by (simp only: val)
qed

text \<open>
  C1. SPMCQueue delivers every element exactly once, whatever the number of consumers and the
  interleaving, with spurious wake-ups and spuriously failing compare-exchanges: the removals
  finished so far concern different positions below \<open>head_\<close>, each returned the element that
  was pushed at its position, every position below \<open>head_\<close> has been returned or is in the
  hands of one consumer, each consumer gets its elements in the order they were pushed, and
  when no removal is under way the elements returned are, as a multiset, the first
  \<open>head_\<close> elements pushed.
\<close>

theorem spmc_exactly_once:
  assumes "reach spmc_init spmc_step_any s" and "length (m_pushed s) < 2 ^ 63"
  shows "distinct (map (fst \<circ> snd) (m_log s))
    \<and> list_all (\<lambda>(i, p, v). p < unat (m_head s) \<and> v = m_pushed s ! p) (m_log s)
    \<and> unat (m_head s) \<le> length (m_pushed s) \<and> length (m_pushed s) \<le> unat (m_head s) + unat (m_capacity s)
    \<and> {0..<unat (m_head s)} = set (map (fst \<circ> snd) (m_log s)) \<union> {p. \<exists>i. takes (m_cons s) i = Some p}
    \<and> sorted_wrt (<) (map (fst \<circ> snd) (filter (\<lambda>e. fst e = i) (m_log s)))
    \<and> ((\<forall>j. takes (m_cons s) j = None) \<longrightarrow>
        mset (map (snd \<circ> snd) (m_log s)) = mset (take (unat (m_head s)) (m_pushed s)))"
proof -
  note I = spmc_sys_invD [OF spmc_sys.reach_inv [OF assms]]
  have L: "distinct (map (fst \<circ> snd) (m_log s))"
    "sorted_wrt (<) (map (fst \<circ> snd) (filter (\<lambda>e. fst e = i) (m_log s)))"
    using I(6) by (simp_all only: ledger_ok_def)
  have "{0..<unat (m_head s)} = set (map (fst \<circ> snd) (m_log s)) \<union> {p. \<exists>i. takes (m_cons s) i = Some p}"
    using ledger_cover [OF I(6)]
    by (intro set_eqI) (simp only: Un_iff atLeastLessThan_iff mem_Collect_eq le0 simp_thms)
  moreover have "list_all (\<lambda>(i, p, v). p < unat (m_head s) \<and> v = m_pushed s ! p) (m_log s)"
    using I(6) unfolding ledger_ok_def by (force simp: list_all_iff)
  moreover have "(\<forall>j. takes (m_cons s) j = None) \<longrightarrow>
      mset (map (snd \<circ> snd) (m_log s)) = mset (take (unat (m_head s)) (m_pushed s))"
    using ledger_values [OF I(6) _ I(9)] by blast
  ultimately show ?thesis
    using L I(9) slots_okD(2) [OF I(5)] by (intro conjI) assumption+
qed

theorem spmc_exactly_once_witness:
  "{0..<2} = set (map (fst \<circ> snd) (m_log duo_lost)) \<union> {p. \<exists>i. takes (m_cons duo_lost) i = Some p}"
  using spmc_exactly_once [OF reach_any [OF duo_lost_reach]] by (simp add: duo_defs)

text \<open>
  C5. The slots of SPMCQueue are never misused: the producer constructs only into a slot that
  holds no object and that no consumer is moving from, a consumer that has won the
  compare-exchange finds its element alive in the slot, and two consumers never move from
  the same slot.
\<close>

theorem spmc_storage_safe:
  assumes "reach spmc_init spmc_step_any s" and "length (m_pushed s) < 2 ^ 63"
  shows "(m_prod s = MP_construct x t \<longrightarrow> sl_storage (m_slots s ! slot_ix s t) = None
      \<and> (m_cons s i = MC_move h \<longrightarrow> slot_ix s t \<noteq> slot_ix s h))
    \<and> (m_cons s i = MC_move h \<longrightarrow> sl_storage (m_slots s ! slot_ix s h) = Some (m_pushed s ! unat h)
      \<and> unat h < length (m_pushed s))
    \<and> (m_cons s i = MC_move h \<longrightarrow> m_cons s j = MC_move h' \<longrightarrow> i \<noteq> j \<longrightarrow> slot_ix s h \<noteq> slot_ix s h')"
proof -
  note I = spmc_sys_invD [OF spmc_sys.reach_inv [OF assms]]
  note D = slots_okD [OF I(5)]
  have hold: "holds (m_cons s) k = Some (unat w, None)" if "m_cons s k = MC_move w" for k w
    using that by (simp add: holds_def)
  have "sl_storage (m_slots s ! slot_ix s t) = None
    \<and> (m_cons s i = MC_move h \<longrightarrow> slot_ix s t \<noteq> slot_ix s h)" if p: "m_prod s = MP_construct x t"
  proof -
    have t: "unat t = length (m_pushed s)" "m_free s" using I(7) p by simp_all
    have "slot_ix s t \<noteq> slot_ix s h" if "m_cons s i = MC_move h"
    proof -
      have "unat h < length (m_pushed s)" "length (m_pushed s) \<le> unat h + unat (m_capacity s)"
        using D(1) D(5) [OF hold [OF that]] by simp_all
      with free_pos_near [OF t(2) [unfolded m_free_def], of "unat h" i None] hold [OF that]
      have "length (m_pushed s) < unat h + unat (m_capacity s)" by simp
      from mod_lap_neq [OF \<open>unat h < length (m_pushed s)\<close> this] t I(10) [of t] I(10) [of h]
      show ?thesis by simp
    qed
    moreover have "sl_storage (m_slots s ! slot_ix s t) = None"
      using D(7) [of "length (m_pushed s)"] t p I(2) I(10) [of t] by (simp add: m_free_def)
    ultimately show ?thesis by simp
  qed
  moreover have "sl_storage (m_slots s ! slot_ix s h) = Some (m_pushed s ! unat h) \<and> unat h < length (m_pushed s)"
    if "m_cons s i = MC_move h" using D(1) D(5) [OF hold [OF that]] I(10) [of h] by simp
  moreover have "slot_ix s h \<noteq> slot_ix s h'"
    if "m_cons s i = MC_move h" "m_cons s j = MC_move h'" "i \<noteq> j"
  proof -
    note hi = hold [OF that(1)] and hj = hold [OF that(2)]
    have "unat h \<noteq> unat h'" using D(6) [OF hi, of j None] hj that(3) by auto
    then show ?thesis
      using mod_lap_eq_iff [of "unat h" "unat h'" "unat (m_capacity s)"] D(1) D(5) [OF hi] D(5) [OF hj]
        I(10) [of h] I(10) [of h'] by simp
  qed
  ultimately show ?thesis by blast
qed

theorem spmc_storage_safe_witness:
  "slot_ix duo_claimed 0 \<noteq> slot_ix duo_claimed 1
   \<and> sl_storage (m_slots duo_claimed ! slot_ix duo_claimed 1) = Some (m_pushed duo_claimed ! 1)"
  using spmc_storage_safe [OF duo_claimed_reach, of _ _ 0 0 1 1]
    spmc_storage_safe [OF duo_claimed_reach, of _ _ 1 1] by (simp add: duo_defs)

text \<open>
  The unsigned test \<open>diff > size_t(-1) / 2\<close> tells a sequence number behind the position from
  one ahead of it, as long as both stay below \<open>2 ^ 63\<close>.
\<close>

lemma diff_behind:
  assumes "unat h < 2 ^ 63" and "unat q < 2 ^ 63"
  shows "q - (h + 1) > (- 1) div 2 \<longleftrightarrow> unat q \<le> unat (h :: size_t)"
proof -
  have half: "unat ((- 1 :: size_t) div 2) = 9223372036854775807" by simp
  have h: "unat (h + 1) = unat h + 1" using assms by (simp add: unat_plus1)
  show ?thesis
  proof (cases "unat q \<le> unat h")
    case True
    then have "unat (q - (h + 1)) = 2 ^ 64 + unat q - (unat h + 1)"
      using h by (simp add: unat_sub_if' word_le_nat_alt)
    with True assms half show ?thesis by (simp add: word_less_nat_alt del: word_div_no)
  next
    case False
    then have "unat (q - (h + 1)) = unat q - (unat h + 1)"
      using h by (simp add: unat_sub_if' word_le_nat_alt)
    with False assms half show ?thesis by (simp add: word_less_nat_alt del: word_div_no)
  qed
qed

lemma spmc_reach_inv:
  assumes "reach spmc_init spmc_step_any s" and "length (m_pushed s) + unat (m_capacity s) \<le> 2 ^ 63"
  shows "spmc_sys_inv s" and "length (m_pushed s) < 2 ^ 63"
proof -
  have "unat (m_capacity s) \<noteq> 0"
    using assms(1)
  proof (induction rule: reach.induct)
    case (reach_init s)
    then show ?case using spmc_sys_inv_init spmc_sys_invD(2) by fastforce
  next
    case (reach_step s t)
    then show ?case using spmc_step_any_capacity by metis
  qed
  with assms(2) show T: "length (m_pushed s) < 2 ^ 63" by linarith
  with assms(1) show "spmc_sys_inv s" using spmc_sys.reach_inv by blast
qed

text \<open>What the comparison with \<open>h + 1\<close> decides for a loaded sequence number \<open>v\<close>.\<close>

lemma spmc_load_decides:
  assumes inv: "spmc_sys_inv s" and T: "length (m_pushed s) < 2 ^ 63"
    and cap: "length (m_pushed s) + unat (m_capacity s) \<le> 2 ^ 63"
    and h: "unat h \<le> unat (m_head s)" and v: "v \<le> slot_seq s h"
  shows "let diff = v - (h + 1); H = unat (m_head s); T = length (m_pushed s) in
    if diff = 0 then unat h < T
    else if diff > (- 1) div 2 then unat v \<le> unat h \<and> (v = slot_seq s h \<longrightarrow> H = T \<and> h = m_head s)
    else unat h < H"
proof -
  note I = spmc_sys_invD [OF inv]
  have le: "unat v \<le> unat (slot_seq s h)" using v by (simp add: word_le_nat_alt)
  note B = slots_seq_bounds [OF I(5,2) h, folded I(10) [of h]]
  have D: "v - (h + 1) > (- 1) div 2 \<longleftrightarrow> unat v \<le> unat h"
    by (rule diff_behind) (use B le cap h I(9) T in linarith)+
  have "unat h < length (m_pushed s)" if "v - (h + 1) = 0"
    using seq_ready [OF inv h] that v by simp
  moreover have "unat (m_head s) = length (m_pushed s) \<and> h = m_head s" if "unat (slot_seq s h) \<le> unat h"
  proof -
    have "unat h = length (m_pushed s)" using that B h I(9) by linarith
    with h I(9) show ?thesis by (simp add: word_eq_iff_unat)
  qed
  moreover have "unat h < unat (m_head s)" if n: "v - (h + 1) \<noteq> 0" "\<not> unat v \<le> unat h"
  proof (rule ccontr)
    assume "\<not> unat h < unat (m_head s)"
    with h have e: "unat h = unat (m_head s)" by simp
    have "unat h < unat (slot_seq s h)" using n(2) le by linarith
    then have "unat h < length (m_pushed s)" using B e I(9) by (metis le_neq_implies_less not_less)
    then have "unat (slot_seq s h) = Suc (unat h)"
      using slots_okD(4) [OF I(5), of "unat h"] e I(10) [of h] by simp
    moreover have "unat (h + 1) = Suc (unat h)" using h I(9) T by (simp add: unat_plus1)
    ultimately have "v = h + 1" using n(2) le by (simp add: word_eq_iff_unat)
    with n(1) show False by simp
  qed
  ultimately show ?thesis by (simp only: Let_def D split: if_split) blast
qed

text \<open>
  A decision: in state \<open>s\<close> the thread loads \<open>v\<close> from its slot, then others may do anything, and
  its own next step goes to the program counter \<open>pc\<close>.
\<close>

definition cons_decides :: "nat \<Rightarrow> 'a spmc_sys \<Rightarrow> bool \<Rightarrow> size_t \<Rightarrow> size_t \<Rightarrow> 'a mcons \<Rightarrow> bool" where
  "cons_decides i s b h v pc \<longleftrightarrow> (\<exists>r r' t. m_cons s i = MC_load_seq b h \<and> spmc_cons_step i s r
     \<and> m_cons r i = MC_check b h v \<and> m_cons r' i = m_cons r i \<and> spmc_cons_step i r' t \<and> m_cons t i = pc)"

definition prod_decides :: "'a spmc_sys \<Rightarrow> bool \<Rightarrow> 'a \<Rightarrow> size_t \<Rightarrow> size_t \<Rightarrow> 'a mprod \<Rightarrow> bool" where
  "prod_decides s b x w v pc \<longleftrightarrow> (\<exists>r r' t. m_prod s = MP_load_seq b x w \<and> spmc_prod_step s r
     \<and> m_prod r = MP_check b x w v \<and> m_prod r' = m_prod r \<and> spmc_prod_step r' t \<and> m_prod t = pc)"

lemma set_cons_at [simp]: "m_cons (set_cons i pc s) i = pc"
  by (simp add: set_cons_def)

lemma cons_decidesD:
  assumes "cons_decides i s b h v pc"
  shows "m_cons s i = MC_load_seq b h" and "v \<le> slot_seq s h"
    and "pc = (if v - (h + 1) = 0 then MC_cas b h
      else if v - (h + 1) > (- 1) div 2 then (if b then MC_wait h v else MC_idle) else MC_reload b)"
proof -
  obtain r r' t where pc: "m_cons s i = MC_load_seq b h" and load: "spmc_cons_step i s r" "m_cons r i = MC_check b h v"
    and check: "m_cons r' i = MC_check b h v" "spmc_cons_step i r' t" "m_cons t i = pc"
    using assms by (auto simp: cons_decides_def)
  show "m_cons s i = MC_load_seq b h" by (rule pc)
  show "v \<le> slot_seq s h" using load(1) pc load(2) by cases simp_all
  show "pc = (if v - (h + 1) = 0 then MC_cas b h
      else if v - (h + 1) > (- 1) div 2 then (if b then MC_wait h v else MC_idle) else MC_reload b)"
    using check(2,1,3) by cases (simp_all del: word_div_no)
qed

lemma prod_decidesD:
  assumes "prod_decides s b x w v pc"
  shows "m_prod s = MP_load_seq b x w" and "v \<le> slot_seq s w"
    and "pc = (if v = w then MP_construct x w else if b then MP_wait x w v else MP_idle)"
proof -
  obtain r r' t where pc: "m_prod s = MP_load_seq b x w" and load: "spmc_prod_step s r" "m_prod r = MP_check b x w v"
    and check: "m_prod r' = MP_check b x w v" "spmc_prod_step r' t" "m_prod t = pc"
    using assms by (auto simp: prod_decides_def)
  show "m_prod s = MP_load_seq b x w" by (rule pc)
  show "v \<le> slot_seq s w" using load(1) pc load(2) by cases simp_all
  show "pc = (if v = w then MP_construct x w else if b then MP_wait x w v else MP_idle)"
    using check(2,1,3) by cases simp_all
qed

text \<open>The slot of the oldest element shows its position.\<close>

lemma head_slot_ready:
  assumes "spmc_sys_inv s" and "unat (m_head s) < length (m_pushed s)"
  shows "slot_seq s (m_head s) - (m_head s + 1) = 0"
proof -
  note I = spmc_sys_invD [OF assms(1)]
  have "unat (slot_seq s (m_head s)) = Suc (unat (m_head s))"
    using slots_okD(4) [OF I(5), of "unat (m_head s)"] assms(2) I(10) [of "m_head s"] by simp
  then have "slot_seq s (m_head s) = m_head s + 1" using head_not_max [OF assms(1)] by (simp add: word_eq_iff_unat)
  then show ?thesis by simp
qed

text \<open>
  C27. The branches taken on the sequence number are right, as long as fewer than
  \<open>2 ^ 63 - capacity\<close> elements were pushed, for every value a thread may load and whatever
  others do before it decides. A consumer goes on to compete only for an element that was
  visible; to reload only when another consumer had overtaken it; to \<open>nullopt\<close> or \<open>wait\<close> only
  when what it loaded was stored before the element it looks for, and, with the latest value,
  only when the queue was empty; and with the latest value in the slot of the oldest element it
  does compete. The producer constructs only in a free slot; with the latest value it reports
  full or waits exactly when a whole lap of elements is in front of it, the oldest of which
  is not yet released.
\<close>

theorem spmc_reports_accurate:
  assumes "reach spmc_init spmc_step_any s"
    and "length (m_pushed s) + unat (m_capacity s) \<le> 2 ^ 63"
  shows "(cons_decides i s b h v pc \<longrightarrow>
        pc = MC_cas b h \<and> unat h < length (m_pushed s)
      \<or> pc = MC_reload b \<and> unat h < unat (m_head s)
      \<or> pc = (if b then MC_wait h v else MC_idle) \<and> unat v \<le> unat h
        \<and> (v = slot_seq s h \<longrightarrow> unat (m_head s) = length (m_pushed s) \<and> h = m_head s))
    \<and> (cons_decides i s b h v pc \<longrightarrow> v = slot_seq s h \<longrightarrow> h = m_head s \<longrightarrow>
        (pc = MC_cas b h \<longleftrightarrow> unat (m_head s) < length (m_pushed s)))
    \<and> (prod_decides s c x w u pc' \<longrightarrow> pc' = MP_construct x w \<and> m_free s \<or> pc' = (if c then MP_wait x w u else MP_idle))
    \<and> (prod_decides s c x w u pc' \<longrightarrow> u = slot_seq s w \<longrightarrow> (pc' \<noteq> MP_construct x w \<longleftrightarrow>
        (\<exists>p. length (m_pushed s) = p + unat (m_capacity s)
          \<and> (unat (m_head s) \<le> p \<or> (\<exists>j r. holds (m_cons s) j = Some (p, r))))))"
proof -
  note R = spmc_reach_inv [OF assms]
  note I = spmc_sys_invD [OF R(1)]
  have C: "pc = MC_cas b h \<and> unat h < length (m_pushed s)
      \<or> pc = MC_reload b \<and> unat h < unat (m_head s)
      \<or> pc = (if b then MC_wait h v else MC_idle) \<and> unat v \<le> unat h
        \<and> (v = slot_seq s h \<longrightarrow> unat (m_head s) = length (m_pushed s) \<and> h = m_head s)"
    and latest: "v = slot_seq s h \<Longrightarrow> h = m_head s \<Longrightarrow> pc = MC_cas b h \<longleftrightarrow> unat (m_head s) < length (m_pushed s)"
    if "cons_decides i s b h v pc"
  proof -
    note D = cons_decidesD [OF that]
    have h: "unat h \<le> unat (m_head s)" using I(8) [of i] D(1) by simp
    note L = spmc_load_decides [OF R assms(2) h D(2)]
    show C: "pc = MC_cas b h \<and> unat h < length (m_pushed s)
      \<or> pc = MC_reload b \<and> unat h < unat (m_head s)
      \<or> pc = (if b then MC_wait h v else MC_idle) \<and> unat v \<le> unat h
        \<and> (v = slot_seq s h \<longrightarrow> unat (m_head s) = length (m_pushed s) \<and> h = m_head s)"
      using L D(3) unfolding Let_def
      by (cases "v - (h + 1) = 0"; cases "v - (h + 1) > (- 1) div 2") (simp_all del: word_div_no)
    assume v: "v = slot_seq s h" "h = m_head s"
    have "pc = MC_cas b h" if "unat (m_head s) < length (m_pushed s)"
      using D(3) head_slot_ready [OF R(1) that] unfolding v by (simp only: refl if_True)
    then show "pc = MC_cas b h \<longleftrightarrow> unat (m_head s) < length (m_pushed s)"
      using C v(2) by (cases b) auto
  qed
  have P: "pc' = MP_construct x w \<and> m_free s \<or> pc' = (if c then MP_wait x w u else MP_idle)"
    and refused: "u = slot_seq s w \<Longrightarrow> pc' \<noteq> MP_construct x w \<longleftrightarrow> \<not> m_free s"
    if "prod_decides s c x w u pc'"
  proof -
    note D = prod_decidesD [OF that]
    have w: "unat w = length (m_pushed s)" using I(7) D(1) by simp
    have top: "unat (slot_seq s w) \<le> unat w" "unat (slot_seq s w) = unat w \<longleftrightarrow> m_free s"
      using slots_seq_top [OF I(5,2)] slots_seq_free [OF I(5,2)] w I(10) [of w] by (simp_all add: m_free_def)
    have "u = w \<Longrightarrow> m_free s" using D(2) top by (auto simp: word_le_nat_alt)
    then show "pc' = MP_construct x w \<and> m_free s \<or> pc' = (if c then MP_wait x w u else MP_idle)" using D(3) by auto
    assume "u = slot_seq s w"
    then have "u = w \<longleftrightarrow> m_free s" using top(2) by (auto simp: word_eq_iff_unat)
    then show "pc' \<noteq> MP_construct x w \<longleftrightarrow> \<not> m_free s" using D(3) by auto
  qed
  have "\<not> m_free s \<longleftrightarrow> (\<exists>p. length (m_pushed s) = p + unat (m_capacity s)
      \<and> (unat (m_head s) \<le> p \<or> (\<exists>j r. holds (m_cons s) j = Some (p, r))))"
    unfolding m_free_def by (rule not_free_pos)
  with C latest P refused show ?thesis by blast
qed

text \<open>A third consumer looks at the full, fully claimed queue of capacity 2.\<close>

definition duo_look :: "nat spmc_sys" where
  "duo_look = set_cons 2 (MC_load_seq False 2) duo_full"

lemma duo_look_fields:
  "m_capacity duo_look = 2" "m_mask duo_look = 1" "m_head duo_look = 2" "m_pushed duo_look = [7, 8]"
  "m_slots duo_look = [sl2 1 (Some 7), sl2 3 None]" "m_prod duo_look = MP_load_seq True 9 2"
  "m_cons duo_look = (\<lambda>_. MC_idle)(0 := MC_move 0, 1 := MC_parked 2 1, 2 := MC_load_seq False 2)"
  by (simp_all add: duo_look_def duo_full_def duo_def set_cons_def)

lemma duo_look_reach: "reach spmc_init spmc_step_any duo_look"
proof -
  have "m_cons duo_full 2 = MC_idle" "2 \<le> m_head duo_full" by (simp_all add: duo_full_def duo_def)
  then have "spmc_cons_step 2 duo_full duo_look" unfolding duo_look_def by (rule mc_call)
  then have "spmc_step_any duo_full duo_look" by (auto simp: spmc_step_any_def spmc_step_def)
  with duo_full_reach show ?thesis by (rule reach_step)
qed

lemma duo_look_decides:
  "cons_decides 2 duo_look False 2 1 MC_idle" "prod_decides duo_look True 9 2 1 (MP_wait 9 2 1)"
proof -
  have seq: "slot_seq duo_look 2 = 1" by (simp add: duo_look_fields sl2_fields)
  let ?r = "set_cons 2 (MC_check False 2 1) duo_look"
  have "m_cons duo_look 2 = MC_load_seq False 2" by (simp add: duo_look_fields)
  moreover from this have "spmc_cons_step 2 duo_look ?r" by (rule mc_load) (simp add: seq)
  moreover have "spmc_cons_step 2 ?r (set_cons 2 MC_idle ?r)" by (rule mc_empty [of _ _ 2 1]) simp_all
  ultimately show "cons_decides 2 duo_look False 2 1 MC_idle"
    unfolding cons_decides_def by (intro exI [of _ ?r] exI [of _ "set_cons 2 MC_idle ?r"]) simp
  let ?p = "duo_look\<lparr>m_prod := MP_check True 9 2 1\<rparr>"
  have "m_prod duo_look = MP_load_seq True 9 2" by (simp add: duo_look_fields)
  moreover from this have "spmc_prod_step duo_look ?p" by (rule mp_load) (simp add: seq)
  moreover have "spmc_prod_step ?p (?p\<lparr>m_prod := MP_wait 9 2 1\<rparr>)" by (rule mp_block) simp_all
  ultimately show "prod_decides duo_look True 9 2 1 (MP_wait 9 2 1)"
    unfolding prod_decides_def by (intro exI [of _ ?p] exI [of _ "?p\<lparr>m_prod := MP_wait 9 2 1\<rparr>"]) simp
qed

theorem spmc_reports_accurate_witness:
  "unat (m_head duo_look) = length (m_pushed duo_look)
   \<and> (\<exists>p. length (m_pushed duo_look) = p + unat (m_capacity duo_look)
     \<and> (unat (m_head duo_look) \<le> p \<or> (\<exists>j r. holds (m_cons duo_look) j = Some (p, r))))"
proof -
  have "slot_seq duo_look 2 = 1" "length (m_pushed duo_look) + unat (m_capacity duo_look) \<le> 2 ^ 63"
    by (simp_all add: duo_look_fields sl2_fields)
  with spmc_reports_accurate [OF duo_look_reach, of 2 False 2 1 MC_idle True 9 2 1 "MP_wait 9 2 1"] duo_look_decides
  show ?thesis by (simp del: One_nat_def) (auto simp: duo_look_fields)
qed

lemma wake_one_total: "\<exists>t. wake_one j s t"
proof (cases "\<exists>x w q. m_prod s = MP_parked x w q \<and> slot_ix s w = j")
  case True
  then obtain x w q where "m_prod s = MP_parked x w q" "slot_ix s w = j" by blast
  from wake_prod [OF this] show ?thesis by blast
next
  case False
  then show ?thesis
    using wake_cons [of s _ _ _ j] wake_none [of s j] by blast
qed

text \<open>Every claimed position has a consumer that holds it or has returned its element.\<close>

lemma claimed_by_somebody:
  assumes "spmc_sys_inv s" and "p < unat (m_head s)"
  shows "\<exists>j. takes (m_cons s) j = Some p \<or> (\<exists>v. (j, p, v) \<in> set (m_log s))"
  using ledger_cover [OF spmc_sys_invD(6) [OF assms(1)], of p] assms(2) by force

text \<open>
  C28. No thread of SPMCQueue can get stuck except by blocking in \<open>wait\<close>: in every reachable
  state a thread that is not parked has a step (a consumer that has won the compare-exchange
  never finds an empty slot). A consumer at its compare-exchange claims position \<open>h\<close> or, on a
  failure, starts over with another load. If \<open>head_\<close> still is \<open>h\<close> it can succeed, and then the
  element is there to be taken; if \<open>head_\<close> has moved it cannot, and then the position was
  claimed by a consumer, which has it in its hands or has returned it: the queue as a whole
  made progress.
\<close>

theorem spmc_threads_enabled:
  assumes "reach spmc_init spmc_step_any s" and "length (m_pushed s) < 2 ^ 63"
  shows "(Ex (spmc_prod_step s) \<or> (\<exists>x t seq. m_prod s = MP_parked x t seq))
    \<and> (Ex (spmc_cons_step i s) \<or> (\<exists>h seq. m_cons s i = MC_parked h seq))
    \<and> (m_cons s i = MC_cas b h \<longrightarrow>
        (\<forall>t. spmc_cons_step i s t \<longrightarrow> m_cons t i = MC_move h \<and> m_head s = h \<and> m_head t = h + 1
          \<or> (\<exists>h'. m_cons t i = MC_load_seq b h') \<and> m_head t = m_head s)
      \<and> (if m_head s = h
         then (\<exists>t v u. spmc_cons_step i s t \<and> m_cons t i = MC_move h \<and> spmc_cons_step i t u
           \<and> m_cons u i = MC_release h v \<and> v = m_pushed s ! unat h)
         else (\<exists>j. takes (m_cons s) j = Some (unat h) \<or> (\<exists>v. (j, unat h, v) \<in> set (m_log s)))))"
proof -
  note inv = spmc_sys.reach_inv [OF assms]
  note I = spmc_sys_invD [OF inv]
  have "Ex (spmc_prod_step s) \<or> (\<exists>x t seq. m_prod s = MP_parked x t seq)"
  proof (cases "m_prod s")
    case (MP_check b x t q)
    then show ?thesis by (metis (full_types) mp_free mp_full mp_block)
  next
    case (MP_wait x t q)
    then show ?thesis by (cases "slot_seq s t = q") (blast intro: mp_park mp_resume)+
  qed (blast intro: spmc_prod_step.intros)+
  moreover have "Ex (spmc_cons_step i s) \<or> (\<exists>h seq. m_cons s i = MC_parked h seq)"
  proof (cases "m_cons s i")
    case (MC_check b h q)
    then show ?thesis by (metis (full_types) mc_ready mc_empty mc_block mc_stale)
  next
    case (MC_wait h q)
    then show ?thesis by (cases "slot_seq s h = q") (blast intro: mc_park mc_resume)+
  next
    case (MC_move h)
    then have "holds (m_cons s) i = Some (unat h, None)" by (simp add: holds_def)
    then have "sl_storage (m_slots s ! slot_ix s h) = Some (m_pushed s ! unat h)"
      using slots_okD(5) [OF I(5), of i "unat h" None] I(10) [of h] by simp
    from mc_move [OF MC_move this] show ?thesis by blast
  next
    case (MC_notify h v)
    then show ?thesis using wake_one_total [of "slot_ix s h" s] by (blast intro: mc_notify)
  qed (blast intro: spmc_cons_step.intros)+
  moreover have "m_cons t i = MC_move h \<and> m_head s = h \<and> m_head t = h + 1
      \<or> (\<exists>h'. m_cons t i = MC_load_seq b h') \<and> m_head t = m_head s"
    if "spmc_cons_step i s t" "m_cons s i = MC_cas b h" for t
    using that by cases (simp_all add: set_cons_def)
  moreover have "\<exists>t v u. spmc_cons_step i s t \<and> m_cons t i = MC_move h \<and> spmc_cons_step i t u
      \<and> m_cons u i = MC_release h v \<and> v = m_pushed s ! unat h"
    if cas: "m_cons s i = MC_cas b h" "m_head s = h"
  proof -
    let ?t = "set_cons i (MC_move h) (s\<lparr>m_head := h + 1\<rparr>)"
    have "unat h < length (m_pushed s)" using I(8) [of i] cas(1) by simp
    then have "sl_storage (m_slots s ! slot_ix s h) = Some (m_pushed s ! unat h)"
      using slots_okD(4) [OF I(5), of "unat h"] I(10) [of h] cas(2) by simp
    then have "spmc_cons_step i ?t (set_cons i (MC_release h (m_pushed s ! unat h)) (set_storage h None ?t))"
      by (intro mc_move) (simp_all add: set_cons_def)
    with mc_cas_ok [OF cas] show ?thesis by (metis set_cons_at)
  qed
  moreover have "\<exists>j. takes (m_cons s) j = Some (unat h) \<or> (\<exists>v. (j, unat h, v) \<in> set (m_log s))"
    if cas: "m_cons s i = MC_cas b h" "m_head s \<noteq> h"
  proof -
    have "unat h \<le> unat (m_head s)" using I(8) [of i] cas(1) by simp
    with cas(2) show ?thesis by (intro claimed_by_somebody [OF inv]) (simp add: word_eq_iff_unat)
  qed
  ultimately show ?thesis by simp
qed

text \<open>One element in a queue of capacity 2, and a consumer about to compete for it.\<close>

definition duo_racing :: "nat spmc_sys" where
  "duo_racing = duo [sl2 1 (Some 7), sl2 1 None] 0 1 MP_idle (MC_cas False 0) MC_idle [7] []"

lemma duo_racing_reach: "reach spmc_init spmc_step_any duo_racing"
proof -
  define s0 where "s0 = duo [sl2 1 (Some 7), sl2 1 None] 0 1 MP_idle MC_idle MC_idle [7] []"
  define s1 where "s1 = set_cons 0 (MC_load_seq False 0) s0"
  define s2 where "s2 = set_cons 0 (MC_check False 0 1) s1"
  have "spmc_cons_step 0 s0 s1" unfolding s1_def by (rule mc_call) (simp_all add: s0_def duo_def)
  moreover have "spmc_cons_step 0 s1 s2"
    unfolding s2_def by (rule mc_load [of _ _ False 0]) (simp_all add: s1_def s0_def duo_def set_cons_def sl2_fields)
  moreover have "spmc_cons_step 0 s2 (set_cons 0 (MC_cas False 0) s2)"
    by (rule mc_ready [of _ _ False 0 1]) (simp_all add: s2_def)
  moreover have "set_cons 0 (MC_cas False 0) s2 = duo_racing"
    by (simp add: s2_def s1_def s0_def duo_racing_def duo_def set_cons_def fun_eq_iff)
  moreover have "reach spmc_init spmc_step s0" unfolding s0_def by (rule calm_reach [OF duo_run_push])
  ultimately show ?thesis by (metis duo_cons_step duo_reach reach_any)
qed

theorem spmc_threads_enabled_witness:
  "Ex (spmc_prod_step duo_racing) \<and> (\<exists>t u. spmc_cons_step 0 duo_racing t \<and> spmc_cons_step 0 t u \<and> m_cons u 0 = MC_release 0 7)"
  using spmc_threads_enabled [OF duo_racing_reach, of 0 False 0] by (simp add: duo_racing_def duo_def) blast

section \<open>A wake-up that is lost\<close>

text \<open>
  The states in which nothing can happen any more: both kinds of thread wait on slot 0, which
  is free, and no notification is outstanding.
\<close>

fun dozing :: "nat mcons \<Rightarrow> bool" where
  "dozing MC_idle \<longleftrightarrow> True"
| "dozing (MC_load_seq b h) \<longleftrightarrow> h \<le> 2"
| "dozing (MC_check b h seq) \<longleftrightarrow> h \<le> 2 \<and> seq \<le> 3 \<and> (h = 2 \<longrightarrow> seq \<le> 2)"
| "dozing (MC_reload b) \<longleftrightarrow> True"
| "dozing (MC_cas b h) \<longleftrightarrow> h \<le> 1"
| "dozing (MC_wait h seq) \<longleftrightarrow> h \<le> 2 \<and> seq \<le> h"
| "dozing (MC_parked h seq) \<longleftrightarrow> h = 2 \<and> seq = 2"
| "dozing _ \<longleftrightarrow> False"

definition frozen :: "nat spmc_sys \<Rightarrow> bool" where
  "frozen s \<longleftrightarrow> m_mask s = 1 \<and> m_head s = 2 \<and> m_slots s = [sl2 2 None, sl2 3 None]
     \<and> m_prod s = MP_parked 9 2 1 \<and> m_log s = [(1, 1, 8), (0, 0, 7)] \<and> (\<forall>i. dozing (m_cons s i))"

lemma frozen_dozing: "frozen s \<Longrightarrow> m_cons s i = pc \<Longrightarrow> dozing pc"
  by (auto simp: frozen_def)

lemma frozen_set_cons: "frozen s \<Longrightarrow> dozing pc \<Longrightarrow> frozen (set_cons i pc s)"
  by (simp add: frozen_def set_cons_def)

lemma frozen_seq: "frozen s \<Longrightarrow> slot_seq s 2 = 2"
  by (simp add: frozen_def sl2_fields)

lemma below_2: "(h :: size_t) \<le> 2 \<Longrightarrow> h = 0 \<or> h = 1 \<or> h = 2"
  by (auto simp: word_le_nat_alt word_eq_iff_unat)

lemma below_3: "(h :: size_t) \<le> 3 \<Longrightarrow> h = 0 \<or> h = 1 \<or> h = 2 \<or> h = 3"
  by (auto simp: word_le_nat_alt word_eq_iff_unat)

text \<open>The sequence number in the slot of a current or stale \<open>h\<close>.\<close>

lemma frozen_load: "frozen s \<Longrightarrow> h \<le> 2 \<Longrightarrow> slot_seq s h = (if h = 1 then 3 else 2)"
  using below_2 [of h] by (auto simp: frozen_def sl2_fields)

lemma frozen_head: "frozen s \<Longrightarrow> m_head s = 2"
  by (simp add: frozen_def)

lemma frozen_cons_step:
  assumes "spmc_cons_step i s t" and f: "frozen s"
  shows "frozen t"
  using assms(1)
proof cases
  case (mc_call b h)
  then show ?thesis using f by (simp add: frozen_set_cons frozen_head)
next
  case (mc_load b h q)
  then have "h \<le> 2" "q \<le> (if h = 1 then 3 else 2)"
    using frozen_dozing [OF f mc_load(2)] frozen_load [OF f, of h] by simp_all
  then show ?thesis using mc_load(1) f below_2 [of h] by (auto simp: frozen_set_cons word_le_nat_alt)
next
  case (mc_ready b h q)
  then have "q = h + 1" by simp
  then have "h \<le> 1" using frozen_dozing [OF f mc_ready(2)] below_2 [of h] by (auto simp: word_le_nat_alt)
  then show ?thesis using mc_ready(1) f by (simp add: frozen_set_cons)
next
  case (mc_empty h q)
  then show ?thesis using f by (simp add: frozen_set_cons)
next
  case (mc_block h q)
  have q: "h \<le> 2" "q \<le> 3" using frozen_dozing [OF f mc_block(2)] by simp_all
  have "q \<le> h" using mc_block(3,4) below_2 [OF q(1)] below_3 [OF q(2)] by (auto simp: word_less_nat_alt word_le_nat_alt)
  then show ?thesis using mc_block(1) q f by (simp add: frozen_set_cons)
next
  case (mc_stale b h q)
  then show ?thesis using f by (simp add: frozen_set_cons)
next
  case (mc_park h q)
  have d: "h \<le> 2" "q \<le> h" using frozen_dozing [OF f mc_park(2)] by simp_all
  then have "q = (if h = 1 then 3 else 2)" using mc_park(3) frozen_load [OF f d(1)] by simp
  then have "h = 2 \<and> q = 2" using d below_2 [of h] by (auto simp: word_le_nat_alt split: if_splits)
  then show ?thesis using mc_park(1) f by (simp add: frozen_set_cons)
next
  case (mc_resume h q)
  then show ?thesis using f frozen_dozing [OF f mc_resume(2)] by (simp add: frozen_set_cons)
next
  case (mc_reload b h)
  then show ?thesis using f by (simp add: frozen_set_cons frozen_head)
next
  case (mc_cas_ok b h)
  then show ?thesis using frozen_dozing [OF f mc_cas_ok(2)] frozen_head [OF f] by (auto simp: word_le_nat_alt)
next
  case (mc_cas_fail b h h')
  then show ?thesis using f by (simp add: frozen_set_cons frozen_head)
next
  case (mc_move h v)
  then show ?thesis using frozen_dozing [OF f mc_move(2)] by simp
next
  case (mc_release h v)
  then show ?thesis using frozen_dozing [OF f mc_release(2)] by simp
next
  case (mc_notify h v s')
  then show ?thesis using frozen_dozing [OF f mc_notify(2)] by simp
qed

lemma frozen_step: "spmc_step s t \<Longrightarrow> frozen s \<Longrightarrow> frozen t"
  unfolding spmc_step_def
  by (auto dest: frozen_cons_step) (auto simp: frozen_def elim: spmc_prod_step.cases)

lemma frozen_forever: "reach frozen spmc_step s \<Longrightarrow> frozen s"
  by (induction rule: reach.induct) (auto dest: frozen_step)

lemma reach_weaken: "reach init step s \<Longrightarrow> (\<And>s. init s \<Longrightarrow> init' s) \<Longrightarrow> reach init' step s"
  by (induction rule: reach.induct) (auto intro: reach_init reach_step)

text \<open>
  C10. \<open>pop_wait\<close> and \<open>emplace_wait\<close> can lose a wake-up, because a consumer that releases a
  slot notifies one waiter and the waiter may be another consumer. There is a reachable state
  of a queue of capacity 2, with two consumers, in which the producer is blocked in
  \<open>emplace_wait\<close> although the slot it waits for is free, and in which nothing that the
  threads do afterwards ever releases the producer or delivers an element: consumers that
  call \<open>pop_wait\<close> block as well and those that call \<open>try_pop\<close> find the queue empty.
\<close>

theorem spmc_lost_wakeup:
  "\<exists>s :: nat spmc_sys. reach spmc_init spmc_step s
     \<and> m_prod s = MP_parked 9 2 1 \<and> slot_seq s 2 = 2 \<and> m_free s
     \<and> m_cons s 0 = MC_parked 2 2 \<and> m_cons s 1 = MC_parked 2 2
     \<and> \<not> (\<exists>t. reach (\<lambda>r. r = s) spmc_step t
            \<and> (m_prod t, m_log t, m_head t) \<noteq> (m_prod s, m_log s, m_head s))"
proof -
  have f: "frozen duo_lost" by (simp add: frozen_def duo_defs)
  have "frozen t" if "reach (\<lambda>r. r = duo_lost) spmc_step t" for t
    using frozen_forever [OF reach_weaken [OF that]] f by simp
  then have "\<not> (\<exists>t. reach (\<lambda>r. r = duo_lost) spmc_step t
      \<and> (m_prod t, m_log t, m_head t) \<noteq> (m_prod duo_lost, m_log duo_lost, m_head duo_lost))"
    using f by (auto simp: frozen_def)
  moreover have "m_free duo_lost" by (simp add: m_free_def free_pos_def holds_def duo_defs)
  moreover have "slot_seq duo_lost 2 = 2" using f by (rule frozen_seq)
  ultimately show ?thesis
    using duo_lost_reach by (intro exI [of _ duo_lost]) (simp add: duo_defs)
qed

end
