(* ===== verification/Spmc_Wakeup.thy ===== *)
theory Spmc_Wakeup
  imports Spmc_Concurrent
begin

text \<open>
  Who may sleep in \<open>SPMCQueue\<close>. A consumer in \<open>pop_wait\<close> never sleeps beside an element: it is
  parked only while the queue is empty, or until the producer has finished the call whose
  \<open>notify_all\<close> is on its way. A producer in \<open>emplace_wait\<close> never sleeps beside a free slot as
  long as the consumers use \<open>try_pop\<close>; \<open>spmc_lost_wakeup\<close> is the run with \<open>pop_wait\<close>. Spurious
  releases are allowed and never relied on.
\<close>

section \<open>Sleeping consumers\<close>

text \<open>The producer has stored the sequence number of position \<open>h\<close> and has not notified yet.\<close>

fun notify_due :: "'a mprod \<Rightarrow> size_t \<Rightarrow> bool" where
  "notify_due (MP_store_tail t) h \<longleftrightarrow> h = t"
| "notify_due (MP_notify t) h \<longleftrightarrow> h = t"
| "notify_due _ h \<longleftrightarrow> False"

text \<open>\<open>T\<close> elements are visible; \<open>due h\<close> says whether a notification for \<open>h\<close> is on its way.\<close>

fun sleeper_ok :: "nat \<Rightarrow> nat \<Rightarrow> (size_t \<Rightarrow> bool) \<Rightarrow> 'a mcons \<Rightarrow> bool" where
  "sleeper_ok L T due (MC_check b h seq) \<longleftrightarrow> unat seq < T + L"
| "sleeper_ok L T due (MC_wait h seq) \<longleftrightarrow> unat seq \<le> unat h"
| "sleeper_ok L T due (MC_parked h seq) \<longleftrightarrow> unat seq \<le> unat h \<and> (unat h < T \<longrightarrow> due h)"
| "sleeper_ok L T due _ \<longleftrightarrow> True"

definition sleepers_ok :: "'a spmc_sys \<Rightarrow> bool" where
  "sleepers_ok s \<longleftrightarrow>
     (\<forall>i. sleeper_ok (unat (m_capacity s)) (length (m_pushed s)) (notify_due (m_prod s)) (m_cons s i))"

lemma sleepersI:
  assumes "\<And>i. sleeper_ok (unat (m_capacity s)) (length (m_pushed s)) (notify_due (m_prod s)) (m_cons s i)"
  shows "sleepers_ok s"
  using assms by (simp add: sleepers_ok_def)

lemma sleepersD:
  "sleepers_ok s \<Longrightarrow>
    sleeper_ok (unat (m_capacity s)) (length (m_pushed s)) (notify_due (m_prod s)) (m_cons s i)"
  by (simp add: sleepers_ok_def)

lemma sleeper_ok_mono:
  "sleeper_ok L T due pc \<Longrightarrow> (\<And>h. due h \<Longrightarrow> due' h) \<Longrightarrow> sleeper_ok L T due' pc"
  by (cases pc) auto

lemma sleepers_prod:
  assumes "sleepers_ok s" and "\<And>h. notify_due (m_prod s) h \<Longrightarrow> notify_due pc h"
  shows "sleepers_ok (s\<lparr>m_prod := pc\<rparr>)"
  using sleeper_ok_mono [OF sleepersD [OF assms(1)] assms(2)] by (intro sleepersI) simp

lemma sleepers_cons:
  assumes "sleepers_ok s"
    and "sleeper_ok (unat (m_capacity s)) (length (m_pushed s)) (notify_due (m_prod s)) pc"
  shows "sleepers_ok (set_cons i pc s)"
  using assms by (simp add: sleepers_ok_def set_cons_def)

lemma sleepers_frame:
  assumes "sleepers_ok s" and "m_capacity t = m_capacity s" and "m_pushed t = m_pushed s"
    and "m_prod t = m_prod s" and "m_cons t = m_cons s"
  shows "sleepers_ok t"
  using assms by (simp add: sleepers_ok_def)

text \<open>A consumer that is about to park compares with the latest value, so its element is not there.\<close>

lemma parks_on_empty:
  assumes inv: "spmc_sys_inv s" and pc: "m_cons s i = MC_wait h seq" and le: "unat seq \<le> unat h"
    and eq: "slot_seq s h = seq"
  shows "length (m_pushed s) \<le> unat h"
proof (rule ccontr)
  note I = spmc_sys_invD [OF inv]
  assume "\<not> length (m_pushed s) \<le> unat h"
  moreover have "unat h \<le> unat (m_head s)" using I(8) [of i] pc by simp
  ultimately have "unat h < unat (slot_seq s h)"
    using slots_seq_bounds [OF I(5,2), of "unat h"] I(10) [of h] by simp
  with le eq show False by simp
qed

text \<open>The producer makes an element visible: whoever is parked for it will be notified.\<close>

lemma sleepers_publish:
  assumes S: "sleepers_ok s" and pc: "m_prod s = MP_store_seq x t" and t: "unat t = length (m_pushed s)"
  shows "sleepers_ok ((set_seq t v s)\<lparr>m_pushed := m_pushed s @ [x], m_prod := MP_store_tail t\<rparr>)"
proof (rule sleepersI)
  fix i
  have "h = t" if "unat h < Suc (length (m_pushed s))" "m_cons s i = MC_parked h q" for h q
  proof -
    have "\<not> unat h < length (m_pushed s)" using sleepersD [OF S, of i] that(2) pc by auto
    with that(1) t show ?thesis by (simp add: word_eq_iff_unat)
  qed
  with sleepersD [OF S, of i] pc show "sleeper_ok
      (unat (m_capacity ((set_seq t v s)\<lparr>m_pushed := m_pushed s @ [x], m_prod := MP_store_tail t\<rparr>)))
      (length (m_pushed ((set_seq t v s)\<lparr>m_pushed := m_pushed s @ [x], m_prod := MP_store_tail t\<rparr>)))
      (notify_due (m_prod ((set_seq t v s)\<lparr>m_pushed := m_pushed s @ [x], m_prod := MP_store_tail t\<rparr>)))
      (m_cons ((set_seq t v s)\<lparr>m_pushed := m_pushed s @ [x], m_prod := MP_store_tail t\<rparr>) i)"
    by (cases "m_cons s i") (auto simp: set_seq_def)
qed

lemma sleepers_notify:
  assumes S: "sleepers_ok s" and pc: "m_prod s = MP_notify t"
  shows "sleepers_ok ((wake_all (slot_ix s t) s)\<lparr>m_prod := MP_idle\<rparr>)"
proof (rule sleepersI)
  fix i
  show "sleeper_ok (unat (m_capacity ((wake_all (slot_ix s t) s)\<lparr>m_prod := MP_idle\<rparr>)))
      (length (m_pushed ((wake_all (slot_ix s t) s)\<lparr>m_prod := MP_idle\<rparr>)))
      (notify_due (m_prod ((wake_all (slot_ix s t) s)\<lparr>m_prod := MP_idle\<rparr>)))
      (m_cons ((wake_all (slot_ix s t) s)\<lparr>m_prod := MP_idle\<rparr>) i)"
    using sleepersD [OF S, of i] pc by (cases "m_cons s i") (auto simp: wake_all_def)
qed

lemma sleepers_prod_step:
  assumes step: "spmc_prod_step s t" and inv: "spmc_sys_inv s" and S: "sleepers_ok s"
  shows "sleepers_ok t"
  using step
proof cases
  case (mp_construct x w)
  have "sleepers_ok (set_storage w (Some x) s)" using S by (rule sleepers_frame) (simp_all add: set_storage_def)
  then show ?thesis using mp_construct sleepers_prod [of "set_storage w (Some x) s"] by (simp add: set_storage_def)
next
  case (mp_store_seq x w)
  then show ?thesis using sleepers_publish [OF S, of x w] spmc_sys_invD(7) [OF inv] by simp
next
  case (mp_store_tail w)
  have "sleepers_ok (s\<lparr>m_tail := w + 1\<rparr>)" using S by (rule sleepers_frame) simp_all
  then show ?thesis using mp_store_tail sleepers_prod [of "s\<lparr>m_tail := w + 1\<rparr>" "MP_notify w"] by simp
next
  case (mp_notify w)
  then show ?thesis using sleepers_notify [OF S] by simp
qed (use sleepers_prod [OF S] in simp_all)

lemma sleepers_wake_one:
  assumes "wake_one j s t" and S: "sleepers_ok s"
  shows "sleepers_ok t"
  using assms(1)
proof cases
  case (wake_prod x w q)
  then show ?thesis using sleepers_prod [OF S] by simp
next
  case (wake_cons i h q)
  then show ?thesis using sleepers_cons [OF S, of "MC_wait h q"] sleepersD [OF S, of i] by simp
qed (use S in simp)

lemma sleepers_cons_step:
  assumes step: "spmc_cons_step i s t" and inv: "spmc_sys_inv s" and S: "sleepers_ok s"
    and cap: "length (m_pushed s) + unat (m_capacity s) \<le> 2 ^ 63"
  shows "sleepers_ok t"
proof -
  note I = spmc_sys_invD [OF inv]
  note C = I(8) [of i] and Z = sleepersD [OF S, of i]
  from step show ?thesis
  proof cases
    case (mc_load b h q)
    have "unat (slot_seq s h) < length (m_pushed s) + unat (m_capacity s)"
      using slots_seq_bounds [OF I(5,2), of "unat h"] C mc_load(2) I(10) [of h] by simp
    then show ?thesis using mc_load sleepers_cons [OF S, of "MC_check b h q"] by (simp add: word_le_nat_alt)
  next
    case (mc_block h q)
    have "unat h < 2 ^ 63" "unat q < 2 ^ 63" using C Z mc_block(2) I(4,9) cap by auto
    then have "unat q \<le> unat h" using diff_behind mc_block(4) by blast
    then show ?thesis using mc_block(1) sleepers_cons [OF S] by simp
  next
    case (mc_park h q)
    then have "unat q \<le> unat h" using Z by simp
    moreover from parks_on_empty [OF inv mc_park(2) this mc_park(3)] have "\<not> unat h < length (m_pushed s)" by simp
    ultimately show ?thesis using mc_park(1) sleepers_cons [OF S, of "MC_parked h q"] by simp
  next
    case (mc_cas_ok b h)
    have "sleepers_ok (s\<lparr>m_head := h + 1\<rparr>)" using S by (rule sleepers_frame) simp_all
    then show ?thesis using mc_cas_ok sleepers_cons [of "s\<lparr>m_head := h + 1\<rparr>" "MC_move h"] by simp
  next
    case (mc_move h v)
    have "sleepers_ok (set_storage h None s)" using S by (rule sleepers_frame) (simp_all add: set_storage_def)
    then show ?thesis using mc_move sleepers_cons [of "set_storage h None s" "MC_release h v"] by simp
  next
    case (mc_release h v)
    have "sleepers_ok (set_seq h (h + m_capacity s) s)" using S by (rule sleepers_frame) (simp_all add: set_seq_def)
    then show ?thesis using mc_release sleepers_cons [of "set_seq h (h + m_capacity s) s" "MC_notify h v"] by simp
  next
    case (mc_notify h v r)
    have "sleepers_ok (r\<lparr>m_log := m_log s @ [(i, unat h, v)]\<rparr>)"
      using sleepers_wake_one [OF mc_notify(3) S] by (rule sleepers_frame) simp_all
    then show ?thesis using mc_notify sleepers_cons [where pc = MC_idle] by simp
  qed (use sleepers_cons [OF S] in simp_all)
qed

lemma sleepers_step:
  assumes step: "spmc_step_any s t" and inv: "spmc_sys_inv s" and S: "sleepers_ok s"
    and cap: "length (m_pushed s) + unat (m_capacity s) \<le> 2 ^ 63"
  shows "sleepers_ok t"
proof -
  consider "spmc_prod_step s t" | i where "spmc_cons_step i s t" | "spurious_wake s t"
    using step unfolding spmc_step_any_def spmc_step_def by blast
  then show ?thesis
  proof cases
    case 3
    then show ?thesis
    proof cases
      case (spurious_prod x w q)
      then show ?thesis using sleepers_prod [OF S] by simp
    next
      case (spurious_cons i h q)
      then show ?thesis using sleepers_cons [OF S, of "MC_wait h q"] sleepersD [OF S, of i] by simp
    qed
  qed (use sleepers_prod_step [OF _ inv S] sleepers_cons_step [OF _ inv S cap] in blast)+
qed

lemma spmc_init_idle: "spmc_init s \<Longrightarrow> m_prod s = MP_idle \<and> m_cons s i = MC_idle"
  by (auto simp: spmc_init_def spmc_boot_def)

interpretation sleepers: guarded_machine spmc_init spmc_step_any "\<lambda>s. spmc_sys_inv s \<and> sleepers_ok s"
  "\<lambda>s. length (m_pushed s) + unat (m_capacity s)" "2 ^ 63"
proof unfold_locales
  show "spmc_sys_inv s \<and> sleepers_ok s" if "spmc_init s" for s :: "'a spmc_sys"
    using spmc_sys_inv_init [OF that] spmc_init_idle [OF that] by (simp add: sleepers_ok_def)
  show "length (m_pushed s) + unat (m_capacity s) \<le> length (m_pushed t) + unat (m_capacity t)"
    if "spmc_step_any s t" for s t :: "'a spmc_sys"
    using spmc_step_any_pushed [OF that] spmc_step_any_capacity [OF that] by simp
  show "spmc_sys_inv t \<and> sleepers_ok t"
    if "spmc_sys_inv s \<and> sleepers_ok s" "spmc_step_any s t" "length (m_pushed t) + unat (m_capacity t) < 2 ^ 63"
    for s t :: "'a spmc_sys"
    using that spmc_step_any_pushed [OF that(2)] spmc_step_any_capacity [OF that(2)]
      spmc_any_keeps_inv [OF that(2)] sleepers_step [OF that(2)] by simp
qed

section \<open>A sleeping producer\<close>

text \<open>A notification for the slot of position \<open>t\<close> is on its way.\<close>

definition release_due :: "'a spmc_sys \<Rightarrow> size_t \<Rightarrow> bool" where
  "release_due s t \<longleftrightarrow> (\<exists>i h v. m_cons s i = MC_notify h v \<and> slot_ix s h = slot_ix s t)"

definition awaiting_ok :: "'a spmc_sys \<Rightarrow> bool" where
  "awaiting_ok s \<longleftrightarrow> (\<forall>i h seq. m_cons s i \<noteq> MC_wait h seq \<and> m_cons s i \<noteq> MC_parked h seq)
     \<and> (\<forall>x t seq. m_prod s = MP_wait x t seq \<longrightarrow> seq \<noteq> t)
     \<and> (\<forall>x t seq. m_prod s = MP_parked x t seq \<longrightarrow> seq \<noteq> t \<and> (slot_seq s t = t \<longrightarrow> release_due s t))"

lemma awaitingD:
  assumes "awaiting_ok s"
  shows "m_cons s i \<noteq> MC_wait h seq" "m_cons s i \<noteq> MC_parked h seq"
    "m_prod s = MP_wait x t seq \<Longrightarrow> seq \<noteq> t"
    "m_prod s = MP_parked x t seq \<Longrightarrow> seq \<noteq> t"
    "m_prod s = MP_parked x t seq \<Longrightarrow> slot_seq s t = t \<Longrightarrow> release_due s t"
  using assms by (simp_all add: awaiting_ok_def)

lemma awaitingI:
  assumes "\<And>i h seq. m_cons s i \<noteq> MC_wait h seq" "\<And>i h seq. m_cons s i \<noteq> MC_parked h seq"
    and "\<And>x t seq. m_prod s = MP_wait x t seq \<Longrightarrow> seq \<noteq> t"
    and "\<And>x t seq. m_prod s = MP_parked x t seq \<Longrightarrow> seq \<noteq> t"
    and "\<And>x t seq. m_prod s = MP_parked x t seq \<Longrightarrow> slot_seq s t = t \<Longrightarrow> release_due s t"
  shows "awaiting_ok s"
  using assms by (simp add: awaiting_ok_def)

lemma awaiting_prod_step:
  assumes step: "spmc_prod_step s t" and A: "awaiting_ok s"
  shows "awaiting_ok t"
proof -
  note D = awaitingD [OF A]
  have c: "m_cons t i \<noteq> MC_wait h q" "m_cons t i \<noteq> MC_parked h q" for i h q
    using step D(1,2) [of i] by (cases; auto simp: set_storage_def set_seq_def wake_all_def split: mcons.splits)+
  show ?thesis
  proof (rule awaitingI [OF c])
    show "q \<noteq> w" if "m_prod t = MP_wait x w q" for x w q
      using step that by cases auto
    show "q \<noteq> w" if "m_prod t = MP_parked x w q" for x w q
      using step that D(3) by cases auto
    show "release_due t w" if "m_prod t = MP_parked x w q" "slot_seq t w = w" for x w q
      using step that D(3) by cases auto
  qed
qed

text \<open>A step of a consumer that leaves the slots alone and is not its notification.\<close>

lemma awaiting_frame:
  assumes A: "awaiting_ok s" and "m_prod t = m_prod s" and q: "\<And>p. slot_seq t p = slot_seq s p" and "m_mask t = m_mask s"
    and c: "\<And>h seq. pc \<noteq> MC_wait h seq \<and> pc \<noteq> MC_parked h seq" "m_cons t = (m_cons s)(i := pc)"
    and n: "\<And>h v. m_cons s i \<noteq> MC_notify h v"
  shows "awaiting_ok t"
proof (rule awaitingI)
  show "m_cons t j \<noteq> MC_wait h q" "m_cons t j \<noteq> MC_parked h q" for j h q
    using awaitingD(1,2) [OF A] c by simp_all
  show "q \<noteq> w" if "m_prod t = MP_wait x w q" for x w q
    using awaitingD(3) [OF A] that assms(2) by simp
  show "q \<noteq> w" if "m_prod t = MP_parked x w q" for x w q
    using awaitingD(4) [OF A] that assms(2) by simp
  show "release_due t w" if "m_prod t = MP_parked x w q" "slot_seq t w = w" for x w q
  proof -
    have "release_due s w" using awaitingD(5) [OF A, of x w q] that assms(2) q [of w] by simp
    then obtain j h v where j: "m_cons s j = MC_notify h v" "slot_ix s h = slot_ix s w"
      by (auto simp: release_due_def)
    with n have "j \<noteq> i" by auto
    with j c(2) assms(4) show ?thesis by (auto simp: release_due_def)
  qed
qed

lemma awaiting_pc:
  assumes "awaiting_ok s" and "\<And>h seq. pc \<noteq> MC_wait h seq \<and> pc \<noteq> MC_parked h seq"
    and "\<And>h v. m_cons s i \<noteq> MC_notify h v"
  shows "awaiting_ok (set_cons i pc s)"
  using assms by (intro awaiting_frame [OF assms(1), where i = i and pc = pc]) (simp_all add: set_cons_def)

lemma awaiting_release:
  assumes A: "awaiting_ok s" and pc: "m_cons s i = MC_release h v"
  shows "awaiting_ok (set_cons i (MC_notify h v) (set_seq h w s))"
proof (rule awaitingI)
  let ?t = "set_cons i (MC_notify h v) (set_seq h w s)"
  show "m_cons ?t j \<noteq> MC_wait k q" "m_cons ?t j \<noteq> MC_parked k q" for j k q
    using awaitingD(1,2) [OF A] by (simp_all add: set_cons_def set_seq_def)
  show "q \<noteq> p" if "m_prod ?t = MP_wait x p q" for x p q
    using awaitingD(3) [OF A] that by (simp add: set_cons_def set_seq_def)
  show "q \<noteq> p" if "m_prod ?t = MP_parked x p q" for x p q
    using awaitingD(4) [OF A] that by (simp add: set_cons_def set_seq_def)
  show "release_due ?t p" if "m_prod ?t = MP_parked x p q" "slot_seq ?t p = p" for x p q
  proof (cases "slot_ix s h = slot_ix s p")
    case True
    then show ?thesis by (auto simp: release_due_def set_cons_def set_seq_def intro: exI [of _ i])
  next
    case False
    then have "slot_seq s p = p" "m_prod s = MP_parked x p q" using that by (simp_all add: set_cons_def set_seq_def)
    with awaitingD(5) [OF A] obtain j k u where j: "m_cons s j = MC_notify k u" "slot_ix s k = slot_ix s p"
      by (auto simp: release_due_def)
    with pc have "j \<noteq> i" by auto
    with j show ?thesis by (auto simp: release_due_def set_cons_def set_seq_def intro: exI [of _ j])
  qed
qed

text \<open>A consumer notifies one waiter of its slot: that can only be the producer.\<close>

lemma awaiting_notify:
  assumes A: "awaiting_ok s" and pc: "m_cons s i = MC_notify h v" and wake: "wake_one (slot_ix s h) s r"
  shows "awaiting_ok (set_cons i MC_idle (r\<lparr>m_log := lg\<rparr>))"
proof (rule awaitingI)
  let ?t = "set_cons i MC_idle (r\<lparr>m_log := lg\<rparr>)"
  note D = awaitingD [OF A]
  have r: "m_cons r = m_cons s" "m_slots r = m_slots s" "m_mask r = m_mask s"
    using wake D(2) by (cases; auto)+
  show "m_cons ?t j \<noteq> MC_wait k q" "m_cons ?t j \<noteq> MC_parked k q" for j k q
    using D(1,2) r by (simp_all add: set_cons_def)
  show "q \<noteq> p" if "m_prod ?t = MP_wait x p q" for x p q
    using wake that D(3,4) by cases (auto simp: set_cons_def)
  show "q \<noteq> p" if "m_prod ?t = MP_parked x p q" for x p q
    using wake that D(4) by cases (auto simp: set_cons_def)
  show "release_due ?t p" if "m_prod ?t = MP_parked x p q" "slot_seq ?t p = p" for x p q
  proof -
    have p: "m_prod s = MP_parked x p q" "slot_ix s p \<noteq> slot_ix s h"
      using wake that(1) D(2) by (cases; auto simp: set_cons_def)+
    moreover have "slot_seq s p = p" using that(2) r by (simp add: set_cons_def)
    ultimately obtain j k u where j: "m_cons s j = MC_notify k u" "slot_ix s k = slot_ix s p"
      using D(5) by (auto simp: release_due_def)
    then have "j \<noteq> i" using pc p(2) by auto
    with j r show ?thesis by (auto simp: release_due_def set_cons_def intro: exI [of _ j])
  qed
qed

lemma awaiting_cons_step:
  assumes step: "spmc_cons_step i s t" and A: "awaiting_ok s" and no: "\<And>h seq. m_cons t i \<noteq> MC_wait h seq"
  shows "awaiting_ok t"
  using step
proof cases
  case (mc_block h q)
  then show ?thesis using no [of h q] by (simp add: set_cons_def)
next
  case (mc_move h v)
  then have "slot_seq t p = slot_seq s p" for p
    by (cases "slot_ix s h < length (m_slots s)")
      (auto simp: set_cons_def set_storage_def nth_list_update not_less list_update_beyond)
  with mc_move show ?thesis
    by (intro awaiting_frame [OF A, where i = i and pc = "MC_release h v"]) (simp_all add: set_cons_def set_storage_def)
next
  case (mc_release h v)
  then show ?thesis using awaiting_release [OF A] by simp
next
  case (mc_notify h v r)
  then show ?thesis using awaiting_notify [OF A] by simp
next
  case (mc_park h q)
  then show ?thesis using awaitingD(1) [OF A] by blast
next
  case (mc_cas_ok b h)
  then show ?thesis
    by (intro awaiting_frame [OF A, where i = i and pc = "MC_move h"]) (simp_all add: set_cons_def)
qed (simp_all add: awaiting_pc [OF A])

lemma awaiting_step:
  assumes "without_pop_wait spmc_step_any s t" and A: "awaiting_ok s"
  shows "awaiting_ok t"
proof -
  have no: "m_cons t i \<noteq> MC_wait h q" for i h q using assms(1) by (simp add: without_pop_wait_def)
  consider "spmc_prod_step s t" | i where "spmc_cons_step i s t" | "spurious_wake s t"
    using assms(1) unfolding without_pop_wait_def spmc_step_any_def spmc_step_def by blast
  then show ?thesis
  proof cases
    case 3
    then show ?thesis
    proof cases
      case (spurious_prod x w q)
      then show ?thesis using A by (simp add: awaiting_ok_def)
    next
      case (spurious_cons i h q)
      then show ?thesis using awaitingD(2) [OF A] by blast
    qed
  qed (use awaiting_prod_step [OF _ A] awaiting_cons_step [OF _ A no] in blast)+
qed

interpretation awaiting: guarded_machine spmc_init "without_pop_wait spmc_step_any" awaiting_ok "\<lambda>_. 0" 1
proof unfold_locales
  show "awaiting_ok s" if "spmc_init s" for s :: "'a spmc_sys"
    using spmc_init_idle [OF that] by (simp add: awaiting_ok_def)
  show "awaiting_ok t" if "awaiting_ok s" "without_pop_wait spmc_step_any s t" for s t :: "'a spmc_sys"
    using awaiting_step [OF that(2,1)] .
qed simp

section \<open>Properties\<close>

text \<open>
  C11. A consumer asleep in \<open>pop_wait\<close> has nothing to wake up for, or is being woken up. If the
  element it waits for is not there, the queue is empty: it waits for the next element and
  every element pushed has been claimed. If it is there, the producer has not yet finished
  the call that pushed it, and its next steps release the consumer, which then finds the
  sequence number changed. Consumers never lose a wake-up, spurious wake-ups or not.
\<close>

theorem spmc_consumers_woken:
  assumes "reach spmc_init spmc_step_any s" and "length (m_pushed s) + unat (m_capacity s) < 2 ^ 63"
    and "m_cons s i = MC_parked h seq"
  shows "if unat h < length (m_pushed s)
    then (m_prod s = MP_store_tail h \<or> m_prod s = MP_notify h)
      \<and> (\<exists>t. reach (\<lambda>r. r = s) spmc_prod_step t \<and> m_cons t i = MC_wait h seq \<and> slot_seq t h \<noteq> seq)
    else h = m_head s \<and> unat (m_head s) = length (m_pushed s)"
proof (cases "unat h < length (m_pushed s)")
  have inv: "spmc_sys_inv s" and S: "sleepers_ok s" using sleepers.reach_inv [OF assms(1,2)] by blast+
  note I = spmc_sys_invD [OF inv]
  have h: "unat h \<le> unat (m_head s)" using I(8) [of i] assms(3) by simp
  {
    case True
    have q: "unat seq \<le> unat h" "notify_due (m_prod s) h" using sleepersD [OF S, of i] assms(3) True by simp_all
    then have due: "m_prod s = MP_store_tail h \<or> m_prod s = MP_notify h" by (cases "m_prod s") simp_all
    have "unat h < unat (slot_seq s h)"
      using slots_seq_bounds [OF I(5,2) h] I(10) [of h] True by simp
    then have seq: "slot_seq s h \<noteq> seq" using q(1) by auto
    have wakes: "\<exists>t. spmc_prod_step r t \<and> m_cons t i = MC_wait h seq \<and> slot_seq t h \<noteq> seq"
      if "m_prod r = MP_notify h" "m_cons r i = MC_parked h seq" "slot_seq r h \<noteq> seq" for r :: "'a spmc_sys"
      using mp_notify [OF that(1)] that
      by (intro exI [of _ "(wake_all (slot_ix r h) r)\<lparr>m_prod := MP_idle\<rparr>"]) (simp add: wake_all_def)
    have "\<exists>t. reach (\<lambda>r. r = s) spmc_prod_step t \<and> m_cons t i = MC_wait h seq \<and> slot_seq t h \<noteq> seq"
      using due
    proof
      assume "m_prod s = MP_notify h"
      from wakes [OF this assms(3) seq] show ?thesis by (blast intro: reach_init reach_step)
    next
      assume n: "m_prod s = MP_store_tail h"
      let ?r = "s\<lparr>m_tail := h + 1, m_prod := MP_notify h\<rparr>"
      have "reach (\<lambda>r. r = s) spmc_prod_step ?r" using mp_store_tail [OF n] by (blast intro: reach_init reach_step)
      with wakes [of ?r] assms(3) seq show ?thesis by (auto intro: reach_step)
    qed
    with due True show ?thesis by simp
  next
    case False
    then have "unat h = unat (m_head s)" "unat (m_head s) = length (m_pushed s)" using h I(9) by simp_all
    with False show ?thesis by (simp add: word_eq_iff_unat)
  }
qed

theorem spmc_consumers_woken_witness: "unat (m_head duo_full) = length (m_pushed duo_full)"
  using spmc_consumers_woken [OF duo_full_reach, of 1 2 1] by (simp add: duo_defs)

text \<open>
  C12. The flaw of \<open>spmc_lost_wakeup\<close> needs \<open>pop_wait\<close>: when the consumers only ever call \<open>try_pop\<close>,
  a producer asleep in \<open>emplace_wait\<close> beside a free slot is being woken up. The consumer that
  released the slot has not notified yet, and its notification, the next step it takes, can
  reach nobody but the producer.
\<close>

theorem spmc_producer_woken:
  assumes "reach spmc_init (without_pop_wait spmc_step_any) s" and "m_prod s = MP_parked x t seq" and "slot_seq s t = t"
  shows "\<exists>i h v. m_cons s i = MC_notify h v \<and> slot_ix s h = slot_ix s t \<and> Ex (spmc_cons_step i s)
    \<and> (\<forall>r. spmc_cons_step i s r \<longrightarrow> m_prod r = MP_wait x t seq) \<and> slot_seq s t \<noteq> seq"
proof -
  have A: "awaiting_ok s" using awaiting.reach_inv [OF assms(1)] by simp
  note D = awaitingD [OF A]
  obtain i h v where n: "m_cons s i = MC_notify h v" "slot_ix s h = slot_ix s t"
    using D(5) [OF assms(2,3)] by (auto simp: release_due_def)
  have woken: "m_prod r = MP_wait x t seq" if "wake_one (slot_ix s h) s r" for r
    using that
  proof cases
    case wake_prod
    then show ?thesis using assms(2) by simp
  next
    case wake_cons
    then show ?thesis using D(2) by blast
  next
    case wake_none
    then show ?thesis using assms(2) n(2) by auto
  qed
  have "m_prod r = MP_wait x t seq" if "spmc_cons_step i s r" for r
    using that n(1) by cases (auto simp: set_cons_def woken)
  moreover have "Ex (spmc_cons_step i s)"
    using mc_notify [OF n(1)] wake_one_total [of "slot_ix s h" s] by blast
  ultimately show ?thesis using n D(4) [OF assms(2)] assms(3) by auto
qed

text \<open>The run of \<open>duo_claimed\<close> continued: the producer falls asleep, then consumer 0 releases slot 0.\<close>

definition duo_released :: "nat spmc_sys" where
  "duo_released = duo [sl2 2 None, sl2 2 (Some 8)] 2 2 (MP_parked 9 2 1) (MC_notify 0 7) (MC_move 1) [7, 8] []"

lemma duo_released_reach: "reach spmc_init (without_pop_wait spmc_step) duo_released"
proof -
  have s1: "spmc_step (duo [sl2 1 (Some 7), sl2 2 (Some 8)] 2 2 MP_idle (MC_move 0) (MC_move 1) [7, 8] [])
      (duo [sl2 1 (Some 7), sl2 2 (Some 8)] 2 2 (MP_load_seq True 9 2) (MC_move 0) (MC_move 1) [7, 8] [])"
    by (rule duo_prod_step) (auto simp: duo_simps)
  have s2: "spmc_step (duo [sl2 1 (Some 7), sl2 2 (Some 8)] 2 2 (MP_load_seq True 9 2) (MC_move 0) (MC_move 1) [7, 8] [])
      (duo [sl2 1 (Some 7), sl2 2 (Some 8)] 2 2 (MP_check True 9 2 1) (MC_move 0) (MC_move 1) [7, 8] [])"
    by (rule duo_prod_step) (auto simp: duo_simps)
  have s3: "spmc_step (duo [sl2 1 (Some 7), sl2 2 (Some 8)] 2 2 (MP_check True 9 2 1) (MC_move 0) (MC_move 1) [7, 8] [])
      (duo [sl2 1 (Some 7), sl2 2 (Some 8)] 2 2 (MP_wait 9 2 1) (MC_move 0) (MC_move 1) [7, 8] [])"
    by (rule duo_prod_step) (auto simp: duo_simps)
  have s4: "spmc_step (duo [sl2 1 (Some 7), sl2 2 (Some 8)] 2 2 (MP_wait 9 2 1) (MC_move 0) (MC_move 1) [7, 8] [])
      (duo [sl2 1 (Some 7), sl2 2 (Some 8)] 2 2 (MP_parked 9 2 1) (MC_move 0) (MC_move 1) [7, 8] [])"
    by (rule duo_prod_step) (auto simp: duo_simps)
  have s5: "spmc_step (duo [sl2 1 (Some 7), sl2 2 (Some 8)] 2 2 (MP_parked 9 2 1) (MC_move 0) (MC_move 1) [7, 8] [])
      (duo [sl2 1 None, sl2 2 (Some 8)] 2 2 (MP_parked 9 2 1) (MC_release 0 7) (MC_move 1) [7, 8] [])"
    by (rule duo_cons_step [of 0]) (auto simp: duo_simps)
  have s6: "spmc_step (duo [sl2 1 None, sl2 2 (Some 8)] 2 2 (MP_parked 9 2 1) (MC_release 0 7) (MC_move 1) [7, 8] [])
      (duo [sl2 2 None, sl2 2 (Some 8)] 2 2 (MP_parked 9 2 1) (MC_notify 0 7) (MC_move 1) [7, 8] [])"
    by (rule duo_cons_step [of 0]) (auto simp: duo_simps)
  show ?thesis unfolding duo_released_def
    by (rule duo_calm [OF duo_calm [OF duo_calm [OF duo_calm [OF duo_calm [OF duo_calm [OF duo_run_claim s1] s2] s3] s4] s5] s6])
      (simp_all add: duo_fields)
qed

lemma calm_any: "reach spmc_init (without_pop_wait spmc_step) s \<Longrightarrow> reach spmc_init (without_pop_wait spmc_step_any) s"
  by (induction rule: reach.induct)
    (auto intro: reach_init reach_step simp: without_pop_wait_def spmc_step_any_def)

theorem spmc_producer_woken_witness: "\<exists>i h v. m_cons duo_released i = MC_notify h v \<and> Ex (spmc_cons_step i duo_released)"
proof -
  have "m_prod duo_released = MP_parked 9 2 1" "slot_seq duo_released 2 = 2"
    by (simp_all add: duo_released_def duo_fields sl2_fields)
  from spmc_producer_woken [OF calm_any [OF duo_released_reach] this] show ?thesis by blast
qed

end
