(* ===== verification/Broadcast.thy ===== *)
theory Broadcast
  imports Capacity Ring
begin

text \<open>
  \<open>SPMCBroadcastQueue<T, N>\<close> of SPMCBroadcastQueue.h, one call at a time: construction, the
  producer with its cached minimum of the consumers' cursors, the consumer handles and the
  accessors. A consumer handle is the index of its cursor. The state is related to the list
  of everything published so far; \<open>fanout\<close> is what the queue promises its clients.
\<close>

section \<open>State and operations\<close>

record 'a bcast =
  b_capacity :: size_t
  b_mask :: size_t
  b_slots :: "'a list"
  b_tail :: size_t
  b_cached_min :: size_t
  b_cursors :: "size_t list"

text \<open>
  The constructor; \<open>alloc\<close> says which exception, if any, the constructor of the vector of that
  many elements throws, \<open>dflt\<close> is the default value of \<open>T\<close> and \<open>n\<close> the number of consumers.
\<close>

definition bc_ctor :: "(size_t \<Rightarrow> exn option) \<Rightarrow> 'a \<Rightarrow> nat \<Rightarrow> size_t \<Rightarrow> exn + 'a bcast" where
  "bc_ctor alloc dflt n capacity =
     (case bc_check_and_round_capacity capacity of
        Inl e \<Rightarrow> Inl e
      | Inr cap \<Rightarrow>
          (case alloc cap of
             Some e \<Rightarrow> Inl e
           | None \<Rightarrow> Inr \<lparr>b_capacity = cap, b_mask = cap - 1, b_slots = replicate (unat cap) dflt,
               b_tail = 0, b_cached_min = 0, b_cursors = replicate n 0\<rparr>))"

text \<open>The scan over the cursors, the first one loaded before the loop.\<close>

fun bc_scan :: "size_t list \<Rightarrow> size_t \<Rightarrow> size_t" where
  "bc_scan [] min_cursor = min_cursor"
| "bc_scan (c # cs) min_cursor = bc_scan cs (if c < min_cursor then c else min_cursor)"

definition bc_min_cursor :: "'a bcast \<Rightarrow> size_t" where
  "bc_min_cursor q = bc_scan (tl (b_cursors q)) (hd (b_cursors q))"

text \<open>\<open>try_publish\<close>; \<open>mk\<close> is what constructing the element gives, an exception or a value.\<close>

definition bc_try_publish :: "'e + 'a \<Rightarrow> 'a bcast \<Rightarrow> ('e + bool) \<times> 'a bcast" where
  "bc_try_publish mk q =
     (let tail = b_tail q;
          q1 = (if tail - b_cached_min q \<ge> b_capacity q then q\<lparr>b_cached_min := bc_min_cursor q\<rparr> else q) in
      if tail - b_cached_min q1 \<ge> b_capacity q1 then (Inr False, q1)
      else case mk of
        Inl e \<Rightarrow> (Inl e, q1)
      | Inr x \<Rightarrow> (Inr True, q1\<lparr>b_slots := (b_slots q1)[unat (tail AND b_mask q1) := x], b_tail := tail + 1\<rparr>))"

text \<open>
  \<open>Consumer::try_consume\<close> of the consumer with index \<open>i\<close>. The callback works on a state of
  its own and may throw; then the cursor stays where it is.
\<close>

definition bc_try_consume ::
  "nat \<Rightarrow> ('a \<Rightarrow> 's \<Rightarrow> 'e option \<times> 's) \<Rightarrow> 's \<Rightarrow> 'a bcast \<Rightarrow> ('e + bool) \<times> 's \<times> 'a bcast" where
  "bc_try_consume i fn st q =
     (let pos = b_cursors q ! i in
      if pos \<ge> b_tail q then (Inr False, st, q)
      else case fn (b_slots q ! unat (pos AND b_mask q)) st of
        (Some e, st1) \<Rightarrow> (Inl e, st1, q)
      | (None, st1) \<Rightarrow> (Inr True, st1, q\<lparr>b_cursors := (b_cursors q)[i := pos + 1]\<rparr>))"

text \<open>\<open>Consumer::try_copy\<close>: \<open>cp\<close> is the copy of an element into the optional.\<close>

definition bc_try_copy :: "nat \<Rightarrow> ('a \<Rightarrow> 'e + 'a) \<Rightarrow> 'a bcast \<Rightarrow> ('e + 'a option) \<times> 'a bcast" where
  "bc_try_copy i cp q =
     (case bc_try_consume i (\<lambda>item out. case cp item of Inl e \<Rightarrow> (Some e, out) | Inr v \<Rightarrow> (None, Some v)) None q of
        (Inl e, out, q') \<Rightarrow> (Inl e, q')
      | (Inr b, out, q') \<Rightarrow> (Inr out, q'))"

definition bc_position :: "nat \<Rightarrow> 'a bcast \<Rightarrow> size_t" where
  "bc_position i q = b_cursors q ! i"

text \<open>\<open>make_consumers\<close> builds the handle of each index; \<open>consumer(index)\<close> is undefined beyond the last.\<close>

definition bc_make_consumers :: "nat \<Rightarrow> nat list" where
  "bc_make_consumers n = map (\<lambda>i. i) [0..<n]"

definition bc_consumer :: "size_t \<Rightarrow> 'a bcast \<Rightarrow> nat option" where
  "bc_consumer index q =
     (let consumer_handles = bc_make_consumers (length (b_cursors q)) in
      if unat index < length consumer_handles then Some (consumer_handles ! unat index) else None)"

definition bc_capacity :: "'a bcast \<Rightarrow> size_t" where
  "bc_capacity q = b_capacity q"

definition bc_backlog_approx :: "'a bcast \<Rightarrow> size_t" where
  "bc_backlog_approx q = b_tail q - bc_min_cursor q"

section \<open>Well-formedness\<close>

text \<open>
  \<open>hist\<close> is everything published so far; it is shorter than \<open>2 ^ 64\<close>, so positions have not
  wrapped. The cached minimum is at most every cursor and at most a lap behind the tail.
\<close>

definition bc_inv :: "'a list \<Rightarrow> 'a bcast \<Rightarrow> bool" where
  "bc_inv hist q \<longleftrightarrow> is_pow2 (b_capacity q) \<and> 2 \<le> unat (b_capacity q) \<and> b_mask q = b_capacity q - 1
     \<and> length (b_slots q) = unat (b_capacity q) \<and> b_cursors q \<noteq> []
     \<and> unat (b_tail q) = length hist
     \<and> (\<forall>c \<in> set (b_cursors q). unat (b_cached_min q) \<le> unat c \<and> unat c \<le> length hist)
     \<and> length hist \<le> unat (b_cached_min q) + unat (b_capacity q)
     \<and> (\<forall>p < length hist. length hist \<le> p + unat (b_capacity q) \<longrightarrow>
          b_slots q ! (p mod unat (b_capacity q)) = hist ! p)"

definition bc_slowest :: "'a bcast \<Rightarrow> nat" where
  "bc_slowest q = Min (set (map unat (b_cursors q)))"

lemma bc_scan_fold: "unat (bc_scan cs m) = fold min (map unat cs) (unat m)"
  by (induction cs arbitrary: m) (auto simp: word_less_nat_alt min_def)

lemma bc_scan_min: "unat (bc_scan cs m) = Min (insert (unat m) (set (map unat cs)))"
  using Min.set_eq_fold [of "unat m" "map unat cs"] by (simp add: bc_scan_fold)

lemma bc_min_cursor_unat: "b_cursors q \<noteq> [] \<Longrightarrow> unat (bc_min_cursor q) = bc_slowest q"
  by (cases "b_cursors q") (simp_all add: bc_min_cursor_def bc_slowest_def bc_scan_min)

lemma bc_slowest_bounds:
  assumes "bc_inv hist q"
  shows "unat (b_cached_min q) \<le> bc_slowest q" "bc_slowest q \<le> length hist"
    "length hist \<le> bc_slowest q + unat (b_capacity q)" "c \<in> set (b_cursors q) \<Longrightarrow> bc_slowest q \<le> unat c"
proof -
  have "bc_slowest q \<in> unat ` set (b_cursors q)"
    unfolding bc_slowest_def using assms by (metis List.finite_set Min_in bc_inv_def image_set list.map_disc_iff set_empty)
  then show "unat (b_cached_min q) \<le> bc_slowest q" "bc_slowest q \<le> length hist"
    "length hist \<le> bc_slowest q + unat (b_capacity q)"
    using assms by (auto simp: bc_inv_def)
  show "c \<in> set (b_cursors q) \<Longrightarrow> bc_slowest q \<le> unat c" by (simp add: bc_slowest_def)
qed

section \<open>Each operation on every branch\<close>

text \<open>The gate: after it the cached minimum decides exactly whether there is room.\<close>

definition bc_gate :: "'a bcast \<Rightarrow> 'a bcast" where
  "bc_gate q = (if b_tail q - b_cached_min q \<ge> b_capacity q then q\<lparr>b_cached_min := bc_min_cursor q\<rparr> else q)"

lemma bc_distance:
  assumes "bc_inv hist q" and "unat m \<le> length hist"
  shows "b_tail q - m \<ge> b_capacity q \<longleftrightarrow> unat m + unat (b_capacity q) \<le> length hist"
  using assms by (auto simp: bc_inv_def word_le_nat_alt unat_minus_le)

lemma bc_gate_inv:
  assumes "bc_inv hist q"
  shows "bc_inv hist (bc_gate q) \<and> b_cursors (bc_gate q) = b_cursors q \<and> b_capacity (bc_gate q) = b_capacity q
    \<and> b_tail (bc_gate q) = b_tail q \<and> b_slots (bc_gate q) = b_slots q \<and> b_mask (bc_gate q) = b_mask q
    \<and> (b_tail q - b_cached_min (bc_gate q) \<ge> b_capacity q \<longleftrightarrow> length hist = bc_slowest q + unat (b_capacity q))"
proof -
  have ne: "b_cursors q \<noteq> []" and le: "unat (b_cached_min q) \<le> length hist"
    using assms bc_slowest_bounds(1,2) [OF assms] by (auto simp: bc_inv_def)
  note S = bc_slowest_bounds [OF assms] and m = bc_min_cursor_unat [OF ne]
  show ?thesis
  proof (cases "b_tail q - b_cached_min q \<ge> b_capacity q")
    case True
    then have "bc_gate q = q\<lparr>b_cached_min := bc_min_cursor q\<rparr>" by (simp add: bc_gate_def)
    moreover have "bc_inv hist (q\<lparr>b_cached_min := bc_min_cursor q\<rparr>)"
      using assms S m by (auto simp: bc_inv_def)
    moreover have "b_tail q - bc_min_cursor q \<ge> b_capacity q \<longleftrightarrow> length hist = bc_slowest q + unat (b_capacity q)"
      using bc_distance [OF assms, of "bc_min_cursor q"] S(2,3) m by auto
    ultimately show ?thesis by simp
  next
    case False
    then have "bc_gate q = q" by (simp add: bc_gate_def)
    moreover have "length hist < bc_slowest q + unat (b_capacity q)"
      using False bc_distance [OF assms le] S(1) by simp
    ultimately show ?thesis using assms False by auto
  qed
qed

lemma bc_publish_alt:
  "bc_try_publish mk q = (let q1 = bc_gate q in
     if b_tail q - b_cached_min q1 \<ge> b_capacity q1 then (Inr False, q1)
     else case mk of Inl e \<Rightarrow> (Inl e, q1)
       | Inr x \<Rightarrow> (Inr True, q1\<lparr>b_slots := (b_slots q1)[unat (b_tail q AND b_mask q1) := x], b_tail := b_tail q + 1\<rparr>))"
  by (simp add: bc_try_publish_def bc_gate_def Let_def)

lemma bc_publish_full:
  assumes "bc_inv hist q" and "length hist = bc_slowest q + unat (b_capacity q)"
  shows "bc_try_publish mk q = (Inr False, bc_gate q)"
  using bc_gate_inv [OF assms(1)] assms(2) by (simp add: bc_publish_alt Let_def)

lemma bc_publish_throws:
  assumes "bc_inv hist q" and "length hist \<noteq> bc_slowest q + unat (b_capacity q)"
  shows "bc_try_publish (Inl e) q = (Inl e, bc_gate q)"
  using bc_gate_inv [OF assms(1)] assms(2) by (simp add: bc_publish_alt Let_def)

lemma bc_publish_ok:
  assumes inv: "bc_inv hist q" and room: "length hist \<noteq> bc_slowest q + unat (b_capacity q)"
    and small: "Suc (length hist) < 2 ^ 64"
  shows "\<exists>q'. bc_try_publish (Inr x) q = (Inr True, q') \<and> bc_inv (hist @ [x]) q'
    \<and> b_cursors q' = b_cursors q \<and> b_capacity q' = b_capacity q"
proof -
  let ?T = "length hist" and ?L = "unat (b_capacity q)" and ?q1 = "bc_gate q"
  note G = bc_gate_inv [OF inv]
  have inv1: "bc_inv hist ?q1" and keep: "b_cursors ?q1 = b_cursors q" "b_capacity ?q1 = b_capacity q"
      "b_tail ?q1 = b_tail q" "b_slots ?q1 = b_slots q" "b_mask ?q1 = b_mask q"
    and free: "\<not> b_tail q - b_cached_min ?q1 \<ge> b_capacity q"
    using G room by auto
  have t: "unat (b_tail q) = ?T" and pow: "is_pow2 (b_capacity q)" and len: "length (b_slots q) = ?L"
    and pos: "0 < ?L" and msk: "b_mask q = b_capacity q - 1"
    using inv by (auto simp: bc_inv_def)
  have ix: "unat (b_tail q AND b_mask q) = ?T mod ?L" using t pow msk by (simp add: unat_and_cap)
  have "unat (b_cached_min ?q1) \<le> ?T" using bc_slowest_bounds(1,2) [OF inv1] by simp
  then have gate: "?T < unat (b_cached_min ?q1) + ?L" using bc_distance [OF inv1] free keep by simp
  let ?q' = "?q1\<lparr>b_slots := (b_slots q)[?T mod ?L := x], b_tail := b_tail q + 1\<rparr>"
  have other: "?T mod ?L \<noteq> p mod ?L" if "p < ?T" "Suc ?T \<le> p + ?L" for p
    using mod_lap_neq [of p ?T ?L] that by simp
  have "bc_inv (hist @ [x]) ?q'"
    using inv1 t small gate other len pos keep
    by (auto simp: bc_inv_def unat_plus1 nth_append less_Suc_eq nth_list_update)
  then show ?thesis using keep free ix by (simp add: bc_publish_alt Let_def)
qed

lemma bc_consume_none:
  assumes "bc_inv hist q" and "unat (b_cursors q ! i) = length hist"
  shows "bc_try_consume i fn st q = (Inr False, st, q)"
  using assms by (simp add: bc_try_consume_def bc_inv_def word_le_nat_alt)

lemma bc_cursor_bounds:
  assumes "bc_inv hist q" and "i < length (b_cursors q)"
  shows "unat (b_cursors q ! i) \<le> length hist" "length hist \<le> unat (b_cursors q ! i) + unat (b_capacity q)"
    "unat (b_cached_min q) \<le> unat (b_cursors q ! i)"
proof -
  have "unat (b_cached_min q) \<le> unat (b_cursors q ! i) \<and> unat (b_cursors q ! i) \<le> length hist"
    using assms by (simp add: bc_inv_def)
  moreover have "length hist \<le> unat (b_cached_min q) + unat (b_capacity q)"
    using assms by (simp add: bc_inv_def)
  ultimately show "unat (b_cursors q ! i) \<le> length hist" "unat (b_cached_min q) \<le> unat (b_cursors q ! i)"
    "length hist \<le> unat (b_cursors q ! i) + unat (b_capacity q)" by linarith+
qed

lemma bc_consume_some:
  assumes inv: "bc_inv hist q" and i: "i < length (b_cursors q)" and lt: "unat (b_cursors q ! i) < length hist"
  shows "bc_try_consume i fn st q = (case fn (hist ! unat (b_cursors q ! i)) st of
      (Some e, st1) \<Rightarrow> (Inl e, st1, q)
    | (None, st1) \<Rightarrow> (Inr True, st1, q\<lparr>b_cursors := (b_cursors q)[i := b_cursors q ! i + 1]\<rparr>))"
    and "bc_inv hist (q\<lparr>b_cursors := (b_cursors q)[i := b_cursors q ! i + 1]\<rparr>)"
    and "unat (b_cursors q ! i + 1) = Suc (unat (b_cursors q ! i))"
proof -
  let ?c = "b_cursors q ! i" and ?L = "unat (b_capacity q)"
  have t: "unat (b_tail q) = length hist" and pow: "is_pow2 (b_capacity q)" "b_mask q = b_capacity q - 1"
    and slots: "\<And>p. p < length hist \<Longrightarrow> length hist \<le> p + ?L \<Longrightarrow> b_slots q ! (p mod ?L) = hist ! p"
    using inv by (auto simp: bc_inv_def)
  have "b_slots q ! unat (?c AND b_mask q) = hist ! unat ?c"
    using slots [OF lt bc_cursor_bounds(2) [OF inv i]] pow by (simp add: unat_and_cap)
  moreover have "\<not> ?c \<ge> b_tail q" using lt t by (simp add: word_le_nat_alt)
  ultimately show "bc_try_consume i fn st q = (case fn (hist ! unat ?c) st of
      (Some e, st1) \<Rightarrow> (Inl e, st1, q)
    | (None, st1) \<Rightarrow> (Inr True, st1, q\<lparr>b_cursors := (b_cursors q)[i := ?c + 1]\<rparr>))"
    by (simp add: bc_try_consume_def Let_def)
  have "unat (b_tail q) < 2 ^ 64" by simp
  then show u: "unat (?c + 1) = Suc (unat ?c)" using lt t by (subst unat_plus1) simp_all
  have "unat (b_cached_min q) \<le> unat c' \<and> unat c' \<le> length hist"
    if "c' \<in> set ((b_cursors q)[i := ?c + 1])" for c'
  proof -
    have "c' \<in> insert (?c + 1) (set (b_cursors q))" using that set_update_subset_insert by fast
    then show ?thesis using inv u lt bc_cursor_bounds(3) [OF inv i] by (auto simp: bc_inv_def)
  qed
  then show "bc_inv hist (q\<lparr>b_cursors := (b_cursors q)[i := ?c + 1]\<rparr>)"
    using inv by (auto simp: bc_inv_def)
qed

section \<open>What a fan-out queue promises\<close>

datatype 'a fan_op = Publish 'a | Consume nat

text \<open>
  Running a sequence of calls: what was accepted for publication, and what each consumer
  received, in order.
\<close>

fun run_fan ::
  "('a \<Rightarrow> 'q \<Rightarrow> bool \<times> 'q) \<Rightarrow> (nat \<Rightarrow> 'q \<Rightarrow> 'a option \<times> 'q) \<Rightarrow> 'a fan_op list \<Rightarrow> 'q \<Rightarrow>
    'a list \<times> (nat \<times> 'a) list \<times> 'q" where
  "run_fan publish consume [] q = ([], [], q)"
| "run_fan publish consume (Publish x # ops) q =
     (let (b, q1) = publish x q; (sent, got, q2) = run_fan publish consume ops q1 in
      (if b then x # sent else sent, got, q2))"
| "run_fan publish consume (Consume i # ops) q =
     (let (r, q1) = consume i q; (sent, got, q2) = run_fan publish consume ops q1 in
      (sent, (case r of None \<Rightarrow> got | Some v \<Rightarrow> (i, v) # got), q2))"

definition received :: "nat \<Rightarrow> (nat \<times> 'a) list \<Rightarrow> 'a list" where
  "received i got = map snd (filter (\<lambda>e. fst e = i) got)"

text \<open>
  \<open>position i\<close> is how many elements consumer \<open>i\<close> has read; \<open>lag\<close> is how far the slowest
  consumer may be behind; the laws hold while fewer than \<open>limit\<close> elements were published.
\<close>

locale fanout =
  fixes publish :: "'a \<Rightarrow> 'q \<Rightarrow> bool \<times> 'q"
    and consume :: "nat \<Rightarrow> 'q \<Rightarrow> 'a option \<times> 'q"
    and inv :: "'a list \<Rightarrow> 'q \<Rightarrow> bool"
    and position :: "nat \<Rightarrow> 'q \<Rightarrow> nat"
    and consumers :: "'q \<Rightarrow> nat"
    and lag :: "'q \<Rightarrow> nat"
    and limit :: nat
  assumes publish_inv: "inv h q \<Longrightarrow> Suc (length h) < limit \<Longrightarrow> publish x q = (b, q') \<Longrightarrow>
      inv (if b then h @ [x] else h) q' \<and> consumers q' = consumers q \<and> lag q' = lag q \<and> position i q' = position i q"
    and publish_iff: "inv h q \<Longrightarrow> Suc (length h) < limit \<Longrightarrow>
      fst (publish x q) \<longleftrightarrow> (\<forall>i < consumers q. length h < position i q + lag q)"
    and consume_inv: "inv h q \<Longrightarrow> j < consumers q \<Longrightarrow> consume j q = (r, q') \<Longrightarrow>
      inv h q' \<and> consumers q' = consumers q \<and> lag q' = lag q
      \<and> position i q' = (if i = j \<and> r \<noteq> None then Suc (position i q) else position i q)"
    and consume_value: "inv h q \<Longrightarrow> i < consumers q \<Longrightarrow>
      fst (consume i q) = (if position i q < length h then Some (h ! position i q) else None)"
    and position_le: "inv h q \<Longrightarrow> i < consumers q \<Longrightarrow> position i q \<le> length h"
begin

lemma delivery:
  assumes "inv h q" and "length h + length ops < limit" and "i < consumers q"
    and "\<And>j. Consume j \<in> set ops \<Longrightarrow> j < consumers q"
    and "run_fan publish consume ops q = (sent, got, q')"
  shows "inv (h @ sent) q' \<and> position i q \<le> position i q' \<and> position i q' \<le> length (h @ sent)
    \<and> received i got = drop (position i q) (take (position i q') (h @ sent))"
  using assms
proof (induction ops arbitrary: h q sent got)
  case Nil
  then show ?case using position_le [of h q i] by (auto simp: received_def)
next
  case (Cons op ops)
  show ?case
  proof (cases op)
    case (Publish x)
    obtain b q1 where p: "publish x q = (b, q1)" by fastforce
    obtain sent1 where r: "run_fan publish consume ops q1 = (sent1, got, q')"
      and s: "sent = (if b then x # sent1 else sent1)"
      using Cons.prems(5) by (auto simp: Publish p split: prod.splits)
    have P: "inv (if b then h @ [x] else h) q1" "consumers q1 = consumers q" "position i q1 = position i q"
      using publish_inv [OF Cons.prems(1) _ p] Cons.prems(2) by auto
    have valid: "j < consumers q1" if "Consume j \<in> set ops" for j
      using Cons.prems(4) [of j] that P(2) by simp
    show ?thesis
    proof (cases b)
      case True
      with P have "inv (h @ [x]) q1" by simp
      from Cons.IH [OF this _ _ valid r] show ?thesis using Cons.prems P s True by simp
    next
      case False
      with P have "inv h q1" by simp
      from Cons.IH [OF this _ _ valid r] show ?thesis using Cons.prems P s False by simp
    qed
  next
    case (Consume j)
    obtain r q1 where c: "consume j q = (r, q1)" by fastforce
    obtain got1 where run: "run_fan publish consume ops q1 = (sent, got1, q')"
      and g: "got = (case r of None \<Rightarrow> got1 | Some v \<Rightarrow> (j, v) # got1)"
      using Cons.prems(5) by (auto simp: Consume c split: prod.splits)
    have j: "j < consumers q" using Cons.prems(4) Consume by simp
    have C: "inv h q1" "consumers q1 = consumers q"
      "position i q1 = (if i = j \<and> r \<noteq> None then Suc (position i q) else position i q)"
      using consume_inv [OF Cons.prems(1) j c] by auto
    have V: "r = (if position j q < length h then Some (h ! position j q) else None)"
      using consume_value [OF Cons.prems(1) j] c by simp
    have valid: "k < consumers q1" if "Consume k \<in> set ops" for k
      using Cons.prems(4) [of k] that C(2) by simp
    note IH = Cons.IH [OF C(1) _ _ valid run]
    show ?thesis
    proof (cases "i = j \<and> r \<noteq> None")
      case True
      then have lt: "position i q < length h" "r = Some (h ! position i q)" using V by (auto split: if_splits)
      have I: "inv (h @ sent) q'" "Suc (position i q) \<le> position i q'" "position i q' \<le> length (h @ sent)"
        "received i got1 = drop (Suc (position i q)) (take (position i q') (h @ sent))"
        using IH Cons.prems C True by auto
      have "position i q < length (take (position i q') (h @ sent))" using I by simp
      from Cons_nth_drop_Suc [OF this] I lt have
        "drop (position i q) (take (position i q') (h @ sent)) = h ! position i q # received i got1"
        by (simp add: nth_append)
      then show ?thesis using I g True lt by (simp add: received_def)
    next
      case False
      then have "received i got = received i got1" using g by (auto simp: received_def split: option.splits)
      moreover have "position i q1 = position i q" unfolding C(3) using False by (rule if_not_P)
      ultimately show ?thesis using IH Cons.prems(2,3) C(2) by (simp del: not_None_eq)
    qed
  qed
qed

end

text \<open>The operations as a client sees them when neither \<open>T\<close> nor its copy throws.\<close>

definition bc_publish :: "'a \<Rightarrow> 'a bcast \<Rightarrow> bool \<times> 'a bcast" where
  "bc_publish x q = (case bc_try_publish (Inr x :: unit + 'a) q of (r, q') \<Rightarrow> (projr r, q'))"

definition bc_take :: "nat \<Rightarrow> 'a bcast \<Rightarrow> 'a option \<times> 'a bcast" where
  "bc_take i q = (case bc_try_copy i (Inr :: 'a \<Rightarrow> unit + 'a) q of (r, q') \<Rightarrow> (projr r, q'))"

definition bc_count :: "nat \<Rightarrow> 'a bcast \<Rightarrow> nat" where
  "bc_count i q = unat (bc_position i q)"

lemma bc_room_iff:
  assumes "bc_inv hist q"
  shows "length hist \<noteq> bc_slowest q + unat (b_capacity q) \<longleftrightarrow>
    (\<forall>i < length (b_cursors q). length hist < bc_count i q + unat (b_capacity q))"
proof -
  have "bc_slowest q \<in> set (map unat (b_cursors q))"
    unfolding bc_slowest_def using assms by (intro Min_in) (auto simp: bc_inv_def)
  then obtain i where i: "i < length (b_cursors q)" "bc_slowest q = bc_count i q"
    by (auto simp: in_set_conv_nth bc_count_def bc_position_def)
  have le: "bc_slowest q \<le> bc_count j q" if "j < length (b_cursors q)" for j
    using bc_slowest_bounds(4) [OF assms, of "b_cursors q ! j"] that by (simp add: bc_count_def bc_position_def)
  show ?thesis
  proof
    assume "length hist \<noteq> bc_slowest q + unat (b_capacity q)"
    then have "length hist < bc_slowest q + unat (b_capacity q)" using bc_slowest_bounds(3) [OF assms] by simp
    then show "\<forall>j < length (b_cursors q). length hist < bc_count j q + unat (b_capacity q)"
      using le by (meson add_le_mono1 less_le_trans)
  next
    assume "\<forall>j < length (b_cursors q). length hist < bc_count j q + unat (b_capacity q)"
    then show "length hist \<noteq> bc_slowest q + unat (b_capacity q)" using i by fastforce
  qed
qed

lemma bc_publish_spec:
  fixes q :: "'a bcast"
  assumes inv: "bc_inv hist q" and small: "Suc (length hist) < 2 ^ 64"
  shows "bc_inv (if fst (bc_publish x q) then hist @ [x] else hist) (snd (bc_publish x q))
    \<and> b_cursors (snd (bc_publish x q)) = b_cursors q \<and> b_capacity (snd (bc_publish x q)) = b_capacity q
    \<and> (fst (bc_publish x q) \<longleftrightarrow> length hist \<noteq> bc_slowest q + unat (b_capacity q))"
proof (cases "length hist = bc_slowest q + unat (b_capacity q)")
  case True
  then show ?thesis using bc_gate_inv [OF inv] by (simp add: bc_publish_def bc_publish_full [OF inv])
next
  case False
  obtain q' where "bc_try_publish (Inr x :: unit + 'a) q = (Inr True, q')" "bc_inv (hist @ [x]) q'"
    "b_cursors q' = b_cursors q" "b_capacity q' = b_capacity q"
    using bc_publish_ok [OF inv False small, of x] by blast
  with False show ?thesis by (simp add: bc_publish_def)
qed

lemma bc_take_spec:
  assumes inv: "bc_inv hist q" and i: "i < length (b_cursors q)"
  shows "bc_take i q = (if bc_count i q < length hist
      then (Some (hist ! bc_count i q), q\<lparr>b_cursors := (b_cursors q)[i := b_cursors q ! i + 1]\<rparr>)
      else (None, q))"
proof (cases "bc_count i q < length hist")
  case True
  then show ?thesis
    by (simp add: bc_take_def bc_try_copy_def bc_count_def bc_position_def bc_consume_some(1) [OF inv i])
next
  case False
  then have "unat (b_cursors q ! i) = length hist"
    using bc_cursor_bounds(1) [OF inv i] by (simp add: bc_count_def bc_position_def)
  with False show ?thesis by (simp add: bc_take_def bc_try_copy_def bc_consume_none [OF inv])
qed

interpretation bcast: fanout bc_publish bc_take bc_inv bc_count "\<lambda>q. length (b_cursors q)"
    "\<lambda>q. unat (b_capacity q)" "2 ^ 64"
proof
  fix h :: "'a list" and q q' :: "'a bcast" and x b i
  assume a: "bc_inv h q" "Suc (length h) < 2 ^ 64" "bc_publish x q = (b, q')"
  show "bc_inv (if b then h @ [x] else h) q' \<and> length (b_cursors q') = length (b_cursors q)
    \<and> unat (b_capacity q') = unat (b_capacity q) \<and> bc_count i q' = bc_count i q"
    using bc_publish_spec [OF a(1,2), of x] a(3) by (cases b) (auto simp: bc_count_def bc_position_def)
next
  fix h :: "'a list" and q :: "'a bcast" and x
  assume a: "bc_inv h q" "Suc (length h) < 2 ^ 64"
  show "fst (bc_publish x q) \<longleftrightarrow> (\<forall>i < length (b_cursors q). length h < bc_count i q + unat (b_capacity q))"
    using bc_publish_spec [OF a, of x] bc_room_iff [OF a(1)] by simp
next
  fix h :: "'a list" and q q' :: "'a bcast" and j r i
  assume a: "bc_inv h q" "j < length (b_cursors q)" "bc_take j q = (r, q')"
  show "bc_inv h q' \<and> length (b_cursors q') = length (b_cursors q) \<and> unat (b_capacity q') = unat (b_capacity q)
    \<and> bc_count i q' = (if i = j \<and> r \<noteq> None then Suc (bc_count i q) else bc_count i q)"
  proof (cases "bc_count j q < length h")
    case True
    then have "q' = q\<lparr>b_cursors := (b_cursors q)[j := b_cursors q ! j + 1]\<rparr>" "r \<noteq> None"
      using a(3) bc_take_spec [OF a(1,2)] by auto
    then show ?thesis
      using bc_consume_some(2,3) [OF a(1,2)] True a(2) by (auto simp: bc_count_def bc_position_def)
  next
    case False
    then show ?thesis using a bc_take_spec [OF a(1,2)] by simp
  qed
next
  fix h :: "'a list" and q :: "'a bcast" and i
  assume a: "bc_inv h q" "i < length (b_cursors q)"
  show "fst (bc_take i q) = (if bc_count i q < length h then Some (h ! bc_count i q) else None)"
    using bc_take_spec [OF a] by simp
  show "bc_count i q \<le> length h"
    using bc_cursor_bounds(1) [OF a] by (simp add: bc_count_def bc_position_def)
qed

section \<open>Properties\<close>

lemma bc_consumer_index:
  "bc_consumer index q = (if unat index < length (b_cursors q) then Some (unat index) else None)"
  by (simp add: bc_consumer_def bc_make_consumers_def)

lemma bc_ctor_ok:
  assumes "bc_ctor alloc dflt n capacity = Inr q" and "0 < n"
  shows "bc_inv [] q \<and> b_capacity q = bit_ceil capacity \<and> length (b_cursors q) = n \<and> (\<forall>i < n. bc_count i q = 0)"
proof -
  obtain cap where c: "bc_check_and_round_capacity capacity = Inr cap"
    and q: "q = \<lparr>b_capacity = cap, b_mask = cap - 1, b_slots = replicate (unat cap) dflt, b_tail = 0,
        b_cached_min = 0, b_cursors = replicate n 0\<rparr>"
    using assms by (auto simp: bc_ctor_def split: sum.splits option.splits)
  then show ?thesis
    using bc_cap.accepted [OF c] bc_cap.accepted_pow2 [OF c] bc_cap.accepted_bounds(1) [OF c] assms(2)
    by (auto simp: bc_inv_def bc_count_def bc_position_def)
qed

text \<open>
  The constructor of SPMCBroadcastQueue: a request the policy rejects throws
  \<open>invalid_argument\<close> before the slots are built, an exception of the slots' construction is
  passed on, and otherwise the queue has the rounded capacity, nothing published, and \<open>N\<close>
  cursors at position 0, which \<open>consumer\<close> hands out by their index.
\<close>

theorem bc_ctor_contract:
  "case bc_ctor alloc dflt (Suc n) capacity of
     Inl e \<Rightarrow> (\<exists>m. e = Invalid_argument m) \<and> (unat capacity < 2 \<or> 2 ^ 63 < unat capacity)
         \<or> alloc (bit_ceil capacity) = Some e
   | Inr q \<Rightarrow> bc_inv [] q \<and> bc_capacity q = bit_ceil capacity \<and> map unat (b_cursors q) = replicate (Suc n) 0
       \<and> alloc (bc_capacity q) = None
       \<and> bc_consumer index q = (if unat index \<le> n then Some (unat index) else None)"
proof (cases "bc_check_and_round_capacity capacity")
  case (Inl e)
  then show ?thesis
    using bc_cap.contract [of capacity] by (auto simp: bc_ctor_def rounds_to_pow2_def not_le)
next
  case (Inr cap)
  then have "cap = bit_ceil capacity" using bc_cap.accepted by blast
  then show ?thesis
    using Inr bc_ctor_ok [of alloc dflt "Suc n" capacity]
    by (auto simp: bc_ctor_def bc_capacity_def bc_consumer_index split: option.splits)
qed


lemma bc_ctor_2: "bc_ctor (\<lambda>_. None) dflt 2 2 = Inr \<lparr>b_capacity = 2, b_mask = 1, b_slots = [dflt, dflt],
    b_tail = 0, b_cached_min = 0, b_cursors = [0, 0]\<rparr>"
  by (simp add: bc_ctor_def bc_check_and_round_capacity_def bit_ceil_values replicate_2)


text \<open>
  One call of \<open>try_publish\<close> on every branch: it is refused exactly when the slowest
  consumer is a full lap behind, a throwing constructor publishes nothing, otherwise the item
  is appended; the cursors are never touched and the queue stays well formed, with its cached
  minimum at most every cursor.
\<close>

theorem bc_try_publish_cases:
  assumes "bc_inv hist q" and "Suc (length hist) < 2 ^ 64"
  shows "case bc_try_publish mk q of
     (Inr False, q') \<Rightarrow> length hist = bc_slowest q + unat (b_capacity q) \<and> bc_inv hist q' \<and> b_cursors q' = b_cursors q
   | (Inl e, q') \<Rightarrow> length hist < bc_slowest q + unat (b_capacity q) \<and> mk = Inl e \<and> bc_inv hist q'
       \<and> b_cursors q' = b_cursors q
   | (Inr True, q') \<Rightarrow> length hist < bc_slowest q + unat (b_capacity q) \<and> b_cursors q' = b_cursors q
       \<and> (\<exists>x. mk = Inr x \<and> bc_inv (hist @ [x]) q')"
proof (cases "length hist = bc_slowest q + unat (b_capacity q)")
  case True
  then show ?thesis using bc_gate_inv [OF assms(1)] by (simp add: bc_publish_full [OF assms(1)])
next
  case False
  then have lt: "length hist < bc_slowest q + unat (b_capacity q)"
    using bc_slowest_bounds(3) [OF assms(1)] by simp
  show ?thesis
  proof (cases mk)
    case (Inl e)
    then show ?thesis
      using bc_gate_inv [OF assms(1)] lt by (simp add: bc_publish_throws [OF assms(1) False])
  next
    case (Inr x)
    obtain q' where "bc_try_publish mk q = (Inr True, q')" "bc_inv (hist @ [x]) q'" "b_cursors q' = b_cursors q"
      using bc_publish_ok [OF assms(1) False assms(2), of x] Inr by blast
    with Inr lt show ?thesis by simp
  qed
qed

lemma bc_new_2: "bc_inv [] \<lparr>b_capacity = 2, b_mask = 1, b_slots = [dflt, dflt], b_tail = 0, b_cached_min = 0,
    b_cursors = [0, 0]\<rparr>"
  using bc_ctor_ok [OF bc_ctor_2 [of dflt]] by simp

theorem bc_try_publish_cases_witness:
  "case bc_try_publish (Inr 5 :: unit + nat) \<lparr>b_capacity = 2, b_mask = 1, b_slots = [0, 0], b_tail = 0,
      b_cached_min = 0, b_cursors = [0, 0]\<rparr> of (Inr True, q') \<Rightarrow> bc_inv [5] q' | _ \<Rightarrow> False"
  using bc_try_publish_cases [OF bc_new_2 [of "0 :: nat"], of "Inr 5 :: unit + nat"]
  by (auto simp: bc_try_publish_def bc_slowest_def)

text \<open>
  One call of \<open>try_consume\<close> on every branch: it reports \<open>false\<close> exactly when the consumer
  has read everything, without calling the callback; otherwise the callback is given the
  item at the consumer's position and the cursor advances by one, or stays where it is if the
  callback throws, so that the item can be read again. \<open>backlog_approx\<close> is how far the
  slowest consumer is behind.
\<close>

theorem bc_try_consume_cases:
  assumes "bc_inv hist q" and "i < length (b_cursors q)"
  shows "(case bc_try_consume i fn st q of
     (Inr False, st', q') \<Rightarrow> bc_count i q = length hist \<and> st' = st \<and> q' = q
   | (Inl e, st', q') \<Rightarrow> bc_count i q < length hist \<and> fn (hist ! bc_count i q) st = (Some e, st') \<and> q' = q
   | (Inr True, st', q') \<Rightarrow> bc_count i q < length hist \<and> fn (hist ! bc_count i q) st = (None, st')
       \<and> bc_inv hist q' \<and> map unat (b_cursors q') = (map unat (b_cursors q))[i := Suc (bc_count i q)])
   \<and> unat (bc_backlog_approx q) = length hist - bc_slowest q"
proof -
  have "unat (bc_backlog_approx q) = length hist - bc_slowest q"
    using bc_min_cursor_unat [of q] bc_slowest_bounds(2) [OF assms(1)] assms(1)
    by (simp add: bc_backlog_approx_def bc_inv_def unat_minus_le)
  moreover have "case bc_try_consume i fn st q of
     (Inr False, st', q') \<Rightarrow> bc_count i q = length hist \<and> st' = st \<and> q' = q
   | (Inl e, st', q') \<Rightarrow> bc_count i q < length hist \<and> fn (hist ! bc_count i q) st = (Some e, st') \<and> q' = q
   | (Inr True, st', q') \<Rightarrow> bc_count i q < length hist \<and> fn (hist ! bc_count i q) st = (None, st')
       \<and> bc_inv hist q' \<and> map unat (b_cursors q') = (map unat (b_cursors q))[i := Suc (bc_count i q)]"
  proof (cases "bc_count i q < length hist")
    case True
    then have lt: "unat (b_cursors q ! i) < length hist" by (simp add: bc_count_def bc_position_def)
    obtain r st' where f: "fn (hist ! unat (b_cursors q ! i)) st = (r, st')" by fastforce
    show ?thesis
      using bc_consume_some(2,3) [OF assms lt] True f
      by (cases r) (simp_all add: bc_consume_some(1) [OF assms lt] bc_count_def bc_position_def map_update)
  next
    case False
    then have eq: "unat (b_cursors q ! i) = length hist"
      using bc_cursor_bounds(1) [OF assms] by (simp add: bc_count_def bc_position_def)
    then show ?thesis by (simp add: bc_consume_none [OF assms(1) eq] bc_count_def bc_position_def)
  qed
  ultimately show ?thesis by blast
qed

theorem bc_try_consume_cases_witness:
  "case bc_try_consume 0 (\<lambda>item st. (None :: unit option, item # st)) [] \<lparr>b_capacity = 2, b_mask = 1,
      b_slots = [0, 0 :: nat], b_tail = 0, b_cached_min = 0, b_cursors = [0, 0]\<rparr> of
     (Inr False, st', q') \<Rightarrow> st' = [] | _ \<Rightarrow> False"
  using bc_try_consume_cases [OF bc_new_2 [of "0 :: nat"], of 0 "\<lambda>item st. (None :: unit option, item # st)" "[]"]
  by (auto simp: bc_try_consume_def)

end
