(* ===== verification/Broadcast_Concurrent.thy ===== *)
theory Broadcast_Concurrent
  imports Broadcast
begin

text \<open>
  \<open>SPMCBroadcastQueue\<close> with the producer and its \<open>N\<close> consumers running at the same time, one
  shared access per step. \<open>tail_\<close> and every cursor only grow and are written by one thread
  each, so their modification orders are the numbers up to the current value: a load by
  another thread may return any value between the one it saw last and the current one.
  \<open>bs_cur_seen\<close> and \<open>bs_tail_seen\<close> hold what was seen last; an acquire load of a value
  synchronises with the release store that wrote it and so with all stores before it.
  \<open>bs_hist\<close> and \<open>bs_got\<close> are history: what was published, and what each consumer read.
\<close>

section \<open>State\<close>

datatype 'a bprod =
  BP_idle
| BP_gate 'a                  \<comment> \<open>the test with the cached minimum is next\<close>
| BP_first 'a                 \<comment> \<open>\<open>cursors_[0]\<close> is loaded next\<close>
| BP_scan 'a nat size_t       \<comment> \<open>that many cursors were loaded, their minimum\<close>
| BP_recheck 'a
| BP_write 'a
| BP_store 'a                 \<comment> \<open>the slot is written, \<open>tail_.store\<close> is next\<close>

datatype 'a bcons =
  BC_idle
| BC_load size_t              \<comment> \<open>\<open>pos\<close> loaded, \<open>tail_\<close> is loaded next\<close>
| BC_in size_t                \<comment> \<open>the callback runs and has not read the slot\<close>
| BC_read size_t 'a           \<comment> \<open>the callback has read the slot and still runs\<close>

record 'a bc_sys =
  bs_capacity :: size_t
  bs_mask :: size_t
  bs_slots :: "'a list"
  bs_tail :: size_t
  bs_cached_min :: size_t
  bs_cursors :: "size_t list"
  bs_cur_seen :: "size_t list"
  bs_tail_seen :: "nat \<Rightarrow> size_t"
  bs_prod :: "'a bprod"
  bs_cons :: "nat \<Rightarrow> 'a bcons"
  bs_hist :: "'a list"
  bs_got :: "nat \<Rightarrow> 'a list"

definition bc_boot :: "'a bcast \<Rightarrow> 'a bc_sys" where
  "bc_boot q = \<lparr>bs_capacity = b_capacity q, bs_mask = b_mask q, bs_slots = b_slots q, bs_tail = b_tail q,
     bs_cached_min = b_cached_min q, bs_cursors = b_cursors q, bs_cur_seen = b_cursors q,
     bs_tail_seen = (\<lambda>_. b_tail q), bs_prod = BP_idle, bs_cons = (\<lambda>_. BC_idle), bs_hist = [],
     bs_got = (\<lambda>_. [])\<rparr>"

definition bc_init :: "'a bc_sys \<Rightarrow> bool" where
  "bc_init s \<longleftrightarrow> (\<exists>alloc dflt n capacity q.
     0 < n \<and> bc_ctor alloc dflt n capacity = Inr q \<and> s = bc_boot q)"

section \<open>Steps\<close>

text \<open>The producer in \<open>try_publish\<close>.\<close>

inductive bc_prod_step :: "'a bc_sys \<Rightarrow> 'a bc_sys \<Rightarrow> bool" where
  bp_call: "bs_prod s = BP_idle \<Longrightarrow> bc_prod_step s (s\<lparr>bs_prod := BP_gate x\<rparr>)"
| bp_cached: "bs_prod s = BP_gate x \<Longrightarrow> \<not> bs_tail s - bs_cached_min s \<ge> bs_capacity s \<Longrightarrow>
    bc_prod_step s (s\<lparr>bs_prod := BP_write x\<rparr>)"
| bp_rescan: "bs_prod s = BP_gate x \<Longrightarrow> bs_tail s - bs_cached_min s \<ge> bs_capacity s \<Longrightarrow>
    bc_prod_step s (s\<lparr>bs_prod := BP_first x\<rparr>)"
| bp_first: "bs_prod s = BP_first x \<Longrightarrow> bs_cur_seen s ! 0 \<le> v \<Longrightarrow> v \<le> bs_cursors s ! 0 \<Longrightarrow>
    bc_prod_step s (s\<lparr>bs_cur_seen := (bs_cur_seen s)[0 := v], bs_prod := BP_scan x 1 v\<rparr>)"
| bp_next: "bs_prod s = BP_scan x k m \<Longrightarrow> k < length (bs_cursors s) \<Longrightarrow>
    bs_cur_seen s ! k \<le> v \<Longrightarrow> v \<le> bs_cursors s ! k \<Longrightarrow>
    bc_prod_step s (s\<lparr>bs_cur_seen := (bs_cur_seen s)[k := v],
      bs_prod := BP_scan x (Suc k) (if v < m then v else m)\<rparr>)"
| bp_cache: "bs_prod s = BP_scan x k m \<Longrightarrow> \<not> k < length (bs_cursors s) \<Longrightarrow>
    bc_prod_step s (s\<lparr>bs_cached_min := m, bs_prod := BP_recheck x\<rparr>)"
| bp_full: "bs_prod s = BP_recheck x \<Longrightarrow> bs_tail s - bs_cached_min s \<ge> bs_capacity s \<Longrightarrow>
    bc_prod_step s (s\<lparr>bs_prod := BP_idle\<rparr>)"
| bp_space: "bs_prod s = BP_recheck x \<Longrightarrow> \<not> bs_tail s - bs_cached_min s \<ge> bs_capacity s \<Longrightarrow>
    bc_prod_step s (s\<lparr>bs_prod := BP_write x\<rparr>)"
| bp_throw: "bs_prod s = BP_write x \<Longrightarrow> bc_prod_step s (s\<lparr>bs_prod := BP_idle\<rparr>)"
| bp_write: "bs_prod s = BP_write x \<Longrightarrow>
    bc_prod_step s (s\<lparr>bs_slots := (bs_slots s)[unat (bs_tail s AND bs_mask s) := x], bs_prod := BP_store x\<rparr>)"
| bp_store: "bs_prod s = BP_store x \<Longrightarrow>
    bc_prod_step s (s\<lparr>bs_tail := bs_tail s + 1, bs_hist := bs_hist s @ [x], bs_prod := BP_idle\<rparr>)"

text \<open>Consumer \<open>i\<close> in \<open>try_consume\<close>; the callback may throw at its end.\<close>

inductive bc_cons_step :: "nat \<Rightarrow> 'a bc_sys \<Rightarrow> 'a bc_sys \<Rightarrow> bool" where
  bc_call: "i < length (bs_cursors s) \<Longrightarrow> bs_cons s i = BC_idle \<Longrightarrow>
    bc_cons_step i s (s\<lparr>bs_cons := (bs_cons s)(i := BC_load (bs_cursors s ! i))\<rparr>)"
| bc_none: "bs_cons s i = BC_load pos \<Longrightarrow> bs_tail_seen s i \<le> v \<Longrightarrow> v \<le> bs_tail s \<Longrightarrow> pos \<ge> v \<Longrightarrow>
    bc_cons_step i s (s\<lparr>bs_tail_seen := (bs_tail_seen s)(i := v), bs_cons := (bs_cons s)(i := BC_idle)\<rparr>)"
| bc_some: "bs_cons s i = BC_load pos \<Longrightarrow> bs_tail_seen s i \<le> v \<Longrightarrow> v \<le> bs_tail s \<Longrightarrow> \<not> pos \<ge> v \<Longrightarrow>
    bc_cons_step i s (s\<lparr>bs_tail_seen := (bs_tail_seen s)(i := v), bs_cons := (bs_cons s)(i := BC_in pos)\<rparr>)"
| bc_read: "bs_cons s i = BC_in pos \<Longrightarrow> x = bs_slots s ! unat (pos AND bs_mask s) \<Longrightarrow>
    bc_cons_step i s (s\<lparr>bs_cons := (bs_cons s)(i := BC_read pos x)\<rparr>)"
| bc_throw: "bs_cons s i = BC_read pos x \<Longrightarrow>
    bc_cons_step i s (s\<lparr>bs_cons := (bs_cons s)(i := BC_idle)\<rparr>)"
| bc_store: "bs_cons s i = BC_read pos x \<Longrightarrow>
    bc_cons_step i s (s\<lparr>bs_cursors := (bs_cursors s)[i := pos + 1],
      bs_got := (bs_got s)(i := bs_got s i @ [x]), bs_cons := (bs_cons s)(i := BC_idle)\<rparr>)"

definition bc_step :: "'a bc_sys \<Rightarrow> 'a bc_sys \<Rightarrow> bool" where
  "bc_step s t \<longleftrightarrow> bc_prod_step s t \<or> (\<exists>i. bc_cons_step i s t)"

section \<open>The invariant\<close>

text \<open>
  \<open>T\<close> and \<open>c\<close> are the number of published elements and the cached minimum; the producer may
  write a slot only while \<open>T < c + L\<close>.
\<close>

fun bprod_ok :: "nat \<Rightarrow> nat \<Rightarrow> nat \<Rightarrow> 'a list \<Rightarrow> size_t list \<Rightarrow> 'a bprod \<Rightarrow> bool" where
  "bprod_ok L T c sl seen (BP_scan x k m) \<longleftrightarrow> 0 < k \<and> k < Suc (length seen)
     \<and> (\<forall>j < k. unat m \<le> unat (seen ! j)) \<and> (\<exists>j < k. m = seen ! j)"
| "bprod_ok L T c sl seen (BP_recheck x) \<longleftrightarrow> (\<exists>j < length seen. c = unat (seen ! j))"
| "bprod_ok L T c sl seen (BP_write x) \<longleftrightarrow> T < c + L"
| "bprod_ok L T c sl seen (BP_store x) \<longleftrightarrow> T < c + L \<and> sl ! (T mod L) = x"
| "bprod_ok L T c sl seen _ \<longleftrightarrow> True"

fun bcons_ok :: "'a list \<Rightarrow> size_t list \<Rightarrow> nat \<Rightarrow> nat \<Rightarrow> 'a bcons \<Rightarrow> bool" where
  "bcons_ok hist cur i tail_seen BC_idle \<longleftrightarrow> True"
| "bcons_ok hist cur i tail_seen (BC_load pos) \<longleftrightarrow> i < length cur \<and> pos = cur ! i"
| "bcons_ok hist cur i tail_seen (BC_in pos) \<longleftrightarrow> i < length cur \<and> pos = cur ! i \<and> unat pos < tail_seen"
| "bcons_ok hist cur i tail_seen (BC_read pos x) \<longleftrightarrow>
     i < length cur \<and> pos = cur ! i \<and> unat pos < tail_seen \<and> x = hist ! unat pos"

definition is_writing :: "'a bprod \<Rightarrow> bool" where
  "is_writing pc \<longleftrightarrow> (\<exists>x. pc = BP_store x)"

definition slots_hold :: "nat \<Rightarrow> 'a list \<Rightarrow> bool \<Rightarrow> 'a list \<Rightarrow> bool" where
  "slots_hold L hist writing sl \<longleftrightarrow> length sl = L \<and> (\<forall>p < length hist. length hist \<le> p + L \<longrightarrow>
     \<not> (writing \<and> length hist = p + L) \<longrightarrow> sl ! (p mod L) = hist ! p)"

definition cursors_ok :: "nat \<Rightarrow> 'a list \<Rightarrow> size_t list \<Rightarrow> size_t list \<Rightarrow> (nat \<Rightarrow> 'a list) \<Rightarrow> bool" where
  "cursors_ok c hist cur seen got \<longleftrightarrow> cur \<noteq> [] \<and> length seen = length cur
     \<and> (\<forall>i < length cur. c \<le> unat (seen ! i) \<and> unat (seen ! i) \<le> unat (cur ! i)
          \<and> unat (cur ! i) \<le> length hist \<and> got i = take (unat (cur ! i)) hist)"

definition bc_sys_inv :: "'a bc_sys \<Rightarrow> bool" where
  "bc_sys_inv s \<longleftrightarrow> (let L = unat (bs_capacity s); T = length (bs_hist s); c = unat (bs_cached_min s) in
     is_pow2 (bs_capacity s) \<and> bs_mask s = bs_capacity s - 1 \<and> unat (bs_tail s) = T \<and> T \<le> c + L
     \<and> slots_hold L (bs_hist s) (is_writing (bs_prod s)) (bs_slots s)
     \<and> cursors_ok c (bs_hist s) (bs_cursors s) (bs_cur_seen s) (bs_got s)
     \<and> (\<forall>i. unat (bs_tail_seen s i) \<le> T
          \<and> bcons_ok (bs_hist s) (bs_cursors s) i (unat (bs_tail_seen s i)) (bs_cons s i))
     \<and> bprod_ok L T c (bs_slots s) (bs_cur_seen s) (bs_prod s))"

lemma bc_sys_inv_init:
  assumes "bc_init s"
  shows "bc_sys_inv s"
proof -
  obtain alloc dflt n capacity q where n: "0 < n" and c: "bc_ctor alloc dflt n capacity = Inr q"
    and s: "s = bc_boot q" using assms by (auto simp: bc_init_def)
  then have q: "b_tail q = 0" "b_cached_min q = 0" "b_cursors q = replicate n 0"
    by (auto simp: bc_ctor_def split: sum.splits option.splits)
  then show ?thesis
    using conjunct1 [OF bc_ctor_ok [OF c n]] n
    by (simp add: s bc_boot_def bc_sys_inv_def bc_inv_def slots_hold_def cursors_ok_def is_writing_def)
qed

lemma bc_sys_invD:
  assumes "bc_sys_inv s"
  shows "is_pow2 (bs_capacity s)" "0 < unat (bs_capacity s)" "bs_mask s = bs_capacity s - 1"
    "unat (bs_tail s) = length (bs_hist s)"
    "length (bs_hist s) \<le> unat (bs_cached_min s) + unat (bs_capacity s)"
    "slots_hold (unat (bs_capacity s)) (bs_hist s) (is_writing (bs_prod s)) (bs_slots s)"
    "cursors_ok (unat (bs_cached_min s)) (bs_hist s) (bs_cursors s) (bs_cur_seen s) (bs_got s)"
    "unat (bs_tail_seen s i) \<le> length (bs_hist s)"
    "bcons_ok (bs_hist s) (bs_cursors s) i (unat (bs_tail_seen s i)) (bs_cons s i)"
    "bprod_ok (unat (bs_capacity s)) (length (bs_hist s)) (unat (bs_cached_min s)) (bs_slots s)
       (bs_cur_seen s) (bs_prod s)"
    "unat (pos AND bs_mask s) = unat pos mod unat (bs_capacity s)"
  using assms is_pow2_pos [of "bs_capacity s"] unat_and_cap [of "bs_capacity s" pos]
  by (auto simp: bc_sys_inv_def Let_def)

lemma cursors_cached_le:
  assumes "cursors_ok c hist cur seen got"
  shows "c \<le> length hist"
proof -
  have "0 < length cur" using assms by (simp add: cursors_ok_def)
  then have "c \<le> unat (seen ! 0)" "unat (seen ! 0) \<le> unat (cur ! 0)" "unat (cur ! 0) \<le> length hist"
    using assms by (simp_all add: cursors_ok_def)
  then show ?thesis by linarith
qed

text \<open>Loading cursor \<open>k\<close>.\<close>

lemma cursors_load:
  assumes "cursors_ok c hist cur seen got" and "k < length cur" and "seen ! k \<le> v" and "v \<le> cur ! k"
  shows "cursors_ok c hist cur (seen[k := v]) got"
  using assms by (auto simp: cursors_ok_def word_le_nat_alt nth_list_update)

lemma bc_gate_iff:
  assumes "bc_sys_inv s"
  shows "bs_tail s - bs_cached_min s \<ge> bs_capacity s \<longleftrightarrow>
    unat (bs_cached_min s) + unat (bs_capacity s) \<le> length (bs_hist s)"
  using bc_sys_invD(4) [OF assms] cursors_cached_le [OF bc_sys_invD(7) [OF assms]]
  by (auto simp: word_le_nat_alt unat_minus_le)

lemma bc_scan_keeps_inv:
  assumes inv: "bc_sys_inv s" and pc: "bs_prod s = BP_scan x k m" and k: "k < length (bs_cursors s)"
    and v: "bs_cur_seen s ! k \<le> v" "v \<le> bs_cursors s ! k"
  shows "bc_sys_inv (s\<lparr>bs_cur_seen := (bs_cur_seen s)[k := v],
    bs_prod := BP_scan x (Suc k) (if v < m then v else m)\<rparr>)"
proof -
  note I = bc_sys_invD [OF inv]
  have len: "length (bs_cur_seen s) = length (bs_cursors s)" using I(7) by (simp add: cursors_ok_def)
  have ok: "\<forall>j < k. unat m \<le> unat (bs_cur_seen s ! j)" "\<exists>j < k. m = bs_cur_seen s ! j"
    using I(10) pc by simp_all
  have "\<exists>j < Suc k. (if v < m then v else m) = (bs_cur_seen s)[k := v] ! j"
  proof (cases "v < m")
    case True
    then show ?thesis using k len by (intro exI [of _ k]) simp
  next
    case False
    then show ?thesis using ok(2) by (metis less_SucI less_irrefl nth_list_update_neq)
  qed
  moreover have "unat (if v < m then v else m) \<le> unat ((bs_cur_seen s)[k := v] ! j)" if "j < Suc k" for j
    using ok(1) that k len by (auto simp: nth_list_update less_Suc_eq word_less_nat_alt)
  ultimately show ?thesis
    using pc k v len inv cursors_load [OF I(7), of k v] by (simp add: bc_sys_inv_def Let_def is_writing_def)
qed

lemma bc_cache_keeps_inv:
  assumes inv: "bc_sys_inv s" and pc: "bs_prod s = BP_scan x k m" and k: "\<not> k < length (bs_cursors s)"
  shows "bc_sys_inv (s\<lparr>bs_cached_min := m, bs_prod := BP_recheck x\<rparr>)"
proof -
  note I = bc_sys_invD [OF inv]
  have len: "length (bs_cur_seen s) = length (bs_cursors s)" using I(7) by (simp add: cursors_ok_def)
  then have e: "k = length (bs_cursors s)" using I(10) pc k by simp
  have "(\<forall>j < k. unat m \<le> unat (bs_cur_seen s ! j)) \<and> (\<exists>j < k. m = bs_cur_seen s ! j)"
    using I(10) unfolding pc bprod_ok.simps by blast
  then obtain j where j: "j < length (bs_cursors s)" "m = bs_cur_seen s ! j"
    and min: "\<forall>j < length (bs_cursors s). unat m \<le> unat (bs_cur_seen s ! j)"
    using e by blast
  have "unat (bs_cached_min s) \<le> unat m" using I(7) j by (simp add: cursors_ok_def)
  then have "length (bs_hist s) \<le> unat m + unat (bs_capacity s)" using I(5) by linarith
  moreover have "cursors_ok (unat m) (bs_hist s) (bs_cursors s) (bs_cur_seen s) (bs_got s)"
    using I(7) min j by (simp add: cursors_ok_def)
  ultimately show ?thesis
    using pc k inv j len by (auto simp: bc_sys_inv_def Let_def is_writing_def)
qed

lemma bc_write_keeps_inv:
  assumes inv: "bc_sys_inv s" and pc: "bs_prod s = BP_write x"
  shows "bc_sys_inv (s\<lparr>bs_slots := (bs_slots s)[unat (bs_tail s AND bs_mask s) := x], bs_prod := BP_store x\<rparr>)"
proof -
  note I = bc_sys_invD [OF inv]
  let ?L = "unat (bs_capacity s)" and ?T = "length (bs_hist s)"
  have ix: "unat (bs_tail s AND bs_mask s) = ?T mod ?L" using I(4) I(11) by simp
  have "slots_hold ?L (bs_hist s) True ((bs_slots s)[?T mod ?L := x])"
    using I(6) mod_lap_neq [of _ ?T ?L] by (fastforce simp: slots_hold_def pc is_writing_def)
  moreover have "(bs_slots s)[?T mod ?L := x] ! (?T mod ?L) = x"
    using I(2,6) by (simp add: slots_hold_def)
  ultimately show ?thesis
    using pc inv I(10) ix by (simp add: bc_sys_inv_def Let_def is_writing_def)
qed

lemma bc_store_keeps_inv:
  assumes inv: "bc_sys_inv s" and pc: "bs_prod s = BP_store x" and bound: "Suc (length (bs_hist s)) < 2 ^ 64"
  shows "bc_sys_inv (s\<lparr>bs_tail := bs_tail s + 1, bs_hist := bs_hist s @ [x], bs_prod := BP_idle\<rparr>)"
proof -
  note I = bc_sys_invD [OF inv]
  let ?L = "unat (bs_capacity s)" and ?T = "length (bs_hist s)" and ?c = "unat (bs_cached_min s)"
  have ok: "?T < ?c + ?L" "bs_slots s ! (?T mod ?L) = x" using I(10) pc by simp_all
  have "unat (bs_tail s + 1) = Suc ?T" using bound I(4) by (simp add: unat_plus1)
  moreover have "slots_hold ?L (bs_hist s @ [x]) False (bs_slots s)"
    using I(6) ok pc by (auto simp: slots_hold_def nth_append less_Suc_eq is_writing_def)
  moreover have "cursors_ok ?c (bs_hist s @ [x]) (bs_cursors s) (bs_cur_seen s) (bs_got s)"
    using I(7) by (auto simp: cursors_ok_def le_SucI)
  moreover have "bcons_ok (bs_hist s @ [x]) (bs_cursors s) i (unat (bs_tail_seen s i)) (bs_cons s i)" for i
    using I(9) [of i] I(8) [of i] by (cases "bs_cons s i") (auto simp: nth_append)
  ultimately show ?thesis
    using pc inv ok I(8) by (simp add: bc_sys_inv_def Let_def is_writing_def le_SucI)
qed

lemma bc_prod_keeps_inv:
  assumes step: "bc_prod_step s t" and inv: "bc_sys_inv s" and bound: "length (bs_hist t) < 2 ^ 64"
  shows "bc_sys_inv t"
proof -
  note I = bc_sys_invD [OF inv]
  have same: "bc_sys_inv (s\<lparr>bs_prod := pc\<rparr>)"
    if "\<not> is_writing (bs_prod s)" "\<not> is_writing pc"
      "bprod_ok (unat (bs_capacity s)) (length (bs_hist s)) (unat (bs_cached_min s)) (bs_slots s) (bs_cur_seen s) pc" for pc
    using inv that by (simp add: bc_sys_inv_def Let_def)
  from step show ?thesis
  proof cases
    case (bp_first x v)
    then have "0 < length (bs_cursors s)" "length (bs_cur_seen s) = length (bs_cursors s)"
      using I(7) by (simp_all add: cursors_ok_def)
    then show ?thesis
      using bp_first inv cursors_load [OF I(7), of 0 v] by (simp add: bc_sys_inv_def Let_def is_writing_def)
  next
    case (bp_next x k m v)
    then show ?thesis using bc_scan_keeps_inv [OF inv] by blast
  next
    case (bp_cache x k m)
    then show ?thesis using bc_cache_keeps_inv [OF inv] by blast
  next
    case (bp_write x)
    then show ?thesis using bc_write_keeps_inv [OF inv] by blast
  next
    case (bp_store x)
    then show ?thesis using bc_store_keeps_inv [OF inv, of x] bound by simp
  qed (use bc_gate_iff [OF inv] in \<open>auto intro!: same simp: is_writing_def\<close>)
qed

lemma bcons_ok_other:
  "i \<noteq> j \<Longrightarrow> bcons_ok hist cur i n pc \<Longrightarrow> bcons_ok hist (cur[j := v]) i n pc"
  by (cases pc) auto

lemma bcons_ok_seen: "bcons_ok hist cur i n pc \<Longrightarrow> n \<le> n' \<Longrightarrow> bcons_ok hist cur i n' pc"
  by (cases pc) auto

text \<open>What a consumer reads is the element of its position, also while the producer writes.\<close>

lemma bc_slot_intact:
  assumes inv: "bc_sys_inv s" and pc: "bs_cons s i = BC_in pos \<or> bs_cons s i = BC_read pos x"
  shows "bs_slots s ! unat (pos AND bs_mask s) = bs_hist s ! unat pos"
    and "unat (bs_cached_min s) \<le> unat pos \<and> unat pos < length (bs_hist s)
      \<and> (is_writing (bs_prod s) \<longrightarrow> length (bs_hist s) < unat pos + unat (bs_capacity s))"
proof -
  note I = bc_sys_invD [OF inv]
  have i: "i < length (bs_cursors s)" "pos = bs_cursors s ! i" "unat pos < unat (bs_tail_seen s i)"
    using I(9) [of i] pc by auto
  have c: "unat (bs_cached_min s) \<le> unat pos"
    using I(7) i(1,2) by (fastforce simp: cursors_ok_def intro: le_trans)
  have p: "unat pos < length (bs_hist s)" using i(3) I(8) [of i] by linarith
  have w: "length (bs_hist s) < unat pos + unat (bs_capacity s)" if "is_writing (bs_prod s)"
    using that I(10) c by (auto simp: is_writing_def)
  have "length (bs_hist s) \<le> unat pos + unat (bs_capacity s)" using I(5) c by linarith
  moreover have "\<not> (is_writing (bs_prod s) \<and> length (bs_hist s) = unat pos + unat (bs_capacity s))"
    using w by auto
  ultimately show "bs_slots s ! unat (pos AND bs_mask s) = bs_hist s ! unat pos"
    using I(6) p unfolding I(11) slots_hold_def by blast
  show "unat (bs_cached_min s) \<le> unat pos \<and> unat pos < length (bs_hist s)
      \<and> (is_writing (bs_prod s) \<longrightarrow> length (bs_hist s) < unat pos + unat (bs_capacity s))"
    using c p w by blast
qed

lemma bc_cons_keeps_inv:
  assumes step: "bc_cons_step i s t" and inv: "bc_sys_inv s"
  shows "bc_sys_inv t"
proof -
  note I = bc_sys_invD [OF inv]
  from step show ?thesis
  proof cases
    case bc_call
    then show ?thesis using inv by (simp add: bc_sys_inv_def Let_def)
  next
    case (bc_none pos v)
    then have "unat v \<le> length (bs_hist s)" using I(4) by (simp add: word_le_nat_alt)
    then show ?thesis using inv bc_none by (simp add: bc_sys_inv_def Let_def)
  next
    case (bc_some pos v)
    then have "unat v \<le> length (bs_hist s)" using I(4) by (simp add: word_le_nat_alt)
    moreover have "i < length (bs_cursors s)" "pos = bs_cursors s ! i" "unat pos < unat v"
      using I(9) [of i] bc_some by (simp_all add: word_le_nat_alt)
    ultimately show ?thesis using inv bc_some by (simp add: bc_sys_inv_def Let_def)
  next
    case (bc_read pos x)
    then have "x = bs_hist s ! unat pos" using bc_slot_intact(1) [OF inv, of i pos x] by simp
    moreover have "i < length (bs_cursors s)" "pos = bs_cursors s ! i" "unat pos < unat (bs_tail_seen s i)"
      using I(9) [of i] unfolding bc_read(2) by auto
    ultimately show ?thesis using inv bc_read(1) by (simp add: bc_sys_inv_def Let_def)
  next
    case (bc_throw pos x)
    then show ?thesis using inv by (simp add: bc_sys_inv_def Let_def)
  next
    case (bc_store pos x)
    have i: "i < length (bs_cursors s)" "pos = bs_cursors s ! i" "x = bs_hist s ! unat pos"
      using I(9) [of i] bc_store by auto
    have p: "unat pos < length (bs_hist s)"
      using bc_slot_intact(2) [OF inv, of i pos x] bc_store by simp
    have "unat (bs_tail s) < 2 ^ 64" by simp
    with p have "unat (pos + 1) = Suc (unat pos)"
      using I(4) by (subst unat_plus1) simp_all
    moreover have "bs_got s i = take (unat pos) (bs_hist s)" using I(7) i by (simp add: cursors_ok_def)
    ultimately have "cursors_ok (unat (bs_cached_min s)) (bs_hist s) ((bs_cursors s)[i := pos + 1]) (bs_cur_seen s)
        ((bs_got s)(i := bs_got s i @ [x]))"
      using I(7) i p by (auto simp: cursors_ok_def nth_list_update take_Suc_conv_app_nth)
    moreover have "bcons_ok (bs_hist s) ((bs_cursors s)[i := pos + 1]) j (unat (bs_tail_seen s j)) (bs_cons s j)"
      if "j \<noteq> i" for j using bcons_ok_other [OF that I(9) [of j]] .
    ultimately show ?thesis using inv bc_store by (simp add: bc_sys_inv_def Let_def)
  qed
qed

lemma bc_step_hist: "bc_step s t \<Longrightarrow> length (bs_hist s) \<le> length (bs_hist t)"
  unfolding bc_step_def by (auto elim!: bc_prod_step.cases bc_cons_step.cases)

lemma bc_step_keeps_inv: "bc_sys_inv s \<Longrightarrow> bc_step s t \<Longrightarrow> length (bs_hist t) < 2 ^ 64 \<Longrightarrow> bc_sys_inv t"
  unfolding bc_step_def by (blast intro: bc_prod_keeps_inv bc_cons_keeps_inv)

interpretation bc_sys: guarded_machine bc_init bc_step bc_sys_inv "\<lambda>s. length (bs_hist s)" "2 ^ 64"
  by unfold_locales (simp_all only: bc_sys_inv_init bc_step_hist bc_step_keeps_inv)

section \<open>Properties\<close>

text \<open>
  Two states of a run on a queue of capacity 2 with one consumer: the producer is about to write
  its second item while the consumer is in its callback; later the producer has found the
  queue full.
\<close>

definition bc_mid :: "nat bc_sys" where
  "bc_mid = \<lparr>bs_capacity = 2, bs_mask = 1, bs_slots = [7, 0], bs_tail = 1, bs_cached_min = 0,
     bs_cursors = [0], bs_cur_seen = [0], bs_tail_seen = (\<lambda>_. 0)(0 := 1), bs_prod = BP_write 8,
     bs_cons = (\<lambda>_. BC_idle)(0 := BC_in 0), bs_hist = [7], bs_got = (\<lambda>_. [])\<rparr>"

definition bc_full_demo :: "nat bc_sys" where
  "bc_full_demo = bc_mid\<lparr>bs_slots := [7, 8], bs_tail := 2, bs_hist := [7, 8], bs_prod := BP_recheck 9\<rparr>"

lemma bc_reach: "reach bc_init bc_step s \<Longrightarrow> bc_step s t \<Longrightarrow> reach bc_init bc_step t"
  by (rule reach_step)

lemma bc_mid_reach: "reach bc_init bc_step bc_mid"
proof -
  define q :: "nat bcast" where "q = \<lparr>b_capacity = 2, b_mask = 1, b_slots = [0, 0], b_tail = 0,
    b_cached_min = 0, b_cursors = [0]\<rparr>"
  have c: "bc_ctor (\<lambda>_. None) 0 1 2 = Inr q"
    by (simp add: q_def bc_ctor_def bc_check_and_round_capacity_def bit_ceil_values replicate_2)
  have "bc_init (bc_boot q)" unfolding bc_init_def using c by (metis zero_less_one)
  then have r0: "reach bc_init bc_step (bc_boot q)" by (rule reach_init)
  define s1 where "s1 = (bc_boot q)\<lparr>bs_prod := BP_gate 7\<rparr>"
  define s2 where "s2 = s1\<lparr>bs_prod := BP_write 7\<rparr>"
  define s3 where "s3 = s2\<lparr>bs_slots := [7, 0], bs_prod := BP_store 7\<rparr>"
  define s4 where "s4 = s3\<lparr>bs_tail := 1, bs_hist := [7], bs_prod := BP_idle\<rparr>"
  define s5 where "s5 = s4\<lparr>bs_cons := (\<lambda>_. BC_idle)(0 := BC_load 0)\<rparr>"
  define s6 where "s6 = s5\<lparr>bs_tail_seen := (\<lambda>_. 0)(0 := 1), bs_cons := (\<lambda>_. BC_idle)(0 := BC_in 0)\<rparr>"
  define s7 where "s7 = s6\<lparr>bs_prod := BP_gate 8\<rparr>"
  note defs = s7_def s6_def s5_def s4_def s3_def s2_def s1_def q_def bc_boot_def
  have p: "bc_prod_step (bc_boot q) s1" "bc_prod_step s1 s2" "bc_prod_step s2 s3" "bc_prod_step s3 s4"
    "bc_prod_step s6 s7" "bc_prod_step s7 bc_mid"
    by (simp_all add: bc_prod_step.simps defs bc_mid_def word_le_nat_alt)
  have k: "bc_cons_step 0 s4 s5" "bc_cons_step 0 s5 s6"
    by (auto simp: bc_cons_step.simps defs)
  have "bc_step (bc_boot q) s1" "bc_step s1 s2" "bc_step s2 s3" "bc_step s3 s4" "bc_step s4 s5"
    "bc_step s5 s6" "bc_step s6 s7" "bc_step s7 bc_mid"
    using p k unfolding bc_step_def by blast+
  with r0 show ?thesis by (meson bc_reach)
qed

lemma bc_full_demo_reach: "reach bc_init bc_step bc_full_demo"
proof -
  define s1 where "s1 = bc_mid\<lparr>bs_slots := [7, 8], bs_prod := BP_store 8\<rparr>"
  define s2 where "s2 = s1\<lparr>bs_tail := 2, bs_hist := [7, 8], bs_prod := BP_idle\<rparr>"
  define s3 where "s3 = s2\<lparr>bs_prod := BP_gate 9\<rparr>"
  define s4 where "s4 = s3\<lparr>bs_prod := BP_first 9\<rparr>"
  define s5 where "s5 = s4\<lparr>bs_prod := BP_scan 9 1 0\<rparr>"
  note defs = s5_def s4_def s3_def s2_def s1_def bc_mid_def
  have "bc_prod_step bc_mid s1" "bc_prod_step s1 s2" "bc_prod_step s2 s3" "bc_prod_step s3 s4"
    "bc_prod_step s4 s5" "bc_prod_step s5 bc_full_demo"
    by (simp_all add: bc_prod_step.simps defs bc_full_demo_def)
  then have "bc_step bc_mid s1" "bc_step s1 s2" "bc_step s2 s3" "bc_step s3 s4" "bc_step s4 s5"
    "bc_step s5 bc_full_demo" by (simp_all add: bc_step_def)
  with bc_mid_reach show ?thesis by (meson bc_reach)
qed

text \<open>
  C2. SPMCBroadcastQueue under concurrency delivers everything to everybody: in every reachable
  state what consumer \<open>i\<close> has read is exactly the first \<open>position()\<close> published items, in
  order and intact, and it is never more than \<open>capacity\<close> items behind.
\<close>

theorem bc_concurrent_delivery:
  assumes "reach bc_init bc_step s" and "length (bs_hist s) < 2 ^ 64" and "i < length (bs_cursors s)"
  shows "bs_got s i = take (unat (bs_cursors s ! i)) (bs_hist s)
    \<and> unat (bs_cursors s ! i) \<le> length (bs_hist s)
    \<and> length (bs_hist s) \<le> unat (bs_cursors s ! i) + unat (bs_capacity s)"
proof -
  note I = bc_sys_invD [OF bc_sys.reach_inv [OF assms(1,2)]]
  have "unat (bs_cached_min s) \<le> unat (bs_cursors s ! i)"
    using I(7) assms(3) by (fastforce simp: cursors_ok_def intro: le_trans)
  then show ?thesis using I(5) I(7) assms(3) by (simp add: cursors_ok_def)
qed

theorem bc_concurrent_delivery_witness: "length (bs_hist bc_full_demo) \<le> unat (bs_cursors bc_full_demo ! 0) + 2"
  using bc_concurrent_delivery [OF bc_full_demo_reach, of 0] by (simp add: bc_full_demo_def bc_mid_def)

text \<open>
  C8. The reference handed to a callback of \<open>try_consume\<close> is safe for the whole call, although
  the producer decides with a cached and possibly stale minimum: the slot holds the
  consumer's item and is not the one the producer writes. When the producer writes, every
  earlier item of that slot was consumed by every consumer, with a cursor store that the
  producer has acquired; and a consumer in its callback has acquired the \<open>tail_\<close> store of its
  item.
\<close>

theorem bc_callback_intact:
  assumes "reach bc_init bc_step s" and "length (bs_hist s) < 2 ^ 64"
  shows "(bs_cons s i = BC_in pos \<or> bs_cons s i = BC_read pos y \<longrightarrow>
      bs_slots s ! unat (pos AND bs_mask s) = bs_hist s ! unat pos
      \<and> unat pos < unat (bs_tail_seen s i)
      \<and> (bs_prod s = BP_write x \<or> bs_prod s = BP_store x \<longrightarrow>
          unat (bs_tail s AND bs_mask s) \<noteq> unat (pos AND bs_mask s)))
    \<and> (bs_prod s = BP_write x \<longrightarrow> p < length (bs_hist s) \<longrightarrow>
        p mod unat (bs_capacity s) = unat (bs_tail s AND bs_mask s) \<longrightarrow> j < length (bs_cursors s) \<longrightarrow>
        p < unat (bs_cur_seen s ! j))"
proof -
  have inv: "bc_sys_inv s" using bc_sys.reach_inv [OF assms] .
  note I = bc_sys_invD [OF inv]
  let ?T = "length (bs_hist s)" and ?L = "unat (bs_capacity s)" and ?c = "unat (bs_cached_min s)"
  have gate: "?T < ?c + ?L" if "bs_prod s = BP_write x \<or> bs_prod s = BP_store x"
    using I(10) that by auto
  have "bs_slots s ! unat (pos AND bs_mask s) = bs_hist s ! unat pos
      \<and> unat pos < unat (bs_tail_seen s i)
      \<and> (bs_prod s = BP_write x \<or> bs_prod s = BP_store x \<longrightarrow>
          unat (bs_tail s AND bs_mask s) \<noteq> unat (pos AND bs_mask s))"
    if pc: "bs_cons s i = BC_in pos \<or> bs_cons s i = BC_read pos y"
  proof -
    note S = bc_slot_intact [OF inv pc]
    have "unat pos < unat (bs_tail_seen s i)" using I(9) [of i] pc by auto
    moreover have "?T mod ?L \<noteq> unat pos mod ?L" if "bs_prod s = BP_write x \<or> bs_prod s = BP_store x"
      using mod_lap_neq [of "unat pos" ?T ?L] gate [OF that] S(2) by simp
    ultimately show ?thesis using S(1) I(4) unfolding I(11) by simp
  qed
  moreover have "p < unat (bs_cur_seen s ! j)"
    if "bs_prod s = BP_write x" "p < ?T" "p mod ?L = unat (bs_tail s AND bs_mask s)" "j < length (bs_cursors s)"
  proof -
    have "?T < ?c + ?L" using gate that(1) by blast
    then have "p < ?c"
      using mod_lap_neq [of p ?T ?L] that(2,3) I(4) unfolding I(11) by (cases "?T < p + ?L") simp_all
    also have "?c \<le> unat (bs_cur_seen s ! j)" using I(7) that(4) by (simp add: cursors_ok_def)
    finally show ?thesis .
  qed
  ultimately show ?thesis by blast
qed

theorem bc_callback_intact_witness:
  "bs_slots bc_mid ! 0 = bs_hist bc_mid ! 0 \<and> unat (bs_tail bc_mid AND bs_mask bc_mid) \<noteq> 0"
  using bc_callback_intact [OF bc_mid_reach, of 0 0 0 8] by (simp add: bc_mid_def)

text \<open>
  \<open>try_publish\<close> is refused only for a reason: after its scan the producer reports full
  exactly when the smallest cursor it has loaded is a full lap behind the tail, and then that
  cursor belongs to a consumer.
\<close>

theorem bc_full_accurate:
  assumes "reach bc_init bc_step s" and "length (bs_hist s) < 2 ^ 64" and "bs_prod s = BP_recheck x"
  shows "(bs_tail s - bs_cached_min s \<ge> bs_capacity s \<longleftrightarrow>
      length (bs_hist s) = unat (bs_cached_min s) + unat (bs_capacity s))
    \<and> (\<exists>j < length (bs_cursors s). bs_cached_min s = bs_cur_seen s ! j)
    \<and> list_all (\<lambda>v. bs_cached_min s \<le> v) (bs_cur_seen s)"
proof -
  have inv: "bc_sys_inv s" using bc_sys.reach_inv [OF assms(1,2)] .
  note I = bc_sys_invD [OF inv]
  have "\<exists>j < length (bs_cursors s). bs_cached_min s = bs_cur_seen s ! j"
    using I(7,10) assms(3) by (auto simp: cursors_ok_def word_eq_iff_unat)
  moreover have "list_all (\<lambda>v. bs_cached_min s \<le> v) (bs_cur_seen s)"
    using I(7) by (simp add: cursors_ok_def list_all_length word_le_nat_alt)
  moreover have "bs_tail s - bs_cached_min s \<ge> bs_capacity s \<longleftrightarrow>
      length (bs_hist s) = unat (bs_cached_min s) + unat (bs_capacity s)"
    unfolding bc_gate_iff [OF inv] using I(5) by linarith
  ultimately show ?thesis by blast
qed

theorem bc_full_accurate_witness:
  "length (bs_hist bc_full_demo) = unat (bs_cached_min bc_full_demo) + unat (bs_capacity bc_full_demo)"
  using bc_full_accurate [OF bc_full_demo_reach, of 9] by (simp add: bc_full_demo_def bc_mid_def)

text \<open>How many own steps a call can still take, with \<open>n\<close> consumers.\<close>

fun bprod_rank :: "nat \<Rightarrow> 'a bprod \<Rightarrow> nat" where
  "bprod_rank n BP_idle = 0"
| "bprod_rank n (BP_gate x) = n + 6"
| "bprod_rank n (BP_first x) = n + 5"
| "bprod_rank n (BP_scan x k m) = (n - k) + 4"
| "bprod_rank n (BP_recheck x) = 3"
| "bprod_rank n (BP_write x) = 2"
| "bprod_rank n (BP_store x) = 1"

fun bcons_rank :: "'a bcons \<Rightarrow> nat" where
  "bcons_rank BC_idle = 0"
| "bcons_rank (BC_load pos) = 3"
| "bcons_rank (BC_in pos) = 2"
| "bcons_rank (BC_read pos x) = 1"

lemma bprod_progress: "bc_prod_step s t \<Longrightarrow> bs_cons t = bs_cons s
    \<and> (bs_prod s \<noteq> BP_idle \<longrightarrow>
        bprod_rank (length (bs_cursors t)) (bs_prod t) < bprod_rank (length (bs_cursors s)) (bs_prod s))"
  by (cases rule: bc_prod_step.cases) auto

lemma bcons_progress: "bc_cons_step i s t \<Longrightarrow> bs_prod t = bs_prod s
    \<and> length (bs_cursors t) = length (bs_cursors s)
    \<and> (bs_cons s i \<noteq> BC_idle \<longrightarrow> bcons_rank (bs_cons t i) < bcons_rank (bs_cons s i))"
  by (cases rule: bc_cons_step.cases) auto

lemma bprod_enabled:
  assumes "bc_sys_inv s"
  shows "Ex (bc_prod_step s)"
proof -
  note I = bc_sys_invD [OF assms]
  have seen: "bs_cur_seen s ! k \<le> bs_cursors s ! k" if "k < length (bs_cursors s)" for k
    using I(7) that by (simp add: cursors_ok_def word_le_nat_alt)
  have "0 < length (bs_cursors s)" using I(7) by (simp add: cursors_ok_def)
  show ?thesis
  proof (cases "bs_prod s")
    case (BP_gate x)
    then show ?thesis by (cases "bs_tail s - bs_cached_min s \<ge> bs_capacity s") (blast dest: bp_cached bp_rescan)+
  next
    case (BP_first x)
    from bp_first [OF this seen [OF \<open>0 < length (bs_cursors s)\<close>] order_refl] show ?thesis by blast
  next
    case (BP_scan x k m)
    show ?thesis
    proof (cases "k < length (bs_cursors s)")
      case True
      from bp_next [OF BP_scan True seen [OF True] order_refl] show ?thesis by blast
    next
      case False
      from bp_cache [OF BP_scan False] show ?thesis by blast
    qed
  next
    case (BP_recheck x)
    then show ?thesis by (cases "bs_tail s - bs_cached_min s \<ge> bs_capacity s") (blast dest: bp_full bp_space)+
  qed (blast intro: bc_prod_step.intros)+
qed

lemma bcons_enabled:
  assumes "bc_sys_inv s" and "i < length (bs_cursors s)"
  shows "Ex (bc_cons_step i s)"
proof (cases "bs_cons s i")
  case (BC_load pos)
  have "bs_tail_seen s i \<le> bs_tail s"
    using bc_sys_invD(4,8) [OF assms(1)] by (simp add: word_le_nat_alt)
  then show ?thesis
    using bc_none [OF BC_load _ order_refl] bc_some [OF BC_load _ order_refl] by blast
next
  case BC_idle
  from bc_call [OF assms(2) this] show ?thesis by blast
qed (blast intro: bc_read bc_store)+

text \<open>
  Both operations of SPMCBroadcastQueue are wait-free: inside a call each thread always has
  a step of its own and each of its steps brings it closer to returning, the producer's scan
  included; the other threads do not touch its program counter.
\<close>

theorem bc_wait_free:
  assumes "reach bc_init bc_step s" and "length (bs_hist s) < 2 ^ 64" and "i < length (bs_cursors s)"
  shows "Ex (bc_prod_step s) \<and> Ex (bc_cons_step i s)
    \<and> \<not> (\<exists>t. bc_prod_step s t \<and> bs_cons t \<noteq> bs_cons s)
    \<and> \<not> (\<exists>t. bc_prod_step s t \<and> bs_prod s \<noteq> BP_idle
          \<and> bprod_rank (length (bs_cursors s)) (bs_prod s) \<le> bprod_rank (length (bs_cursors t)) (bs_prod t))
    \<and> \<not> (\<exists>t. bc_cons_step i s t \<and> bs_prod t \<noteq> bs_prod s)
    \<and> \<not> (\<exists>t. bc_cons_step i s t \<and> bs_cons s i \<noteq> BC_idle
          \<and> bcons_rank (bs_cons s i) \<le> bcons_rank (bs_cons t i))"
proof -
  have inv: "bc_sys_inv s" using bc_sys.reach_inv [OF assms(1,2)] .
  show ?thesis
    using bprod_enabled [OF inv] bcons_enabled [OF inv assms(3)] bprod_progress bcons_progress
    by (meson not_le)
qed

theorem bc_wait_free_witness: "Ex (bc_prod_step bc_mid) \<and> Ex (bc_cons_step 0 bc_mid)"
  using bc_wait_free [OF bc_mid_reach, of 0] by (simp add: bc_mid_def)

end
