(* ===== verification/Overwrite.thy ===== *)
theory Overwrite
  imports Capacity Ring "HOL-Library.Sublist"
begin

text \<open>
  \<open>SPMCOverwriteQueue<T>\<close> of SPMCOverwriteQueue.h, one call at a time: the slots with their
  sequence numbers, the producer that never waits, and the consumers, each a position and
  a count of missed items of its own. Positions start at 1 and a sequence number is a
  position shifted left by one, the low bit telling that the slot is being written; the
  statements are for fewer than \<open>2 ^ 63\<close> items.
\<close>

section \<open>State and operations\<close>

record 'a oslot =
  os_seq :: size_t
  os_data :: 'a

record 'a owq =
  o_capacity :: size_t
  o_mask :: size_t
  o_slots :: "'a oslot list"
  o_write_pos :: size_t
  o_published :: size_t

datatype status = Ok | Empty_status | Lapped

record ocons =
  oc_pos :: size_t
  oc_missed :: size_t

definition ow_ctor :: "(size_t \<Rightarrow> exn option) \<Rightarrow> 'a \<Rightarrow> size_t \<Rightarrow> exn + 'a owq" where
  "ow_ctor alloc dflt capacity =
     (case ow_check_and_round_capacity capacity of
        Inl e \<Rightarrow> Inl e
      | Inr cap \<Rightarrow>
          (case alloc cap of
             Some e \<Rightarrow> Inl e
           | None \<Rightarrow> Inr \<lparr>o_capacity = cap, o_mask = cap - 1,
               o_slots = replicate (unat cap) \<lparr>os_seq = 0, os_data = dflt\<rparr>, o_write_pos = 0, o_published = 0\<rparr>))"

text \<open>
  \<open>publish\<close>. The element is constructed after the slot was marked: if its constructor throws
  (\<open>mk\<close> is \<open>Inl\<close>), the position has been consumed and the slot stays marked.
\<close>

definition ow_publish :: "'e + 'a \<Rightarrow> 'a owq \<Rightarrow> 'e option \<times> 'a owq" where
  "ow_publish mk q =
     (let pos = o_write_pos q + 1; i = unat (pos AND o_mask q);
          s1 = (o_slots q ! i)\<lparr>os_seq := push_bit 1 pos OR 1\<rparr>;
          q1 = q\<lparr>o_write_pos := pos, o_slots := (o_slots q)[i := s1]\<rparr> in
      case mk of
        Inl e \<Rightarrow> (Some e, q1)
      | Inr tmp \<Rightarrow>
          (None, q1\<lparr>o_slots := (o_slots q1)[i := s1\<lparr>os_data := tmp, os_seq := push_bit 1 pos\<rparr>],
                    o_published := pos\<rparr>))"

text \<open>\<open>Consumer::lapped_to\<close>, given the value \<open>pub\<close> of \<open>published_\<close>.\<close>

definition ow_target :: "size_t \<Rightarrow> size_t \<Rightarrow> size_t \<Rightarrow> size_t \<Rightarrow> size_t" where
  "ow_target pub cap pos newest =
     (let target = (if pub > cap then pub - cap + 1 else 1) in
      if target \<le> pos then newest else target)"

definition ow_lapped_to :: "size_t \<Rightarrow> size_t \<Rightarrow> size_t \<Rightarrow> ocons \<Rightarrow> ocons" where
  "ow_lapped_to pub cap newest c =
     (let target = ow_target pub cap (oc_pos c) newest in
      if target > oc_pos c
      then c\<lparr>oc_missed := oc_missed c + (target - oc_pos c), oc_pos := target\<rparr>
      else c)"

text \<open>\<open>Consumer::try_read\<close>: the status, what \<open>out\<close> holds afterwards and the consumer.\<close>

definition ow_try_read :: "'a owq \<Rightarrow> ocons \<Rightarrow> 'a \<Rightarrow> status \<times> 'a \<times> ocons" where
  "ow_try_read q c out =
     (let s = o_slots q ! unat (oc_pos c AND o_mask q); s1 = os_seq s in
      if s1 AND 1 \<noteq> 0 then (Empty_status, out, c)
      else let have' = drop_bit 1 s1 in
        if have' < oc_pos c then (Empty_status, out, c)
        else if have' > oc_pos c then (Lapped, out, ow_lapped_to (o_published q) (o_capacity q) have' c)
        else let out' = os_data s; s2 = os_seq s in
          if s1 \<noteq> s2 then (Lapped, out', ow_lapped_to (o_published q) (o_capacity q) (drop_bit 1 s2) c)
          else (Ok, out', c\<lparr>oc_pos := oc_pos c + 1\<rparr>))"

definition ow_make_consumer :: "'a owq \<Rightarrow> ocons" where
  "ow_make_consumer q = \<lparr>oc_pos = o_published q + 1, oc_missed = 0\<rparr>"

definition ow_missed :: "ocons \<Rightarrow> size_t" where
  "ow_missed c = oc_missed c"

definition ow_capacity :: "'a owq \<Rightarrow> size_t" where
  "ow_capacity q = o_capacity q"

definition ow_published_count :: "'a owq \<Rightarrow> size_t" where
  "ow_published_count q = o_published q"

section \<open>Sequence numbers\<close>

text \<open>Marking and reading back a position that fits into 63 bits.\<close>

lemma seq_stable: "unat p < 2 ^ 63 \<Longrightarrow> unat (push_bit 1 p :: size_t) = 2 * unat p"
  by (simp add: push_bit_eq_mult unat_word_ariths)

lemma seq_even: "(push_bit 1 p :: size_t) AND 1 = 0"
proof -
  have "even (push_bit 1 p)" by (simp add: push_bit_eq_mult)
  then show ?thesis by (simp only: and_one_eq even_iff_mod_2_eq_zero)
qed

lemma seq_or_one: "(push_bit 1 p OR 1 :: size_t) = push_bit 1 p + 1"
  using word_plus_and_or [of "push_bit 1 p" "1 :: size_t"] unfolding seq_even by (simp only: add_0_left)

lemma seq_odd: "(push_bit 1 p OR 1 :: size_t) AND 1 = 1"
  by (rule bit_word_eqI) (auto simp: bit_1_iff bit_and_iff bit_or_iff)

lemma seq_busy: "unat p < 2 ^ 63 \<Longrightarrow> unat (push_bit 1 p OR 1 :: size_t) = Suc (2 * unat p)"
  unfolding seq_or_one using seq_stable [of p] by (subst unat_plus1) simp_all

lemma seq_position: "unat p < 2 ^ 63 \<Longrightarrow> drop_bit 1 (push_bit 1 p :: size_t) = p"
  "unat p < 2 ^ 63 \<Longrightarrow> drop_bit 1 (push_bit 1 p OR 1 :: size_t) = p"
  using seq_stable [of p] seq_busy [of p]
  by (simp_all add: word_eq_iff_unat drop_bit_eq_div unat_div)

section \<open>Well-formedness\<close>

text \<open>
  \<open>hist\<close> is what was published, position \<open>p\<close> being \<open>hist ! (p - 1)\<close>: the last \<open>capacity\<close>
  items are in their slots, and slots that no item has reached yet have sequence number 0.
\<close>

definition ow_inv :: "'a list \<Rightarrow> 'a owq \<Rightarrow> bool" where
  "ow_inv hist q \<longleftrightarrow> is_pow2 (o_capacity q) \<and> 2 \<le> unat (o_capacity q) \<and> o_mask q = o_capacity q - 1
     \<and> length (o_slots q) = unat (o_capacity q) \<and> length hist < 2 ^ 63
     \<and> unat (o_write_pos q) = length hist \<and> unat (o_published q) = length hist
     \<and> (\<forall>p. 1 \<le> p \<longrightarrow> p \<le> length hist \<longrightarrow> length hist < p + unat (o_capacity q) \<longrightarrow>
          o_slots q ! (p mod unat (o_capacity q)) = \<lparr>os_seq = push_bit 1 (word_of_nat p), os_data = hist ! (p - 1)\<rparr>)
     \<and> (\<forall>p. length hist < p \<longrightarrow> p \<le> unat (o_capacity q) \<longrightarrow>
          os_seq (o_slots q ! (p mod unat (o_capacity q))) = 0)"

lemma ow_invD:
  assumes "ow_inv hist q"
  shows "is_pow2 (o_capacity q)" "2 \<le> unat (o_capacity q)" "o_mask q = o_capacity q - 1"
    "length (o_slots q) = unat (o_capacity q)" "length hist < 2 ^ 63"
    "unat (o_write_pos q) = length hist" "unat (o_published q) = length hist"
    "1 \<le> p \<Longrightarrow> p \<le> length hist \<Longrightarrow> length hist < p + unat (o_capacity q) \<Longrightarrow>
      o_slots q ! (p mod unat (o_capacity q)) = \<lparr>os_seq = push_bit 1 (word_of_nat p), os_data = hist ! (p - 1)\<rparr>"
    "length hist < p \<Longrightarrow> p \<le> unat (o_capacity q) \<Longrightarrow> os_seq (o_slots q ! (p mod unat (o_capacity q))) = 0"
    "unat (w AND o_mask q) = unat w mod unat (o_capacity q)"
  using assms unat_and_cap [of "o_capacity q" w] by (auto simp: ow_inv_def)

lemma ow_ctor_ok:
  assumes "ow_ctor alloc dflt capacity = Inr q"
  shows "ow_inv [] q \<and> o_capacity q = bit_ceil capacity \<and> o_published q = 0"
proof -
  obtain cap where c: "ow_check_and_round_capacity capacity = Inr cap"
    and q: "q = \<lparr>o_capacity = cap, o_mask = cap - 1, o_slots = replicate (unat cap) \<lparr>os_seq = 0, os_data = dflt\<rparr>,
        o_write_pos = 0, o_published = 0\<rparr>"
    using assms by (auto simp: ow_ctor_def split: sum.splits option.splits)
  moreover have "0 < unat cap" using ow_cap.accepted_bounds(1) [OF c] by linarith
  ultimately show ?thesis
    using ow_cap.accepted [OF c] ow_cap.accepted_pow2 [OF c] ow_cap.accepted_bounds(1) [OF c]
    by (auto simp: ow_inv_def)
qed

lemma oslot_overwrite: "(s :: 'a oslot)\<lparr>os_data := x, os_seq := n\<rparr> = \<lparr>os_seq = n, os_data = x\<rparr>"
  by (cases s) simp

lemma ow_publish_ok:
  assumes inv: "ow_inv hist q" and small: "Suc (length hist) < 2 ^ 63"
  shows "\<exists>q'. ow_publish (Inr x) q = (None, q') \<and> ow_inv (hist @ [x]) q' \<and> o_capacity q' = o_capacity q"
proof -
  let ?T = "length hist" and ?L = "unat (o_capacity q)" and ?w = "o_write_pos q + 1"
  note I = ow_invD [OF inv]
  have w: "unat ?w = Suc ?T" using I(6) small by (simp add: unat_plus1)
  have ix: "unat (?w AND o_mask q) = Suc ?T mod ?L" using I(10) w by simp
  have pos: "0 < ?L" using I(2) by linarith
  then have lt: "Suc ?T mod ?L < ?L" by simp
  have wn: "word_of_nat (Suc ?T) = ?w" unfolding w [symmetric] by simp
  let ?s = "\<lparr>os_seq = push_bit 1 ?w, os_data = x\<rparr>"
  let ?q' = "q\<lparr>o_write_pos := ?w, o_slots := (o_slots q)[Suc ?T mod ?L := ?s], o_published := ?w\<rparr>"
  have "ow_publish (Inr x) q = (None, ?q')"
    using lt I(4) by (simp add: ow_publish_def Let_def ix oslot_overwrite)
  moreover have "(o_slots q)[Suc ?T mod ?L := ?s] ! (p mod ?L)
      = \<lparr>os_seq = push_bit 1 (word_of_nat p), os_data = (hist @ [x]) ! (p - 1)\<rparr>"
    if "1 \<le> p" "p \<le> Suc ?T" "Suc ?T < p + ?L" for p
  proof (cases "p = Suc ?T")
    case True
    then show ?thesis using lt I(4) wn by (simp del: of_nat_Suc)
  next
    case False
    then have "p mod ?L \<noteq> Suc ?T mod ?L" using mod_lap_neq [of p "Suc ?T" ?L] that by simp
    moreover have "p - 1 < ?T" using False that by linarith
    ultimately show ?thesis using I(8) [of p] that False by (simp add: nth_append)
  qed
  moreover have "os_seq ((o_slots q)[Suc ?T mod ?L := ?s] ! (p mod ?L)) = 0"
    if "Suc ?T < p" "p \<le> ?L" for p
  proof -
    have "Suc ?T mod ?L \<noteq> p mod ?L" using mod_lap_neq [of "Suc ?T" p ?L] that by simp
    then show ?thesis using I(9) [of p] that by simp
  qed
  ultimately show ?thesis
    using I(1-4) w small by (intro exI [of _ ?q']) (simp add: ow_inv_def)
qed

text \<open>Reading from a quiescent queue.\<close>

lemma ow_read_empty:
  assumes inv: "ow_inv hist q" and pos: "unat (oc_pos c) = Suc (length hist)"
  shows "ow_try_read q c out = (Empty_status, out, c)"
proof -
  let ?T = "length hist" and ?L = "unat (o_capacity q)"
  note I = ow_invD [OF inv]
  define seq where "seq = os_seq (o_slots q ! (Suc ?T mod ?L))"
  have "seq AND 1 = 0 \<and> drop_bit 1 seq < oc_pos c"
  proof (cases "Suc ?T \<le> ?L")
    case True
    then have "seq = 0" using I(9) [of "Suc ?T"] by (simp add: seq_def)
    then show ?thesis using pos by (simp add: word_less_nat_alt)
  next
    case False
    let ?p = "Suc ?T - ?L"
    have "?p mod ?L = Suc ?T mod ?L" using False by (metis le_mod_geq nat_le_linear)
    then have "seq = push_bit 1 (word_of_nat ?p)" using I(8) [of ?p] False I(2) by (simp add: seq_def)
    moreover have "unat (word_of_nat ?p :: size_t) = ?p" using I(5) by (simp add: unat_of_nat)
    ultimately show ?thesis
      using seq_even seq_position(1) [of "word_of_nat ?p"] I(5) pos I(2)
      by (simp add: word_less_nat_alt del: One_nat_def)
  qed
  then show ?thesis using I(10) [of "oc_pos c"] pos by (simp add: ow_try_read_def Let_def seq_def del: One_nat_def)
qed

lemma ow_read_ok:
  assumes inv: "ow_inv hist q" and pos: "1 \<le> unat (oc_pos c)" "unat (oc_pos c) \<le> length hist"
    "length hist < unat (oc_pos c) + unat (o_capacity q)"
  shows "ow_try_read q c out = (Ok, hist ! (unat (oc_pos c) - 1), c\<lparr>oc_pos := oc_pos c + 1\<rparr>)"
proof -
  note I = ow_invD [OF inv]
  have "o_slots q ! unat (oc_pos c AND o_mask q) =
      \<lparr>os_seq = push_bit 1 (oc_pos c), os_data = hist ! (unat (oc_pos c) - 1)\<rparr>"
    using I(8) [of "unat (oc_pos c)"] pos I(10) [of "oc_pos c"] by simp
  moreover have "drop_bit 1 (push_bit 1 (oc_pos c)) = oc_pos c"
    using seq_position(1) [of "oc_pos c"] pos I(5) by simp
  ultimately show ?thesis using seq_even [of "oc_pos c"] by (simp add: ow_try_read_def Let_def del: One_nat_def)
qed

text \<open>The item that sits in the slot of an overwritten position.\<close>

lemma lap_ahead:
  assumes "0 < L" and "pos + L \<le> (T::nat)"
  shows "\<exists>p. p mod L = pos mod L \<and> pos < p \<and> p \<le> T \<and> T < p + L"
proof -
  let ?k = "(T - pos) div L"
  have k: "?k * L \<le> T - pos" "T - pos < ?k * L + L"
    using assms dividend_less_times_div [of L "T - pos"] by (simp_all add: mult.commute add.commute)
  moreover have "1 \<le> ?k" using assms by (simp add: div_greater_zero_iff Suc_le_eq)
  then have "L \<le> ?k * L" by simp
  ultimately show ?thesis
    using assms by (intro exI [of _ "pos + ?k * L"] conjI) (simp, linarith+)
qed

lemma ow_target_oldest:
  assumes "0 < unat cap" and "unat cap < unat pub" and "unat pos < unat pub - unat cap + 1"
  shows "unat (ow_target pub cap pos newest) = unat pub - unat cap + 1"
proof -
  have "unat pub < 2 ^ 64" by simp
  then have "unat pub - unat cap + 1 < 2 ^ 64" using assms by linarith
  moreover have "unat (pub - cap) = unat pub - unat cap" using assms by (simp add: unat_minus_le)
  ultimately have "unat (pub - cap + 1) = unat pub - unat cap + 1" by (simp add: unat_plus1)
  with assms show ?thesis by (simp add: ow_target_def word_less_nat_alt word_le_nat_alt)
qed

lemma ow_read_lapped:
  assumes inv: "ow_inv hist q" and pos: "1 \<le> unat (oc_pos c)" "unat (oc_pos c) + unat (o_capacity q) \<le> length hist"
  shows "\<exists>c'. ow_try_read q c out = (Lapped, out, c')
    \<and> unat (oc_pos c') = length hist - unat (o_capacity q) + 1
    \<and> oc_missed c' = oc_missed c + (oc_pos c' - oc_pos c)"
proof -
  let ?T = "length hist" and ?L = "unat (o_capacity q)" and ?p = "unat (oc_pos c)"
  note I = ow_invD [OF inv]
  have "0 < ?L" using I(2) by linarith
  from lap_ahead [OF this pos(2)] obtain p where p: "p mod ?L = ?p mod ?L" "?p < p" "p \<le> ?T" "?T < p + ?L" by blast
  have u: "unat (word_of_nat p :: size_t) = p" using p(3) I(5) by (simp add: unat_of_nat)
  have "os_seq (o_slots q ! unat (oc_pos c AND o_mask q)) = push_bit 1 (word_of_nat p)"
    using I(8) [of p] p pos I(10) [of "oc_pos c"] by (simp del: One_nat_def)
  moreover have "drop_bit 1 (push_bit 1 (word_of_nat p)) = (word_of_nat p :: size_t)"
    using seq_position(1) [of "word_of_nat p"] u p(3) I(5) by simp
  moreover have "oc_pos c < word_of_nat p" using p(2) u by (simp add: word_less_nat_alt)
  moreover define c' where "c' = ow_lapped_to (o_published q) (o_capacity q) (word_of_nat p) c"
  ultimately have "ow_try_read q c out = (Lapped, out, c')"
    using seq_even [of "word_of_nat p"]
    by (simp add: ow_try_read_def Let_def less_not_sym del: One_nat_def)
  moreover have t: "unat (ow_target (o_published q) (o_capacity q) (oc_pos c) (word_of_nat p)) = ?T - ?L + 1"
    using ow_target_oldest [of "o_capacity q" "o_published q" "oc_pos c"] I(2,7) pos by simp
  moreover have "ow_target (o_published q) (o_capacity q) (oc_pos c) (word_of_nat p) > oc_pos c"
    using t pos by (simp add: word_less_nat_alt)
  ultimately show ?thesis by (simp add: c'_def ow_lapped_to_def Let_def)
qed

section \<open>What a lossy channel promises\<close>

datatype 'a lossy_op = Send 'a | Receive

fun run_lossy ::
  "('a \<Rightarrow> 'q \<Rightarrow> 'q) \<Rightarrow> ('q \<Rightarrow> 'c \<Rightarrow> 'a option \<times> 'c) \<Rightarrow> 'a lossy_op list \<Rightarrow> 'q \<Rightarrow> 'c \<Rightarrow>
    'a list \<times> 'a list \<times> 'q \<times> 'c" where
  "run_lossy send recv [] q c = ([], [], q, c)"
| "run_lossy send recv (Send x # ops) q c =
     (let (sent, got, q', c') = run_lossy send recv ops (send x q) c in (x # sent, got, q', c'))"
| "run_lossy send recv (Receive # ops) q c =
     (let (r, c1) = recv q c; (sent, got, q', c') = run_lossy send recv ops q c1 in
      (sent, (case r of None \<Rightarrow> got | Some v \<Rightarrow> v # got), q', c'))"

text \<open>
  \<open>next c\<close> is the number of the item the consumer wants next, counted from 0, \<open>lost c\<close> how
  many it knows it has lost, and \<open>depth\<close> how many of the last items are kept.
\<close>

locale lossy =
  fixes send :: "'a \<Rightarrow> 'q \<Rightarrow> 'q"
    and recv :: "'q \<Rightarrow> 'c \<Rightarrow> 'a option \<times> 'c"
    and inv :: "'a list \<Rightarrow> 'q \<Rightarrow> bool"
    and ok :: "'c \<Rightarrow> bool"
    and wants :: "'c \<Rightarrow> nat"
    and lost :: "'c \<Rightarrow> nat"
    and depth :: "'q \<Rightarrow> nat"
    and limit :: nat
  assumes send_inv: "inv h q \<Longrightarrow> Suc (length h) < limit \<Longrightarrow> inv (h @ [x]) (send x q) \<and> depth (send x q) = depth q"
    and recv_some: "inv h q \<Longrightarrow> ok c \<Longrightarrow> wants c \<le> length h \<Longrightarrow> recv q c = (Some v, c') \<Longrightarrow>
      ok c' \<and> wants c < length h \<and> v = h ! wants c \<and> wants c' = Suc (wants c) \<and> lost c' = lost c"
    and recv_none: "inv h q \<Longrightarrow> ok c \<Longrightarrow> wants c \<le> length h \<Longrightarrow> recv q c = (None, c') \<Longrightarrow>
      ok c' \<and> wants c' \<le> length h \<and> wants c \<le> wants c' \<and> lost c' + wants c = lost c + wants c'
      \<and> (wants c < wants c' \<longrightarrow> wants c' + depth q = length h)"
begin

text \<open>Nothing is received twice or out of order, and what is not received is counted.\<close>

lemma conservation:
  assumes "inv h q" and "ok c" and "wants c \<le> length h" and "length h + length ops < limit"
    and "run_lossy send recv ops q c = (sent, got, q', c')"
  shows "inv (h @ sent) q' \<and> ok c' \<and> wants c' \<le> length (h @ sent)
    \<and> length got + lost c' + wants c = lost c + wants c'
    \<and> subseq got (drop (wants c) (take (wants c') (h @ sent))) \<and> wants c \<le> wants c'"
  using assms
proof (induction ops arbitrary: h q c sent got)
  case Nil
  then show ?case by auto
next
  case (Cons op ops)
  show ?case
  proof (cases op)
    case (Send x)
    obtain sent1 where r: "run_lossy send recv ops (send x q) c = (sent1, got, q', c')" and s: "sent = x # sent1"
      using Cons.prems(5) by (auto simp: Send split: prod.splits)
    have "inv (h @ [x]) (send x q)" using send_inv Cons.prems(1,4) by simp
    from Cons.IH [OF this Cons.prems(2) _ _ r] show ?thesis using Cons.prems(3,4) by (simp add: s del: take_append drop_append)
  next
    case Receive
    obtain r c1 where v: "recv q c = (r, c1)" by fastforce
    obtain got1 where run: "run_lossy send recv ops q c1 = (sent, got1, q', c')"
      and g: "got = (case r of None \<Rightarrow> got1 | Some v \<Rightarrow> v # got1)"
      using Cons.prems(5) by (auto simp: Receive v split: prod.splits)
    show ?thesis
    proof (cases r)
      case None
      with recv_none [OF Cons.prems(1-3)] v have N: "ok c1" "wants c1 \<le> length h" "wants c \<le> wants c1"
        "lost c1 + wants c = lost c + wants c1" by auto
      from Cons.IH [OF Cons.prems(1) N(1,2) _ run] Cons.prems(4)
      have IH: "inv (h @ sent) q' \<and> ok c' \<and> wants c' \<le> length (h @ sent)
        \<and> length got1 + lost c' + wants c1 = lost c1 + wants c'
        \<and> subseq got1 (drop (wants c1) (take (wants c') (h @ sent))) \<and> wants c1 \<le> wants c'"
        by (simp del: take_append drop_append)
      have "drop (wants c1) (take (wants c') (h @ sent))
          = drop (wants c1 - wants c) (drop (wants c) (take (wants c') (h @ sent)))"
        using N(3) by (simp del: take_append drop_append)
      then have "subseq got1 (drop (wants c) (take (wants c') (h @ sent)))"
        using IH by (metis subseq_order.trans suffix_drop suffix_imp_subseq)
      then show ?thesis using IH N g None by (simp del: take_append drop_append)
    next
      case (Some y)
      with recv_some [OF Cons.prems(1-3)] v have N: "ok c1" "wants c < length h" "y = h ! wants c"
        "wants c1 = Suc (wants c)" "lost c1 = lost c" by auto
      from Cons.IH [OF Cons.prems(1) N(1) _ _ run] Cons.prems(4) N
      have IH: "inv (h @ sent) q' \<and> ok c' \<and> wants c' \<le> length (h @ sent)
        \<and> length got1 + lost c' + Suc (wants c) = lost c + wants c'
        \<and> subseq got1 (drop (Suc (wants c)) (take (wants c') (h @ sent))) \<and> Suc (wants c) \<le> wants c'"
        by (simp del: take_append drop_append)
      then have "wants c < length (take (wants c') (h @ sent))"
        by (simp only: length_take min_less_iff_conj) linarith
      from Cons_nth_drop_Suc [OF this] IH N(2,3)
      have "drop (wants c) (take (wants c') (h @ sent)) = y # drop (Suc (wants c)) (take (wants c') (h @ sent))"
        by (simp add: nth_append del: take_append drop_append)
      with IH show ?thesis using g Some by (simp del: take_append drop_append)
    qed
  qed
qed

end

text \<open>The operations as a client sees them when the constructor of the element does not throw.\<close>

definition ow_send :: "'a \<Rightarrow> 'a owq \<Rightarrow> 'a owq" where
  "ow_send x q = snd (ow_publish (Inr x :: unit + 'a) q)"

definition ow_recv :: "'a owq \<Rightarrow> ocons \<Rightarrow> 'a option \<times> ocons" where
  "ow_recv q c = (case ow_try_read q c undefined of
     (Ok, v, c') \<Rightarrow> (Some v, c')
   | (_, v, c') \<Rightarrow> (None, c'))"

text \<open>A consumer whose missed count does not exceed its position.\<close>

definition ow_cons_ok :: "ocons \<Rightarrow> bool" where
  "ow_cons_ok c \<longleftrightarrow> 1 \<le> unat (oc_pos c) \<and> unat (oc_missed c) < unat (oc_pos c)"

definition ow_wants :: "ocons \<Rightarrow> nat" where
  "ow_wants c = unat (oc_pos c) - 1"

lemma ow_recv_cases:
  assumes inv: "ow_inv hist q" and ok: "ow_cons_ok c" and le: "ow_wants c \<le> length hist"
  shows "if ow_wants c = length hist then ow_recv q c = (None, c)
    else if length hist \<le> ow_wants c + unat (o_capacity q)
      then ow_recv q c = (Some (hist ! ow_wants c), c\<lparr>oc_pos := oc_pos c + 1\<rparr>)
    else \<exists>c'. ow_recv q c = (None, c') \<and> ow_wants c' + unat (o_capacity q) = length hist \<and> ow_cons_ok c'
      \<and> unat (oc_missed c') = unat (oc_missed c) + (ow_wants c' - ow_wants c)"
proof -
  note I = ow_invD [OF inv]
  have p: "1 \<le> unat (oc_pos c)" "unat (oc_pos c) = Suc (ow_wants c)" using ok by (auto simp: ow_cons_ok_def ow_wants_def)
  consider "ow_wants c = length hist" | "ow_wants c < length hist" "length hist \<le> ow_wants c + unat (o_capacity q)"
    | "ow_wants c + unat (o_capacity q) < length hist" using le by linarith
  then show ?thesis
  proof cases
    case 1
    then have "unat (oc_pos c) = Suc (length hist)" using p by simp
    from ow_read_empty [OF inv this] 1 show ?thesis by (simp add: ow_recv_def)
  next
    case 2
    then have "unat (oc_pos c) \<le> length hist" "length hist < unat (oc_pos c) + unat (o_capacity q)" using p by simp_all
    from ow_read_ok [OF inv p(1) this] 2 show ?thesis by (simp add: ow_recv_def ow_wants_def)
  next
    case 3
    then have "unat (oc_pos c) + unat (o_capacity q) \<le> length hist" using p by simp
    from ow_read_lapped [OF inv p(1) this, of undefined] obtain c' where r: "ow_try_read q c undefined = (Lapped, undefined, c')"
      and c': "unat (oc_pos c') = length hist - unat (o_capacity q) + 1"
      "oc_missed c' = oc_missed c + (oc_pos c' - oc_pos c)" by blast
    have w: "ow_wants c' = length hist - unat (o_capacity q)" using c'(1) by (simp add: ow_wants_def)
    have "unat (oc_pos c' - oc_pos c) = unat (oc_pos c') - unat (oc_pos c)"
      using 3 p c'(1) by (intro unat_minus_le) linarith
    then have "unat (oc_pos c' - oc_pos c) = ow_wants c' - ow_wants c" using p(2) c'(1) w by linarith
    moreover have "unat (oc_missed c) < unat (oc_pos c)" using ok by (simp add: ow_cons_ok_def)
    then have "unat (oc_missed c) + (ow_wants c' - ow_wants c) < unat (oc_pos c')"
      using 3 c'(1) p(2) w by linarith
    moreover from this have "unat (oc_missed c) + (ow_wants c' - ow_wants c) < 18446744073709551616"
      using unat_lt_2p64 by (rule less_trans)
    ultimately have m: "unat (oc_missed c') = unat (oc_missed c) + (ow_wants c' - ow_wants c)"
      unfolding c'(2) by (subst unat_plus_small) simp_all
    moreover have "ow_cons_ok c'"
      using \<open>unat (oc_missed c) + (ow_wants c' - ow_wants c) < unat (oc_pos c')\<close> m
      by (simp add: ow_cons_ok_def)
    ultimately show ?thesis using r 3 m w by (simp add: ow_recv_def)
  qed
qed

interpretation owq: lossy ow_send ow_recv ow_inv ow_cons_ok ow_wants "\<lambda>c. unat (oc_missed c)"
    "\<lambda>q. unat (o_capacity q)" "2 ^ 63"
proof
  fix h :: "'a list" and q :: "'a owq" and x
  assume "ow_inv h q" "Suc (length h) < 2 ^ 63"
  from ow_publish_ok [OF this, of x]
  obtain q' where "ow_publish (Inr x :: unit + 'a) q = (None, q')" "ow_inv (h @ [x]) q'" "o_capacity q' = o_capacity q"
    by blast
  then show "ow_inv (h @ [x]) (ow_send x q) \<and> unat (o_capacity (ow_send x q)) = unat (o_capacity q)"
    by (simp add: ow_send_def)
next
  fix h :: "'a list" and q :: "'a owq" and c c' v
  assume a: "ow_inv h q" "ow_cons_ok c" "ow_wants c \<le> length h" "ow_recv q c = (Some v, c')"
  note R = ow_recv_cases [OF a(1-3)]
  have lt: "ow_wants c < length h" using R a(3,4) by (auto split: if_splits)
  moreover have "c' = c\<lparr>oc_pos := oc_pos c + 1\<rparr>" "v = h ! ow_wants c"
    using R a(4) lt by (auto split: if_splits)
  moreover have "unat (oc_pos c + 1) = Suc (unat (oc_pos c))"
    using lt ow_invD(5) [OF a(1)] a(2) by (subst unat_plus1) (auto simp: ow_wants_def ow_cons_ok_def)
  ultimately show "ow_cons_ok c' \<and> ow_wants c < length h \<and> v = h ! ow_wants c
    \<and> ow_wants c' = Suc (ow_wants c) \<and> unat (oc_missed c') = unat (oc_missed c)"
    using a(2) by (auto simp: ow_cons_ok_def ow_wants_def)
next
  fix h :: "'a list" and q :: "'a owq" and c c'
  assume a: "ow_inv h q" "ow_cons_ok c" "ow_wants c \<le> length h" "ow_recv q c = (None, c')"
  show "ow_cons_ok c' \<and> ow_wants c' \<le> length h \<and> ow_wants c \<le> ow_wants c'
    \<and> unat (oc_missed c') + ow_wants c = unat (oc_missed c) + ow_wants c'
    \<and> (ow_wants c < ow_wants c' \<longrightarrow> ow_wants c' + unat (o_capacity q) = length h)"
    using ow_recv_cases [OF a(1-3)] a by (auto split: if_splits)
qed

section \<open>Properties\<close>

text \<open>
  The constructor of SPMCOverwriteQueue accepts 2 to \<open>2 ^ 62\<close>, throws
  \<open>invalid_argument\<close> outside, passes on an exception of the slots' construction, and otherwise
  gives an empty queue of the rounded capacity on which a new consumer starts at position 1.
\<close>

theorem ow_ctor_contract:
  "case ow_ctor alloc dflt capacity of
     Inl e \<Rightarrow> (\<exists>m. e = Invalid_argument m) \<and> (unat capacity < 2 \<or> 2 ^ 62 < unat capacity)
         \<or> alloc (bit_ceil capacity) = Some e
   | Inr q \<Rightarrow> ow_inv [] q \<and> ow_capacity q = bit_ceil capacity \<and> unat (ow_capacity q) \<le> 2 ^ 62
       \<and> ow_make_consumer q = \<lparr>oc_pos = 1, oc_missed = 0\<rparr> \<and> ow_published_count q = 0"
proof (cases "ow_check_and_round_capacity capacity")
  case (Inl e)
  then show ?thesis
    using ow_cap.contract [of capacity] by (auto simp: ow_ctor_def rounds_to_pow2_def not_le)
next
  case (Inr cap)
  then have "cap = bit_ceil capacity" "unat cap \<le> 2 ^ 62"
    using ow_cap.accepted ow_cap.accepted_bounds(3) by blast+
  then show ?thesis
    using Inr ow_ctor_ok [of alloc dflt capacity]
    by (auto simp: ow_ctor_def ow_make_consumer_def ow_published_count_def ow_capacity_def split: option.splits)
qed

text \<open>
  What \<open>try_read\<close> does when nobody is publishing, on every branch: \<open>Empty\<close> exactly when
  the consumer has seen everything; \<open>Ok\<close> with the right item exactly when the item is one of
  the last \<open>capacity\<close> published; otherwise \<open>Lapped\<close>, which leaves the consumer at the oldest
  item still in the ring and adds to \<open>missed()\<close> exactly the number of items overwritten.
\<close>

theorem ow_read_exact:
  assumes "ow_inv hist q" and "ow_cons_ok c" and "ow_wants c \<le> length hist"
  shows "case ow_try_read q c out of
     (Empty_status, out', c') \<Rightarrow> ow_wants c = length hist \<and> c' = c \<and> out' = out
   | (Ok, out', c') \<Rightarrow> ow_wants c < length hist \<and> length hist \<le> ow_wants c + unat (o_capacity q)
       \<and> out' = hist ! ow_wants c \<and> c' = c\<lparr>oc_pos := oc_pos c + 1\<rparr>
   | (Lapped, out', c') \<Rightarrow> ow_wants c + unat (o_capacity q) < length hist \<and> out' = out
       \<and> ow_wants c' + unat (o_capacity q) = length hist
       \<and> oc_missed c' = oc_missed c + (oc_pos c' - oc_pos c)"
proof -
  have p: "1 \<le> unat (oc_pos c)" "unat (oc_pos c) = Suc (ow_wants c)"
    using assms(2) by (auto simp: ow_cons_ok_def ow_wants_def)
  consider "ow_wants c = length hist" | "ow_wants c < length hist" "length hist \<le> ow_wants c + unat (o_capacity q)"
    | "ow_wants c + unat (o_capacity q) < length hist" using assms(3) by linarith
  then show ?thesis
  proof cases
    case 1
    then have "unat (oc_pos c) = Suc (length hist)" using p by simp
    with 1 show ?thesis by (simp add: ow_read_empty [OF assms(1)])
  next
    case 2
    then have "unat (oc_pos c) \<le> length hist" "length hist < unat (oc_pos c) + unat (o_capacity q)" using p by simp_all
    from ow_read_ok [OF assms(1) p(1) this, of out] 2 show ?thesis by (simp add: ow_wants_def)
  next
    case 3
    then have "unat (oc_pos c) + unat (o_capacity q) \<le> length hist" using p by simp
    from ow_read_lapped [OF assms(1) p(1) this, of out] 3 show ?thesis by (auto simp: ow_wants_def)
  qed
qed

lemma ow_ctor_2: "ow_ctor (\<lambda>_. None) dflt 2 = Inr \<lparr>o_capacity = 2, o_mask = 1,
    o_slots = [\<lparr>os_seq = 0, os_data = dflt\<rparr>, \<lparr>os_seq = 0, os_data = dflt\<rparr>], o_write_pos = 0, o_published = 0\<rparr>"
  by (simp add: ow_ctor_def ow_check_and_round_capacity_def bit_ceil_values replicate_2)

text \<open>A queue of capacity 2 in which 1, 2 and 3 were published.\<close>

definition ow_demo :: "nat owq" where
  "ow_demo = fold ow_send [1, 2, 3] \<lparr>o_capacity = 2, o_mask = 1,
     o_slots = [\<lparr>os_seq = 0, os_data = 0\<rparr>, \<lparr>os_seq = 0, os_data = 0\<rparr>], o_write_pos = 0, o_published = 0\<rparr>"

lemma ow_send_inv: "ow_inv hist q \<Longrightarrow> Suc (length hist) < 2 ^ 63 \<Longrightarrow> ow_inv (hist @ [x]) (ow_send x q)"
  by (rule conjunct1 [OF owq.send_inv])

lemma ow_demo_inv: "ow_inv [1, 2, 3] ow_demo"
proof -
  have e: "ow_inv [] \<lparr>o_capacity = 2, o_mask = 1,
     o_slots = [\<lparr>os_seq = 0, os_data = 0 :: nat\<rparr>, \<lparr>os_seq = 0, os_data = 0\<rparr>], o_write_pos = 0, o_published = 0\<rparr>"
    using ow_ctor_ok [OF ow_ctor_2 [of "0 :: nat"]] by simp
  show ?thesis
    using ow_send_inv [OF ow_send_inv [OF ow_send_inv [OF e, of 1], of 2], of 3] by (simp add: ow_demo_def)
qed

theorem ow_read_exact_witness:
  "case ow_try_read ow_demo \<lparr>oc_pos = 1, oc_missed = 0\<rparr> 0 of
     (Lapped, out', c') \<Rightarrow> ow_wants c' + unat (o_capacity ow_demo) = 3 | (s, out', c') \<Rightarrow> s = Ok"
  using ow_read_exact [OF ow_demo_inv, of "\<lparr>oc_pos = 1, oc_missed = 0\<rparr>" 0]
  by (auto simp: ow_cons_ok_def ow_wants_def split: status.splits)

text \<open>
  Every item is accounted for: whatever sequence of \<open>publish\<close> and \<open>try_read\<close> calls follows
  the construction, the items received are a subsequence of the first \<open>position() - 1\<close> items
  published, in order and without repetition, and their number plus \<open>missed()\<close> is exactly
  \<open>position() - 1\<close>.
\<close>

theorem ow_accounts_for_all:
  assumes "ow_ctor alloc dflt capacity = Inr q" and "length ops < 2 ^ 63"
    and "run_lossy ow_send ow_recv ops q (ow_make_consumer q) = (sent, got, q', c')"
  shows "length got + unat (ow_missed c') = unat (oc_pos c') - 1
    \<and> subseq got (take (unat (oc_pos c') - 1) sent) \<and> unat (oc_pos c') - 1 \<le> length sent"
proof -
  have Q: "ow_inv [] q" "ow_make_consumer q = \<lparr>oc_pos = 1, oc_missed = 0\<rparr>"
    using ow_ctor_ok [OF assms(1)] by (auto simp: ow_make_consumer_def)
  then have "ow_cons_ok (ow_make_consumer q)" "ow_wants (ow_make_consumer q) = 0"
    "oc_missed (ow_make_consumer q) = 0"
    by (simp_all add: ow_cons_ok_def ow_wants_def)
  then show ?thesis
    using owq.conservation [OF Q(1) _ _ _ assms(3)] assms(2) by (simp add: ow_missed_def ow_wants_def)
qed

theorem ow_accounts_for_all_witness:
  "case run_lossy ow_send ow_recv [Send 1, Send 2, Send (3 :: nat), Receive, Receive] \<lparr>o_capacity = 2, o_mask = 1,
      o_slots = [\<lparr>os_seq = 0, os_data = 0\<rparr>, \<lparr>os_seq = 0, os_data = 0\<rparr>], o_write_pos = 0, o_published = 0\<rparr>
      \<lparr>oc_pos = 1, oc_missed = 0\<rparr> of
     (sent, got, q', c') \<Rightarrow> length got + unat (ow_missed c') = unat (oc_pos c') - 1"
proof -
  let ?q = "\<lparr>o_capacity = 2, o_mask = 1, o_slots = [\<lparr>os_seq = 0, os_data = 0 :: nat\<rparr>, \<lparr>os_seq = 0, os_data = 0\<rparr>],
    o_write_pos = 0, o_published = 0\<rparr>"
  let ?ops = "[Send 1, Send 2, Send (3 :: nat), Receive, Receive]"
  have m: "ow_make_consumer ?q = \<lparr>oc_pos = 1, oc_missed = 0\<rparr>" by (simp add: ow_make_consumer_def)
  obtain sent got q' c' where r: "run_lossy ow_send ow_recv ?ops ?q (ow_make_consumer ?q) = (sent, got, q', c')"
    by (metis prod_cases4)
  from ow_accounts_for_all [OF ow_ctor_2 _ r] show ?thesis
    using r unfolding m by (simp del: run_lossy.simps)
qed

text \<open>
  The slot of a position whose element's constructor threw stays marked while fewer than
  \<open>capacity\<close> further items are published.
\<close>

lemma ow_send_other:
  assumes "is_pow2 (o_capacity q)" and "o_mask q = o_capacity q - 1"
    and "length (o_slots q) = unat (o_capacity q)" and "unat (o_write_pos q) + 1 < 2 ^ 64"
    and "Suc (unat (o_write_pos q)) mod unat (o_capacity q) \<noteq> j"
  shows "o_slots (ow_send x q) ! j = o_slots q ! j" "o_capacity (ow_send x q) = o_capacity q"
    "o_mask (ow_send x q) = o_mask q" "length (o_slots (ow_send x q)) = length (o_slots q)"
    "unat (o_write_pos (ow_send x q)) = Suc (unat (o_write_pos q))"
    "o_published (ow_send x q) = o_write_pos (ow_send x q)"
proof -
  have w: "unat (o_write_pos q + 1) = Suc (unat (o_write_pos q))" using assms(4) by (simp add: unat_plus1)
  then have "unat ((o_write_pos q + 1) AND o_mask q) = Suc (unat (o_write_pos q)) mod unat (o_capacity q)"
    using assms(1,2) by (simp add: unat_and_cap)
  then show "o_slots (ow_send x q) ! j = o_slots q ! j" "o_capacity (ow_send x q) = o_capacity q"
    "o_mask (ow_send x q) = o_mask q" "length (o_slots (ow_send x q)) = length (o_slots q)"
    "unat (o_write_pos (ow_send x q)) = Suc (unat (o_write_pos q))"
    "o_published (ow_send x q) = o_write_pos (ow_send x q)"
    using assms(5) w by (simp_all add: ow_send_def ow_publish_def Let_def)
qed

lemma ow_marked_stays:
  assumes "is_pow2 (o_capacity q)" and "o_mask q = o_capacity q - 1"
    and "length (o_slots q) = unat (o_capacity q)" and "unat (o_write_pos q) = p + k"
    and "k + length xs < unat (o_capacity q)" and "p + unat (o_capacity q) \<le> 2 ^ 64"
  shows "o_slots (fold ow_send xs q) ! (p mod unat (o_capacity q)) = o_slots q ! (p mod unat (o_capacity q))
    \<and> o_mask (fold ow_send xs q) = o_mask q
    \<and> (xs \<noteq> [] \<longrightarrow> unat (o_published (fold ow_send xs q)) = p + k + length xs)"
  using assms
proof (induction xs arbitrary: q k)
  case Nil
  then show ?case by simp
next
  case (Cons x xs)
  have ne: "Suc (unat (o_write_pos q)) mod unat (o_capacity q) \<noteq> p mod unat (o_capacity q)"
    using mod_lap_neq [of p "Suc (p + k)" "unat (o_capacity q)"] Cons.prems(4,5) by simp
  have small: "unat (o_write_pos q) + 1 < 2 ^ 64" using Cons.prems(4-6) by simp
  note S = ow_send_other [OF Cons.prems(1-3) small ne, of x]
  have "o_slots (fold ow_send xs (ow_send x q)) ! (p mod unat (o_capacity (ow_send x q)))
      = o_slots (ow_send x q) ! (p mod unat (o_capacity (ow_send x q)))
    \<and> o_mask (fold ow_send xs (ow_send x q)) = o_mask (ow_send x q)
    \<and> (xs \<noteq> [] \<longrightarrow> unat (o_published (fold ow_send xs (ow_send x q))) = p + Suc k + length xs)"
    by (rule Cons.IH) (use Cons.prems S in simp_all)
  then show ?case using S Cons.prems(4) by (cases xs) simp_all
qed

text \<open>
  C35. A constructor that throws inside \<open>publish\<close> leaves the slot of its position marked as
  being written: the consumers that have read everything before it get \<open>Empty\<close> although up
  to \<open>capacity - 1\<close> later items have been published meanwhile.
\<close>

theorem ow_throw_blocks_readers:
  assumes "ow_inv hist q" and "unat (oc_pos c) = Suc (length hist)" and "length xs < unat (o_capacity q)"
    and "xs \<noteq> []"
  shows "fst (ow_publish (Inl e) q) = Some e
    \<and> ow_try_read (fold ow_send xs (snd (ow_publish (Inl e) q))) c out = (Empty_status, out, c)
    \<and> unat (ow_published_count (fold ow_send xs (snd (ow_publish (Inl e) q)))) = Suc (length hist) + length xs"
proof -
  let ?T = "length hist" and ?L = "unat (o_capacity q)" and ?w = "o_write_pos q + 1"
  note I = ow_invD [OF assms(1)]
  have w: "unat ?w = Suc ?T" using I(5,6) by (simp add: unat_plus1)
  have ix: "unat (?w AND o_mask q) = Suc ?T mod ?L" using I(10) w by simp
  have lt: "Suc ?T mod ?L < ?L" using I(2) by simp
  define q1 where "q1 = q\<lparr>o_write_pos := ?w,
    o_slots := (o_slots q)[Suc ?T mod ?L := (o_slots q ! (Suc ?T mod ?L))\<lparr>os_seq := push_bit 1 ?w OR 1\<rparr>]\<rparr>"
  have pub: "ow_publish (Inl e) q = (Some e, q1)" by (simp add: ow_publish_def Let_def ix q1_def)
  have q1: "o_capacity q1 = o_capacity q" "o_mask q1 = o_mask q" "length (o_slots q1) = ?L" "o_write_pos q1 = ?w"
    "os_seq (o_slots q1 ! (Suc ?T mod ?L)) = push_bit 1 ?w OR 1"
    using I(4) lt by (simp_all add: q1_def)
  have "Suc ?T + ?L \<le> 2 ^ 64" using I(5) is_pow2_le [OF I(1)] by simp
  then have M: "o_slots (fold ow_send xs q1) ! (Suc ?T mod ?L) = o_slots q1 ! (Suc ?T mod ?L)
      \<and> o_mask (fold ow_send xs q1) = o_mask q \<and> unat (o_published (fold ow_send xs q1)) = Suc ?T + length xs"
    using ow_marked_stays [of q1 "Suc ?T" 0 xs] I(1,3) q1 w assms(3,4) by simp
  have "unat (oc_pos c AND o_mask q) = Suc ?T mod ?L" using I(10) assms(2) by simp
  then have "ow_try_read (fold ow_send xs q1) c out = (Empty_status, out, c)"
    using M q1(5) seq_odd [of ?w] by (simp add: ow_try_read_def Let_def del: One_nat_def)
  with M show ?thesis by (simp add: pub ow_published_count_def)
qed

theorem ow_throw_blocks_readers_witness:
  "ow_try_read (fold ow_send [5] (snd (ow_publish (Inl ()) ow_demo))) \<lparr>oc_pos = 4, oc_missed = 0\<rparr> 0
     = (Empty_status, 0, \<lparr>oc_pos = 4, oc_missed = 0\<rparr>)"
proof -
  have "unat (o_capacity ow_demo) = 2" by (simp add: ow_demo_def ow_send_def ow_publish_def)
  then show ?thesis
    using ow_throw_blocks_readers [OF ow_demo_inv, of "\<lparr>oc_pos = 4, oc_missed = 0\<rparr>" "[5]" "()" 0] by simp
qed

end
