(* ===== verification/Memory.thy ===== *)
theory Memory
  imports Prelude
begin

text \<open>
  The C++ memory model for a location written by one thread, as far as the seqlock of
  \<open>SPMCOverwriteQueue\<close> needs it: relaxed stores after release fences, and relaxed or
  acquire loads with acquire fences. All stores of the writer are kept in one log, in program
  order, which is the modification order of each of its locations. A store carries the
  length of the log at the last release fence before it; \<open>st_tag\<close> is history. A reader knows
  that a prefix of the log happened before its next action, and remembers for each location
  the store it has seen last; index \<open>0\<close> is the initial value and \<open>Suc m\<close> the store \<open>log ! m\<close>.
\<close>

section \<open>Stores, views and loads\<close>

record ('l, 'v) store =
  st_loc :: 'l
  st_val :: 'v
  st_fence :: nat
  st_tag :: nat

record 'l tview =
  vw_hb :: nat                \<comment> \<open>that many stores of the log happened before\<close>
  vw_acq :: nat               \<comment> \<open>the same, once an acquire fence has been passed\<close>
  vw_seen :: "'l \<Rightarrow> nat"

definition fresh_view :: "'l tview" where
  "fresh_view = \<lparr>vw_hb = 0, vw_acq = 0, vw_seen = (\<lambda>_. 0)\<rparr>"

text \<open>
  A load of \<open>x\<close> may return the store of index \<open>n\<close> unless the thread has seen a later one of
  that location (read-read coherence) or a later one happened before the load.
\<close>

definition can_read :: "('l, 'v) store list \<Rightarrow> 'l tview \<Rightarrow> 'l \<Rightarrow> nat \<Rightarrow> bool" where
  "can_read log v x n \<longleftrightarrow>
     (n = 0 \<or> n \<le> length log \<and> st_loc (log ! (n - 1)) = x) \<and> vw_seen v x \<le> n
     \<and> (\<forall>m < vw_hb v. n \<le> m \<longrightarrow> st_loc (log ! m) \<noteq> x)"

definition read_val :: "('l \<Rightarrow> 'v) \<Rightarrow> ('l, 'v) store list \<Rightarrow> 'l \<Rightarrow> nat \<Rightarrow> 'v" where
  "read_val ini log x n = (if n = 0 then ini x else st_val (log ! (n - 1)))"

definition read_fence :: "('l, 'v) store list \<Rightarrow> nat \<Rightarrow> nat" where
  "read_fence log n = (if n = 0 then 0 else st_fence (log ! (n - 1)))"

text \<open>What the thread knows after a relaxed load, an acquire load and an acquire fence.\<close>

definition saw_relaxed :: "('l, 'v) store list \<Rightarrow> 'l \<Rightarrow> nat \<Rightarrow> 'l tview \<Rightarrow> 'l tview" where
  "saw_relaxed log x n v = v\<lparr>vw_acq := max (vw_acq v) (read_fence log n), vw_seen := (vw_seen v)(x := n)\<rparr>"

definition saw_acquire :: "('l, 'v) store list \<Rightarrow> 'l \<Rightarrow> nat \<Rightarrow> 'l tview \<Rightarrow> 'l tview" where
  "saw_acquire log x n v = v\<lparr>vw_hb := max (vw_hb v) (read_fence log n), vw_seen := (vw_seen v)(x := n)\<rparr>"

definition acquire_fence :: "'l tview \<Rightarrow> 'l tview" where
  "acquire_fence v = v\<lparr>vw_hb := max (vw_hb v) (vw_acq v)\<rparr>"

text \<open>
  Synchronisation by other means, such as an acquire load of a flag that the writer set with a
  release store when its log had length \<open>k\<close>.
\<close>

definition synced :: "nat \<Rightarrow> 'l tview \<Rightarrow> 'l tview" where
  "synced k v = v\<lparr>vw_hb := max (vw_hb v) k\<rparr>"

text \<open>The contents of the memory: the latest store.\<close>

fun latest_upto :: "('l, 'v) store list \<Rightarrow> 'l \<Rightarrow> nat \<Rightarrow> nat" where
  "latest_upto log x 0 = 0"
| "latest_upto log x (Suc m) = (if st_loc (log ! m) = x then Suc m else latest_upto log x m)"

definition latest :: "('l, 'v) store list \<Rightarrow> 'l \<Rightarrow> nat" where
  "latest log x = latest_upto log x (length log)"

section \<open>Well-formed logs and views\<close>

definition fences_ok :: "('l, 'v) store list \<Rightarrow> bool" where
  "fences_ok log \<longleftrightarrow> (\<forall>m < length log. st_fence (log ! m) \<le> m)"

definition view_ok :: "('l, 'v) store list \<Rightarrow> 'l tview \<Rightarrow> bool" where
  "view_ok log v \<longleftrightarrow> vw_hb v \<le> length log \<and> vw_acq v \<le> length log
     \<and> (\<forall>x. vw_seen v x = 0 \<or> vw_seen v x \<le> length log \<and> st_loc (log ! (vw_seen v x - 1)) = x)"

lemma view_ok_seen:
  assumes "view_ok log v" and "vw_seen v x \<noteq> 0"
  shows "vw_seen v x - 1 < length log" and "st_loc (log ! (vw_seen v x - 1)) = x"
proof -
  have "vw_seen v x = 0 \<or> vw_seen v x \<le> length log \<and> st_loc (log ! (vw_seen v x - 1)) = x"
    using assms(1) unfolding view_ok_def by blast
  with assms(2) show "vw_seen v x - 1 < length log" "st_loc (log ! (vw_seen v x - 1)) = x" by auto
qed

lemma fences_ok_append: "fences_ok log \<Longrightarrow> st_fence e \<le> length log \<Longrightarrow> fences_ok (log @ [e])"
  by (auto simp: fences_ok_def nth_append less_Suc_eq)

lemma view_ok_append:
  assumes "view_ok log v"
  shows "view_ok (log @ [e]) v"
proof -
  have "vw_seen v x = 0 \<or> vw_seen v x \<le> length (log @ [e]) \<and> st_loc ((log @ [e]) ! (vw_seen v x - 1)) = x" for x
  proof (cases "vw_seen v x = 0")
    case False
    from view_ok_seen [OF assms this] show ?thesis by (auto simp: nth_append)
  qed simp
  with assms show ?thesis by (auto simp: view_ok_def)
qed

lemma view_ok_fresh [simp]: "view_ok log fresh_view"
  by (simp add: view_ok_def fresh_view_def)

lemma read_fence_le: "fences_ok log \<Longrightarrow> can_read log v x n \<Longrightarrow> read_fence log n \<le> length log"
  by (cases n) (fastforce simp: fences_ok_def can_read_def read_fence_def dest: spec [of _ "n - 1"])+

lemma view_ok_saw:
  assumes "fences_ok log" and "view_ok log v" and "can_read log v' x n"
  shows "view_ok log (saw_relaxed log x n v)" and "view_ok log (saw_acquire log x n v)"
  using assms read_fence_le [OF assms(1,3)] by (auto simp: view_ok_def saw_relaxed_def saw_acquire_def can_read_def)

lemma view_ok_fence: "view_ok log v \<Longrightarrow> view_ok log (acquire_fence v)"
  by (auto simp: view_ok_def acquire_fence_def)

lemma view_ok_synced: "view_ok log v \<Longrightarrow> k \<le> length log \<Longrightarrow> view_ok log (synced k v)"
  by (auto simp: view_ok_def synced_def)

text \<open>The same as a check of the stores in between, for evaluation.\<close>

lemma can_read_eval: "can_read log v x n \<longleftrightarrow> (n = 0 \<or> n \<le> length log \<and> st_loc (log ! (n - 1)) = x)
    \<and> vw_seen v x \<le> n \<and> list_all (\<lambda>m. st_loc (log ! m) \<noteq> x) [n..<vw_hb v]"
  by (auto simp: can_read_def list_all_iff)

text \<open>Nothing older than a store that happened before can be read.\<close>

lemma can_read_after: "can_read log v x n \<Longrightarrow> m < vw_hb v \<Longrightarrow> st_loc (log ! m) = x \<Longrightarrow> m < n"
  by (auto simp: can_read_def not_le [symmetric])

lemma can_read_store:
  assumes "can_read log v x (Suc m)"
  shows "m < length log" "st_loc (log ! m) = x" "vw_seen v x \<le> Suc m"
  using assms by (auto simp: can_read_def)

text \<open>The latest store can always be read.\<close>

lemma latest_upto_loc: "latest_upto log x m = 0 \<or> latest_upto log x m \<le> m \<and> st_loc (log ! (latest_upto log x m - 1)) = x"
  by (induction m) auto

lemma latest_upto_no: "latest_upto log x m \<le> k \<Longrightarrow> k < m \<Longrightarrow> st_loc (log ! k) \<noteq> x"
  by (induction m) (auto simp: less_Suc_eq split: if_splits)

lemma can_read_latest:
  assumes "view_ok log v"
  shows "can_read log v x (latest log x)"
proof -
  have "vw_seen v x \<le> latest log x"
  proof (rule ccontr)
    assume a: "\<not> ?thesis"
    then have "vw_seen v x - 1 < length log" "st_loc (log ! (vw_seen v x - 1)) = x"
      using view_ok_seen [OF assms] by simp_all
    moreover have "latest log x \<le> vw_seen v x - 1" using a by linarith
    ultimately show False using latest_upto_no by (fastforce simp: latest_def)
  qed
  moreover have "st_loc (log ! m) \<noteq> x" if "m < vw_hb v" "latest log x \<le> m" for m
    using latest_upto_no [of log x "length log" m] that assms by (simp add: latest_def view_ok_def)
  ultimately show ?thesis using latest_upto_loc [of log x "length log"] by (auto simp: can_read_def latest_def)
qed

lemma latest_eval: "latest log x =
    (case filter (\<lambda>m. st_loc (log ! m) = x) (rev [0..<length log]) of [] \<Rightarrow> 0 | m # _ \<Rightarrow> Suc m)"
proof -
  have "latest_upto log x n = (case filter (\<lambda>m. st_loc (log ! m) = x) (rev [0..<n]) of [] \<Rightarrow> 0 | m # _ \<Rightarrow> Suc m)" for n
    by (induction n) simp_all
  then show ?thesis by (simp add: latest_def)
qed

lemma latest_append: "latest (log @ [e]) x = (if st_loc e = x then Suc (length log) else latest log x)"
proof -
  have "m \<le> length log \<Longrightarrow> latest_upto (log @ [e]) x m = latest_upto log x m" for m
    by (induction m) (simp_all add: nth_append)
  then show ?thesis by (simp add: latest_def)
qed

end
