(* ===== verification/Overwrite_Concurrent.thy ===== *)
theory Overwrite_Concurrent
  imports Overwrite Memory
begin

text \<open>
  \<open>SPMCOverwriteQueue\<close> with the producer and any number of consumers running at the same
  time, under the memory model of \<open>Memory\<close>: the producer's stores to the sequence numbers, the
  payload bytes and \<open>published_\<close> go to a log, and a load by a consumer may return any store
  that coherence and the acquire and release operations of the code do not rule out. An
  element is the list of its bytes and \<open>std::memcpy\<close> copies them one at a time in any order,
  so a reader may see a mixture of several elements. \<open>w_hist\<close> is history: for every position
  the element published there, or \<open>None\<close> if its constructor threw; \<open>w_got i\<close> lists the
  positions and elements consumer \<open>i\<close> has received.
\<close>

section \<open>State\<close>

datatype oloc =
  L_seq nat                             \<comment> \<open>\<open>slots_[j].seq\<close>\<close>
| L_byte nat nat                        \<comment> \<open>byte \<open>k\<close> of \<open>slots_[j].data\<close>\<close>
| L_published

datatype 'b oval = V_word size_t | V_byte 'b

type_synonym 'b olog = "(oloc, 'b oval) store list"

datatype 'b oprod =
  OP_idle
| OP_mark "'b list" size_t              \<comment> \<open>\<open>write_pos_\<close> incremented, the slot is marked next\<close>
| OP_copy "'b list" size_t "nat set"    \<comment> \<open>those bytes of the element were written\<close>
| OP_publish size_t                     \<comment> \<open>\<open>published_.store\<close> is next\<close>

datatype 'b ocon =
  OC_none                               \<comment> \<open>the consumer has not been made yet\<close>
| OC_idle
| OC_load
| OC_copy size_t "nat set" "'b list"    \<comment> \<open>\<open>s1\<close>, the bytes read so far, \<open>out\<close>\<close>
| OC_lapped size_t                      \<comment> \<open>in \<open>lapped_to(newest)\<close>\<close>

record 'b ow_sys =
  w_capacity :: size_t
  w_mask :: size_t
  w_size :: nat
  w_slots :: "'b list oslot list"       \<comment> \<open>as the constructor left them\<close>
  w_write_pos :: size_t
  w_log :: "'b olog"
  w_fence :: nat                        \<comment> \<open>length of the log at the last release fence\<close>
  w_prod :: "'b oprod"
  w_cons :: "nat \<Rightarrow> 'b ocon"
  w_cur :: "nat \<Rightarrow> ocons"
  w_view :: "nat \<Rightarrow> oloc tview"
  w_start :: "nat \<Rightarrow> nat"
  w_hist :: "'b list option list"
  w_got :: "nat \<Rightarrow> (nat \<times> 'b list) list"

definition ow_boot :: "nat \<Rightarrow> 'b list owq \<Rightarrow> 'b ow_sys" where
  "ow_boot n q = \<lparr>w_capacity = o_capacity q, w_mask = o_mask q, w_size = n, w_slots = o_slots q,
     w_write_pos = o_write_pos q, w_log = [], w_fence = 0, w_prod = OP_idle, w_cons = (\<lambda>_. OC_none),
     w_cur = (\<lambda>_. \<lparr>oc_pos = 0, oc_missed = 0\<rparr>), w_view = (\<lambda>_. fresh_view), w_start = (\<lambda>_. 0),
     w_hist = [], w_got = (\<lambda>_. [])\<rparr>"

definition ow_init :: "'b ow_sys \<Rightarrow> bool" where
  "ow_init s \<longleftrightarrow> (\<exists>alloc dflt capacity q.
     ow_ctor alloc dflt capacity = Inr q \<and> s = ow_boot (length dflt) q)"

text \<open>The memory before the first store.\<close>

fun w_initial :: "'b list oslot list \<Rightarrow> oloc \<Rightarrow> 'b oval" where
  "w_initial slots (L_seq j) = V_word (os_seq (slots ! j))"
| "w_initial slots (L_byte j k) = V_byte (os_data (slots ! j) ! k)"
| "w_initial slots L_published = V_word 0"

abbreviation w_ix :: "'b ow_sys \<Rightarrow> size_t \<Rightarrow> nat" where
  "w_ix s pos \<equiv> unat (pos AND w_mask s)"

text \<open>A store and a release fence of the producer, a load of a consumer with view \<open>vw\<close>.\<close>

definition w_store :: "oloc \<Rightarrow> 'b oval \<Rightarrow> 'b ow_sys \<Rightarrow> 'b ow_sys" where
  "w_store x v s = s\<lparr>w_log := w_log s
     @ [\<lparr>st_loc = x, st_val = v, st_fence = w_fence s, st_tag = unat (w_write_pos s)\<rparr>]\<rparr>"

definition w_release :: "'b ow_sys \<Rightarrow> 'b ow_sys" where
  "w_release s = s\<lparr>w_fence := length (w_log s)\<rparr>"

definition w_reads :: "'b ow_sys \<Rightarrow> oloc tview \<Rightarrow> oloc \<Rightarrow> nat \<Rightarrow> 'b oval \<Rightarrow> bool" where
  "w_reads s vw x n v \<longleftrightarrow> can_read (w_log s) vw x n \<and> read_val (w_initial (w_slots s)) (w_log s) x n = v"

text \<open>What a location holds, that is the latest store to it.\<close>

definition w_mem :: "'b ow_sys \<Rightarrow> oloc \<Rightarrow> 'b oval" where
  "w_mem s x = read_val (w_initial (w_slots s)) (w_log s) x (latest (w_log s) x)"

section \<open>Steps\<close>

text \<open>
  The producer in \<open>publish\<close>. A fence is passed in one step with the store next to it: the first
  one follows the marking of the slot, the second precedes the store that makes it stable.
\<close>

inductive ow_prod_step :: "'b ow_sys \<Rightarrow> 'b ow_sys \<Rightarrow> bool" where
  op_call: "w_prod s = OP_idle \<Longrightarrow> length x = w_size s \<Longrightarrow>
    ow_prod_step s (s\<lparr>w_write_pos := w_write_pos s + 1, w_prod := OP_mark x (w_write_pos s + 1)\<rparr>)"
| op_mark: "w_prod s = OP_mark x pos \<Longrightarrow>
    ow_prod_step s ((w_release (w_store (L_seq (w_ix s pos)) (V_word (push_bit 1 pos OR 1)) s))
      \<lparr>w_prod := OP_copy x pos {}\<rparr>)"
| op_throw: "w_prod s = OP_copy x pos {} \<Longrightarrow>
    ow_prod_step s (s\<lparr>w_hist := w_hist s @ [None], w_prod := OP_idle\<rparr>)"
| op_copy: "w_prod s = OP_copy x pos D \<Longrightarrow> k < w_size s \<Longrightarrow> k \<notin> D \<Longrightarrow>
    ow_prod_step s ((w_store (L_byte (w_ix s pos) k) (V_byte (x ! k)) s)\<lparr>w_prod := OP_copy x pos (insert k D)\<rparr>)"
| op_stable: "w_prod s = OP_copy x pos D \<Longrightarrow> {..<w_size s} \<subseteq> D \<Longrightarrow>
    ow_prod_step s ((w_store (L_seq (w_ix s pos)) (V_word (push_bit 1 pos)) (w_release s))
      \<lparr>w_hist := w_hist s @ [Some x], w_prod := OP_publish pos\<rparr>)"
| op_publish: "w_prod s = OP_publish pos \<Longrightarrow>
    ow_prod_step s ((w_store L_published (V_word pos) s)\<lparr>w_prod := OP_idle\<rparr>)"

text \<open>
  Consumer \<open>i\<close>: \<open>make_consumer\<close>, then calls of \<open>try_read\<close>. The first load of the sequence
  number and the load of \<open>published_\<close> in \<open>lapped_to\<close> acquire; the payload bytes are read with
  no ordering, and an acquire fence stands before the second, relaxed load of the sequence
  number.
\<close>

inductive ow_cons_step :: "nat \<Rightarrow> 'b ow_sys \<Rightarrow> 'b ow_sys \<Rightarrow> bool" where
  ow_make: "w_cons s i = OC_none \<Longrightarrow> w_reads s (w_view s i) L_published n (V_word pub) \<Longrightarrow>
    ow_cons_step i s (s\<lparr>w_cur := (w_cur s)(i := \<lparr>oc_pos = pub + 1, oc_missed = 0\<rparr>),
      w_view := (w_view s)(i := saw_relaxed (w_log s) L_published n (w_view s i)),
      w_start := (w_start s)(i := unat (pub + 1)), w_cons := (w_cons s)(i := OC_idle)\<rparr>)"
| ow_call: "w_cons s i = OC_idle \<Longrightarrow> ow_cons_step i s (s\<lparr>w_cons := (w_cons s)(i := OC_load)\<rparr>)"
| ow_busy: "w_cons s i = OC_load \<Longrightarrow> x = L_seq (w_ix s (oc_pos (w_cur s i))) \<Longrightarrow>
    w_reads s (w_view s i) x n (V_word s1) \<Longrightarrow> s1 AND 1 \<noteq> 0 \<Longrightarrow>
    ow_cons_step i s (s\<lparr>w_view := (w_view s)(i := saw_acquire (w_log s) x n (w_view s i)),
      w_cons := (w_cons s)(i := OC_idle)\<rparr>)"
| ow_empty: "w_cons s i = OC_load \<Longrightarrow> x = L_seq (w_ix s (oc_pos (w_cur s i))) \<Longrightarrow>
    w_reads s (w_view s i) x n (V_word s1) \<Longrightarrow> s1 AND 1 = 0 \<Longrightarrow> drop_bit 1 s1 < oc_pos (w_cur s i) \<Longrightarrow>
    ow_cons_step i s (s\<lparr>w_view := (w_view s)(i := saw_acquire (w_log s) x n (w_view s i)),
      w_cons := (w_cons s)(i := OC_idle)\<rparr>)"
| ow_ahead: "w_cons s i = OC_load \<Longrightarrow> x = L_seq (w_ix s (oc_pos (w_cur s i))) \<Longrightarrow>
    w_reads s (w_view s i) x n (V_word s1) \<Longrightarrow> s1 AND 1 = 0 \<Longrightarrow> drop_bit 1 s1 > oc_pos (w_cur s i) \<Longrightarrow>
    ow_cons_step i s (s\<lparr>w_view := (w_view s)(i := saw_acquire (w_log s) x n (w_view s i)),
      w_cons := (w_cons s)(i := OC_lapped (drop_bit 1 s1))\<rparr>)"
| ow_match: "w_cons s i = OC_load \<Longrightarrow> x = L_seq (w_ix s (oc_pos (w_cur s i))) \<Longrightarrow>
    w_reads s (w_view s i) x n (V_word s1) \<Longrightarrow> s1 AND 1 = 0 \<Longrightarrow> drop_bit 1 s1 = oc_pos (w_cur s i) \<Longrightarrow>
    length out = w_size s \<Longrightarrow>
    ow_cons_step i s (s\<lparr>w_view := (w_view s)(i := saw_acquire (w_log s) x n (w_view s i)),
      w_cons := (w_cons s)(i := OC_copy s1 {} out)\<rparr>)"
| ow_read: "w_cons s i = OC_copy s1 D out \<Longrightarrow> k < w_size s \<Longrightarrow> k \<notin> D \<Longrightarrow>
    x = L_byte (w_ix s (oc_pos (w_cur s i))) k \<Longrightarrow> w_reads s (w_view s i) x n (V_byte b) \<Longrightarrow>
    ow_cons_step i s (s\<lparr>w_view := (w_view s)(i := saw_relaxed (w_log s) x n (w_view s i)),
      w_cons := (w_cons s)(i := OC_copy s1 (insert k D) (out[k := b]))\<rparr>)"
| ow_torn: "w_cons s i = OC_copy s1 D out \<Longrightarrow> {..<w_size s} \<subseteq> D \<Longrightarrow> vw = acquire_fence (w_view s i) \<Longrightarrow>
    x = L_seq (w_ix s (oc_pos (w_cur s i))) \<Longrightarrow> w_reads s vw x n (V_word s2) \<Longrightarrow> s1 \<noteq> s2 \<Longrightarrow>
    ow_cons_step i s (s\<lparr>w_view := (w_view s)(i := saw_relaxed (w_log s) x n vw),
      w_cons := (w_cons s)(i := OC_lapped (drop_bit 1 s2))\<rparr>)"
| ow_ok: "w_cons s i = OC_copy s1 D out \<Longrightarrow> {..<w_size s} \<subseteq> D \<Longrightarrow> vw = acquire_fence (w_view s i) \<Longrightarrow>
    x = L_seq (w_ix s (oc_pos (w_cur s i))) \<Longrightarrow> w_reads s vw x n (V_word s1) \<Longrightarrow>
    ow_cons_step i s (s\<lparr>w_cur := (w_cur s)(i := (w_cur s i)\<lparr>oc_pos := oc_pos (w_cur s i) + 1\<rparr>),
      w_view := (w_view s)(i := saw_relaxed (w_log s) x n vw),
      w_got := (w_got s)(i := w_got s i @ [(unat (oc_pos (w_cur s i)), out)]),
      w_cons := (w_cons s)(i := OC_idle)\<rparr>)"
| ow_lap: "w_cons s i = OC_lapped newest \<Longrightarrow> w_reads s (w_view s i) L_published n (V_word pub) \<Longrightarrow>
    ow_cons_step i s (s\<lparr>w_cur := (w_cur s)(i := ow_lapped_to pub (w_capacity s) newest (w_cur s i)),
      w_view := (w_view s)(i := saw_acquire (w_log s) L_published n (w_view s i)),
      w_cons := (w_cons s)(i := OC_idle)\<rparr>)"

text \<open>
  The thread of consumer \<open>i\<close> synchronises with the producer by means outside the queue, for
  instance through the flag \<open>done\<close> of \<open>run_overwrite_benchmark\<close> or by joining its thread.
\<close>

definition ow_sync :: "nat \<Rightarrow> 'b ow_sys \<Rightarrow> 'b ow_sys \<Rightarrow> bool" where
  "ow_sync i s t \<longleftrightarrow> (\<exists>k \<le> length (w_log s). t = s\<lparr>w_view := (w_view s)(i := synced k (w_view s i))\<rparr>)"

definition ow_step :: "'b ow_sys \<Rightarrow> 'b ow_sys \<Rightarrow> bool" where
  "ow_step s t \<longleftrightarrow> ow_prod_step s t \<or> (\<exists>i. ow_cons_step i s t) \<or> (\<exists>i. ow_sync i s t)"

section \<open>What the log holds\<close>

text \<open>
  \<open>Q\<close> is the number of positions whose slot has been marked. The stores of position \<open>p\<close> are
  the mark \<open>2p + 1\<close> of its slot, then its bytes, which a fence separates from the mark, then
  the stable number \<open>2p\<close>, which a fence separates from the bytes, then \<open>published_\<close>. A
  position whose constructor threw has its mark only.
\<close>

definition byte_of :: "'b list option list \<Rightarrow> ('b list \<times> nat set) option \<Rightarrow> nat \<Rightarrow> nat \<Rightarrow> 'b \<Rightarrow> bool" where
  "byte_of hist cur p k b \<longleftrightarrow>
     (if p \<le> length hist then (\<exists>x. hist ! (p - 1) = Some x \<and> b = x ! k)
      else (\<exists>x D. cur = Some (x, D) \<and> k \<in> D \<and> b = x ! k))"

definition st_is :: "'b olog \<Rightarrow> nat \<Rightarrow> oloc \<Rightarrow> nat \<Rightarrow> bool" where
  "st_is log m x p \<longleftrightarrow> st_loc (log ! m) = x \<and> st_tag (log ! m) = p"

definition st_stable :: "'b olog \<Rightarrow> nat \<Rightarrow> bool" where
  "st_stable log m \<longleftrightarrow> (\<exists>j w. st_loc (log ! m) = L_seq j \<and> st_val (log ! m) = V_word w \<and> unat w = 2 * st_tag (log ! m))"

definition store_ok ::
  "nat \<Rightarrow> nat \<Rightarrow> 'b list option list \<Rightarrow> ('b list \<times> nat set) option \<Rightarrow> 'b olog \<Rightarrow> nat \<Rightarrow> bool" where
  "store_ok L n hist cur log m \<longleftrightarrow>
     (let e = log ! m; p = st_tag e in
      st_fence e \<le> m \<and> 1 \<le> p \<and> p \<le> length hist + (if cur = None then 0 else 1)
      \<and> (case st_loc e of
           L_seq j \<Rightarrow> j = p mod L \<and> (\<exists>w. st_val e = V_word w \<and> (unat w = Suc (2 * p) \<or>
             unat w = 2 * p \<and> p \<le> length hist \<and> hist ! (p - 1) \<noteq> None
               \<and> (\<forall>k < n. \<exists>m' < st_fence e. st_is log m' (L_byte j k) p)))
         | L_byte j k \<Rightarrow> j = p mod L \<and> (\<exists>b. st_val e = V_byte b \<and> byte_of hist cur p k b)
             \<and> (\<exists>m' < st_fence e. st_is log m' (L_seq j) p)
         | L_published \<Rightarrow> \<exists>w. st_val e = V_word w \<and> unat w = p \<and> p \<le> length hist))"

definition log_ok ::
  "nat \<Rightarrow> nat \<Rightarrow> 'b list option list \<Rightarrow> ('b list \<times> nat set) option \<Rightarrow> 'b olog \<Rightarrow> bool" where
  "log_ok L n hist cur log \<longleftrightarrow>
     (\<forall>m < length log. store_ok L n hist cur log m)
     \<and> (\<forall>m m'. m < m' \<longrightarrow> m' < length log \<longrightarrow> st_tag (log ! m) \<le> st_tag (log ! m'))
     \<and> (\<forall>m m'. m < m' \<longrightarrow> m' < length log \<longrightarrow> st_stable log m \<longrightarrow> st_loc (log ! m') = st_loc (log ! m) \<longrightarrow>
          st_tag (log ! m) < st_tag (log ! m'))"

definition hist_ok :: "nat \<Rightarrow> nat \<Rightarrow> 'b list option list \<Rightarrow> 'b olog \<Rightarrow> bool" where
  "hist_ok L n hist log \<longleftrightarrow>
     (\<forall>p. 1 \<le> p \<longrightarrow> p \<le> length hist \<longrightarrow> hist ! (p - 1) \<noteq> None \<longrightarrow>
        (\<exists>m < length log. st_is log m (L_seq (p mod L)) p \<and> st_stable log m))
     \<and> (\<forall>x. Some x \<in> set hist \<longrightarrow> length x = n)"

lemma log_okD:
  assumes "log_ok L n hist cur log"
  shows "m < length log \<Longrightarrow> store_ok L n hist cur log m"
    "m < m' \<Longrightarrow> m' < length log \<Longrightarrow> st_tag (log ! m) \<le> st_tag (log ! m')"
    "m < m' \<Longrightarrow> m' < length log \<Longrightarrow> st_stable log m \<Longrightarrow> st_loc (log ! m') = st_loc (log ! m) \<Longrightarrow>
      st_tag (log ! m) < st_tag (log ! m')"
  using assms unfolding log_ok_def by blast+

lemma hist_okD:
  assumes "hist_ok L n hist log"
  shows "1 \<le> p \<Longrightarrow> p \<le> length hist \<Longrightarrow> hist ! (p - 1) \<noteq> None \<Longrightarrow>
      \<exists>m < length log. st_is log m (L_seq (p mod L)) p \<and> st_stable log m"
    "Some x \<in> set hist \<Longrightarrow> length x = n"
  using assms unfolding hist_ok_def by blast+

lemma log_fences: "log_ok L n hist cur log \<Longrightarrow> fences_ok log"
  using log_okD(1) by (fastforce simp: fences_ok_def store_ok_def Let_def)

lemma st_is_append: "m < length log \<Longrightarrow> st_is (log @ ys) m x p \<longleftrightarrow> st_is log m x p"
  by (simp add: st_is_def nth_append)

lemma st_stable_append: "m < length log \<Longrightarrow> st_stable (log @ ys) m \<longleftrightarrow> st_stable log m"
  by (simp add: st_stable_def nth_append)

lemma store_ok_append:
  assumes "m < length log"
  shows "store_ok L n hist cur (log @ ys) m \<longleftrightarrow> store_ok L n hist cur log m"
proof (cases "st_fence (log ! m) \<le> m")
  case True
  then have "m' < length log" if "m' < st_fence (log ! m)" for m' using that assms by linarith
  then have "(\<exists>m' < st_fence (log ! m). st_is (log @ ys) m' x p) \<longleftrightarrow> (\<exists>m' < st_fence (log ! m). st_is log m' x p)" for x p
    using st_is_append [of _ log ys x p] by blast
  moreover have "(log @ ys) ! m = log ! m" using assms by (simp add: nth_append)
  ultimately show ?thesis by (simp add: store_ok_def Let_def cong: oloc.case_cong)
qed (use assms in \<open>simp add: store_ok_def Let_def nth_append\<close>)

lemma nth_hist: "1 \<le> p \<Longrightarrow> p \<le> length hist \<Longrightarrow> (hist @ ys) ! (p - 1) = hist ! (p - 1)"
proof -
  assume "1 \<le> p" "p \<le> length hist"
  then have "p - 1 < length hist" by linarith
  then show ?thesis by (simp add: nth_append)
qed

text \<open>The producer's program counter determines which element is being written.\<close>

lemma byte_of_grow:
  "byte_of hist (Some (x, D)) p k b \<Longrightarrow> D \<subseteq> E \<Longrightarrow> byte_of hist (Some (x, E)) p k b"
  "byte_of hist None p k b \<Longrightarrow> byte_of hist c p k b"
  by (auto simp: byte_of_def split: if_splits)

lemma byte_of_finish:
  assumes "byte_of hist (Some (x, D)) p k b" and "1 \<le> p" and "p \<le> Suc (length hist)" and "y = Some x \<or> y = None \<and> D = {}"
  shows "byte_of (hist @ [y]) None p k b"
proof (cases "p \<le> length hist")
  case True
  with assms(2) have "(hist @ [y]) ! (p - 1) = hist ! (p - 1)" by (rule nth_hist)
  with True assms(1) show ?thesis by (simp add: byte_of_def)
next
  case False
  then have "p = Suc (length hist)" using assms(3) by simp
  then show ?thesis using assms(1,4) by (auto simp: byte_of_def)
qed

lemma store_ok_begin: "store_ok L n hist None log m \<Longrightarrow> store_ok L n hist c log m"
  by (auto simp: store_ok_def Let_def intro: byte_of_grow split: oloc.splits)

lemma store_ok_grow: "store_ok L n hist (Some (x, D)) log m \<Longrightarrow> D \<subseteq> E \<Longrightarrow> store_ok L n hist (Some (x, E)) log m"
  by (auto simp: store_ok_def Let_def intro: byte_of_grow split: oloc.splits)

lemma store_ok_finish:
  assumes "store_ok L n hist (Some (x, D)) log m" and "y = Some x \<or> y = None \<and> D = {}"
  shows "store_ok L n (hist @ [y]) None log m"
proof -
  let ?p = "st_tag (log ! m)"
  have p: "1 \<le> ?p" "?p \<le> Suc (length hist)" using assms(1) by (simp_all add: store_ok_def Let_def)
  then have "?p \<le> length hist \<Longrightarrow> (hist @ [y]) ! (?p - 1) = hist ! (?p - 1)" by (simp only: nth_hist)
  then show ?thesis
    using assms(1) byte_of_finish [OF _ p assms(2)] by (auto simp: store_ok_def Let_def split: oloc.splits)
qed

text \<open>One more store, and the end of an element.\<close>

lemma log_append:
  assumes ok: "log_ok L n hist cur log" and e: "store_ok L n hist cur (log @ [e]) (length log)"
    and tags: "\<And>m. m < length log \<Longrightarrow> st_tag (log ! m) \<le> st_tag e"
    and stab: "\<And>m. m < length log \<Longrightarrow> st_stable log m \<Longrightarrow> st_loc e = st_loc (log ! m) \<Longrightarrow> st_tag (log ! m) < st_tag e"
  shows "log_ok L n hist cur (log @ [e])"
proof -
  note D = log_okD [OF ok]
  have "store_ok L n hist cur (log @ [e]) m" if "m < length (log @ [e])" for m
    using that e D(1) [of m] store_ok_append [of m log] by (cases "m = length log") simp_all
  moreover have "st_tag ((log @ [e]) ! m) \<le> st_tag ((log @ [e]) ! m')" if "m < m'" "m' < length (log @ [e])" for m m'
    using that tags [of m] D(2) [of m m'] by (cases "m' = length log") (simp_all add: nth_append)
  moreover have "st_tag ((log @ [e]) ! m) < st_tag ((log @ [e]) ! m')"
    if "m < m'" "m' < length (log @ [e])" "st_stable (log @ [e]) m" "st_loc ((log @ [e]) ! m') = st_loc ((log @ [e]) ! m)" for m m'
    using that stab [of m] D(3) [of m m'] st_stable_append [of m log "[e]"]
    by (cases "m' = length log") (simp_all add: nth_append)
  ultimately show ?thesis unfolding log_ok_def by blast
qed

lemma log_change:
  assumes "log_ok L n hist cur log" and "\<And>m. store_ok L n hist cur log m \<Longrightarrow> store_ok L n hist' cur' log m"
  shows "log_ok L n hist' cur' log"
  using assms unfolding log_ok_def by blast

lemma log_tag_le: "log_ok L n hist cur log \<Longrightarrow> m < length log \<Longrightarrow>
    st_tag (log ! m) \<le> length hist + (if cur = None then 0 else 1)"
  using log_okD(1) by (fastforce simp: store_ok_def Let_def)

lemma log_stable_le: "log_ok L n hist cur log \<Longrightarrow> m < length log \<Longrightarrow> st_stable log m \<Longrightarrow> st_tag (log ! m) \<le> length hist"
  using log_okD(1) by (force simp: store_ok_def Let_def st_stable_def)

lemma hist_append: "hist_ok L n hist log \<Longrightarrow> hist_ok L n hist (log @ ys)"
  unfolding hist_ok_def by (metis st_is_append st_stable_append length_append trans_less_add1)

section \<open>The invariant\<close>

fun w_cur_of :: "'b oprod \<Rightarrow> ('b list \<times> nat set) option" where
  "w_cur_of (OP_copy x pos D) = Some (x, D)"
| "w_cur_of _ = None"

fun oprod_ok :: "nat \<Rightarrow> nat \<Rightarrow> nat \<Rightarrow> nat \<Rightarrow> 'b olog \<Rightarrow> size_t \<Rightarrow> 'b oprod \<Rightarrow> bool" where
  "oprod_ok L n T f log wp OP_idle \<longleftrightarrow> unat wp = T"
| "oprod_ok L n T f log wp (OP_mark x pos) \<longleftrightarrow> pos = wp \<and> unat wp = Suc T \<and> length x = n"
| "oprod_ok L n T f log wp (OP_copy x pos D) \<longleftrightarrow> pos = wp \<and> unat wp = Suc T \<and> length x = n
     \<and> (\<exists>m < f. st_is log m (L_seq (Suc T mod L)) (Suc T))
     \<and> (\<forall>k < n. k \<in> D \<longrightarrow> (\<exists>m < length log. st_is log m (L_byte (Suc T mod L) k) (Suc T)))"
| "oprod_ok L n T f log wp (OP_publish pos) \<longleftrightarrow> pos = wp \<and> unat wp = T \<and> 1 \<le> T"

text \<open>
  A reader that copies the payload of position \<open>pos\<close> has seen the stable store of \<open>pos\<close> and
  everything before its fence happened before; it holds bytes of that element, or else it has
  read a byte of a later one and will know of the mark of that one once it has passed its fence.
\<close>

definition copying :: "nat \<Rightarrow> nat \<Rightarrow> 'b olog \<Rightarrow> oloc tview \<Rightarrow> nat \<Rightarrow> 'b list \<Rightarrow> nat set \<Rightarrow> 'b list \<Rightarrow> bool" where
  "copying L n log vw pos x D out \<longleftrightarrow>
     (\<exists>m. vw_seen vw (L_seq (pos mod L)) = Suc m \<and> st_is log m (L_seq (pos mod L)) pos \<and> st_stable log m
        \<and> st_fence (log ! m) \<le> vw_hb vw \<and> (\<forall>k < n. \<exists>m' < st_fence (log ! m). st_is log m' (L_byte (pos mod L) k) pos))
     \<and> ((\<forall>k < n. k \<in> D \<longrightarrow> out ! k = x ! k)
        \<or> (\<exists>m' < vw_acq vw. st_loc (log ! m') = L_seq (pos mod L) \<and> pos < st_tag (log ! m')))"

fun ocon_pc_ok :: "nat \<Rightarrow> nat \<Rightarrow> 'b list option list \<Rightarrow> nat \<Rightarrow> 'b olog \<Rightarrow> oloc tview \<Rightarrow> size_t \<Rightarrow> 'b ocon \<Rightarrow> bool" where
  "ocon_pc_ok L n hist Q log vw pos (OC_copy s1 D out) \<longleftrightarrow> s1 = push_bit 1 pos \<and> unat pos \<le> length hist
     \<and> length out = n \<and> (\<exists>x. hist ! (unat pos - 1) = Some x \<and> copying L n log vw (unat pos) x D out)"
| "ocon_pc_ok L n hist Q log vw pos (OC_lapped newest) \<longleftrightarrow> pos < newest \<and> unat newest \<le> Q"
| "ocon_pc_ok L n hist Q log vw pos _ \<longleftrightarrow> True"

definition ocon_cur_ok ::
  "'b list option list \<Rightarrow> nat \<Rightarrow> ocons \<Rightarrow> nat \<Rightarrow> (nat \<times> 'b list) list \<Rightarrow> bool" where
  "ocon_cur_ok hist Q c start got \<longleftrightarrow> 1 \<le> start \<and> start \<le> unat (oc_pos c) \<and> unat (oc_pos c) \<le> Suc Q
     \<and> unat (oc_missed c) + length got + start = unat (oc_pos c)
     \<and> (\<forall>p v. (p, v) \<in> set got \<longrightarrow> 1 \<le> p \<and> p < unat (oc_pos c) \<and> p \<le> length hist \<and> hist ! (p - 1) = Some v)
     \<and> sorted_wrt (<) (map fst got)"

definition w_marked :: "'b ow_sys \<Rightarrow> nat" where
  "w_marked s = length (w_hist s) + (if w_cur_of (w_prod s) = None then 0 else 1)"

definition ow_cons_inv :: "'b ow_sys \<Rightarrow> nat \<Rightarrow> bool" where
  "ow_cons_inv s i \<longleftrightarrow> view_ok (w_log s) (w_view s i)
     \<and> (w_cons s i = OC_none \<longrightarrow> w_got s i = [])
     \<and> (w_cons s i \<noteq> OC_none \<longrightarrow>
          ocon_pc_ok (unat (w_capacity s)) (w_size s) (w_hist s) (w_marked s) (w_log s) (w_view s i)
            (oc_pos (w_cur s i)) (w_cons s i)
          \<and> ocon_cur_ok (w_hist s) (w_marked s) (w_cur s i) (w_start s i) (w_got s i))"

definition ow_sys_inv :: "'b ow_sys \<Rightarrow> bool" where
  "ow_sys_inv s \<longleftrightarrow> is_pow2 (w_capacity s) \<and> w_mask s = w_capacity s - 1
     \<and> length (w_hist s) < 2 ^ 63 - 1 \<and> w_fence s \<le> length (w_log s)
     \<and> (\<forall>j < unat (w_capacity s). os_seq (w_slots s ! j) = 0)
     \<and> log_ok (unat (w_capacity s)) (w_size s) (w_hist s) (w_cur_of (w_prod s)) (w_log s)
     \<and> hist_ok (unat (w_capacity s)) (w_size s) (w_hist s) (w_log s)
     \<and> oprod_ok (unat (w_capacity s)) (w_size s) (length (w_hist s)) (w_fence s) (w_log s) (w_write_pos s) (w_prod s)
     \<and> (\<forall>i. ow_cons_inv s i)"

lemma ow_sys_invD:
  assumes "ow_sys_inv s"
  shows "is_pow2 (w_capacity s)" "0 < unat (w_capacity s)" "w_mask s = w_capacity s - 1"
    "length (w_hist s) < 2 ^ 63 - 1" "w_fence s \<le> length (w_log s)"
    "log_ok (unat (w_capacity s)) (w_size s) (w_hist s) (w_cur_of (w_prod s)) (w_log s)"
    "oprod_ok (unat (w_capacity s)) (w_size s) (length (w_hist s)) (w_fence s) (w_log s) (w_write_pos s) (w_prod s)"
    "w_cons s i \<noteq> OC_none \<Longrightarrow> ocon_pc_ok (unat (w_capacity s)) (w_size s) (w_hist s) (w_marked s) (w_log s) (w_view s i)
      (oc_pos (w_cur s i)) (w_cons s i)"
    "w_cons s i \<noteq> OC_none \<Longrightarrow> ocon_cur_ok (w_hist s) (w_marked s) (w_cur s i) (w_start s i) (w_got s i)"
    "w_ix s pos = unat pos mod unat (w_capacity s)"
    "w_cons s i = OC_none \<Longrightarrow> w_got s i = []" "view_ok (w_log s) (w_view s i)"
    "hist_ok (unat (w_capacity s)) (w_size s) (w_hist s) (w_log s)"
    "j < unat (w_capacity s) \<Longrightarrow> os_seq (w_slots s ! j) = 0" "ow_cons_inv s i"
  using assms is_pow2_pos [of "w_capacity s"] unat_and_cap [of "w_capacity s" pos]
  by (auto simp: ow_sys_inv_def ow_cons_inv_def)

lemma ow_sys_inv_init:
  assumes "ow_init s"
  shows "ow_sys_inv s"
proof -
  obtain alloc capacity and dflt :: "'a list" and q where c: "ow_ctor alloc dflt capacity = Inr q"
    and s: "s = ow_boot (length dflt) q" using assms by (auto simp: ow_init_def)
  obtain cap where cap: "ow_check_and_round_capacity capacity = Inr cap"
    and q: "q = \<lparr>o_capacity = cap, o_mask = cap - 1, o_slots = replicate (unat cap) \<lparr>os_seq = 0, os_data = dflt\<rparr>,
        o_write_pos = 0, o_published = 0\<rparr>"
    using c by (auto simp: ow_ctor_def split: sum.splits option.splits)
  show ?thesis
    using ow_cap.accepted_pow2 [OF cap]
    by (simp add: ow_sys_inv_def ow_cons_inv_def s ow_boot_def q log_ok_def hist_ok_def)
qed

section \<open>The producer keeps the invariant\<close>

text \<open>A longer log and more history do not hurt the consumers.\<close>

lemma copying_append:
  assumes c: "copying L n log vw pos x D out" and v: "view_ok log vw"
  shows "copying L n (log @ ys) vw pos x D out"
proof -
  have hb: "vw_hb vw \<le> length log" "vw_acq vw \<le> length log" using v by (simp_all add: view_ok_def)
  obtain m where m: "vw_seen vw (L_seq (pos mod L)) = Suc m" "st_is log m (L_seq (pos mod L)) pos" "st_stable log m"
    "st_fence (log ! m) \<le> vw_hb vw" "\<forall>k < n. \<exists>m' < st_fence (log ! m). st_is log m' (L_byte (pos mod L) k) pos"
    using c by (auto simp: copying_def)
  have lt: "m < length log" using view_ok_seen [OF v, of "L_seq (pos mod L)"] m(1) by simp
  have e: "(log @ ys) ! m = log ! m" using lt by (simp add: nth_append)
  have "\<exists>m' < st_fence (log ! m). st_is (log @ ys) m' (L_byte (pos mod L) k) pos" if "k < n" for k
    using m(4,5) hb that st_is_append [of _ log ys] by (metis less_le_trans)
  then have "vw_seen vw (L_seq (pos mod L)) = Suc m \<and> st_is (log @ ys) m (L_seq (pos mod L)) pos \<and> st_stable (log @ ys) m
      \<and> st_fence ((log @ ys) ! m) \<le> vw_hb vw
      \<and> (\<forall>k < n. \<exists>m' < st_fence ((log @ ys) ! m). st_is (log @ ys) m' (L_byte (pos mod L) k) pos)"
    using m lt by (simp add: st_is_append st_stable_append e)
  moreover have "\<exists>m' < vw_acq vw. st_loc ((log @ ys) ! m') = L_seq (pos mod L) \<and> pos < st_tag ((log @ ys) ! m')"
    if a: "\<exists>m' < vw_acq vw. st_loc (log ! m') = L_seq (pos mod L) \<and> pos < st_tag (log ! m')"
  proof -
    from a obtain m' where m': "m' < vw_acq vw" "st_loc (log ! m') = L_seq (pos mod L)" "pos < st_tag (log ! m')" by blast
    then have "m' < length log" using hb by linarith
    with m' show ?thesis by (intro exI [of _ m']) (simp add: nth_append)
  qed
  ultimately show ?thesis using c unfolding copying_def by blast
qed

lemma ocon_cur_mono:
  "ocon_cur_ok hist Q c start got \<Longrightarrow> Q \<le> Q' \<Longrightarrow> ocon_cur_ok (hist @ ys) Q' c start got"
  unfolding ocon_cur_ok_def by (auto simp: nth_append) (metis Suc_le_eq Suc_pred diff_Suc_1 less_le_trans neq0_conv not_less_eq_eq)+

lemma ocon_pc_mono:
  assumes "ocon_pc_ok L n hist Q log vw pos pc" and "Q \<le> Q'" and "1 \<le> unat pos" and "view_ok log vw"
  shows "ocon_pc_ok L n (hist @ zs) Q' (log @ ys) vw pos pc"
  using assms nth_hist [OF assms(3), of hist zs] copying_append [OF _ assms(4)] by (cases pc) auto

lemma ow_cons_inv_mono:
  assumes inv: "ow_cons_inv s i" and log: "w_log t = w_log s @ ys" and hist: "w_hist t = w_hist s @ zs"
    and le: "w_marked s \<le> w_marked t"
    and same: "w_capacity t = w_capacity s" "w_size t = w_size s" "w_cons t = w_cons s" "w_cur t = w_cur s"
      "w_view t = w_view s" "w_start t = w_start s" "w_got t = w_got s"
  shows "ow_cons_inv t i"
proof -
  have v: "view_ok (w_log s @ zs) (w_view s i)" for zs
    using inv by (induction zs rule: rev_induct)
      (use view_ok_append in \<open>auto simp: ow_cons_inv_def simp flip: append_assoc\<close>)
  have "1 \<le> unat (oc_pos (w_cur s i))" if "w_cons s i \<noteq> OC_none"
    using inv that by (auto simp: ow_cons_inv_def ocon_cur_ok_def)
  then show ?thesis
    using inv v [of ys] v [of "[]"] ocon_pc_mono [OF _ le] ocon_cur_mono [OF _ le]
    unfolding ow_cons_inv_def log hist same by auto
qed

lemma ow_sys_invI:
  assumes inv: "ow_sys_inv s"
    and same: "w_capacity t = w_capacity s" "w_mask t = w_mask s" "w_slots t = w_slots s" "w_size t = w_size s"
      "w_cons t = w_cons s" "w_cur t = w_cur s" "w_view t = w_view s" "w_start t = w_start s" "w_got t = w_got s"
    and log: "w_log t = w_log s @ ys" and hist: "w_hist t = w_hist s @ zs" and le: "w_marked s \<le> w_marked t"
    and bound: "length (w_hist t) < 2 ^ 63 - 1" and f: "w_fence t \<le> length (w_log t)"
    and l: "log_ok (unat (w_capacity s)) (w_size s) (w_hist t) (w_cur_of (w_prod t)) (w_log t)"
    and h: "hist_ok (unat (w_capacity s)) (w_size s) (w_hist t) (w_log t)"
    and p: "oprod_ok (unat (w_capacity s)) (w_size s) (length (w_hist t)) (w_fence t) (w_log t) (w_write_pos t) (w_prod t)"
  shows "ow_sys_inv t"
  using ow_sys_invD [OF inv] ow_cons_inv_mono [OF _ log hist le] bound f l h p
  unfolding ow_sys_inv_def same by blast

lemma ow_mark_keeps_inv:
  assumes inv: "ow_sys_inv s" and pc: "w_prod s = OP_mark x pos"
  shows "ow_sys_inv ((w_release (w_store (L_seq (w_ix s pos)) (V_word (push_bit 1 pos OR 1)) s))\<lparr>w_prod := OP_copy x pos {}\<rparr>)"
proof -
  let ?L = "unat (w_capacity s)" and ?T = "length (w_hist s)"
  note I = ow_sys_invD [OF inv]
  have pos: "unat pos = Suc ?T" "w_write_pos s = pos" "length x = w_size s" using I(7) pc by auto
  define e where "e = \<lparr>st_loc = L_seq (w_ix s pos), st_val = V_word (push_bit 1 pos OR 1) :: 'a oval, st_fence = w_fence s,
    st_tag = unat (w_write_pos s)\<rparr>"
  have ix: "w_ix s pos = Suc ?T mod ?L" using I(10) [of pos] pos(1) by simp
  have v: "unat (push_bit 1 pos OR 1) = Suc (2 * Suc ?T)" using seq_busy [of pos] pos(1) I(4) by simp
  have ok: "log_ok ?L (w_size s) (w_hist s) (Some (x, {})) (w_log s)"
    using log_change [OF I(6) store_ok_begin] pc by simp
  have le: "st_tag (w_log s ! m) \<le> ?T" if "m < length (w_log s)" for m
    using log_tag_le [OF I(6) that] pc by simp
  have l: "log_ok ?L (w_size s) (w_hist s) (Some (x, {})) (w_log s @ [e])"
  proof (rule log_append [OF ok])
    show "store_ok ?L (w_size s) (w_hist s) (Some (x, {})) (w_log s @ [e]) (length (w_log s))"
      using v I(5) pos by (simp add: store_ok_def Let_def e_def ix)
  qed (use le pos in \<open>force simp: e_def\<close>)+
  show ?thesis
    by (rule ow_sys_invI [OF inv, where ys = "[e]" and zs = "[]"])
      (use l pos I(4) hist_append [OF I(13), of "[e]"] pc in
        \<open>simp_all add: w_release_def w_store_def e_def ix w_marked_def st_is_def nth_append exI [of _ "length (w_log s)"]\<close>)
qed

lemma ow_copy_keeps_inv:
  assumes inv: "ow_sys_inv s" and pc: "w_prod s = OP_copy x pos D" and k: "k < w_size s"
  shows "ow_sys_inv ((w_store (L_byte (w_ix s pos) k) (V_byte (x ! k)) s)\<lparr>w_prod := OP_copy x pos (insert k D)\<rparr>)"
proof -
  let ?L = "unat (w_capacity s)" and ?T = "length (w_hist s)"
  note I = ow_sys_invD [OF inv]
  have pos: "unat pos = Suc ?T" "w_write_pos s = pos" "length x = w_size s"
    and mark: "\<exists>m < w_fence s. st_is (w_log s) m (L_seq (Suc ?T mod ?L)) (Suc ?T)"
    and bytes: "\<forall>k < w_size s. k \<in> D \<longrightarrow> (\<exists>m < length (w_log s). st_is (w_log s) m (L_byte (Suc ?T mod ?L) k) (Suc ?T))"
    using I(7) pc by auto
  define e where "e = \<lparr>st_loc = L_byte (w_ix s pos) k, st_val = V_byte (x ! k), st_fence = w_fence s,
    st_tag = unat (w_write_pos s)\<rparr>"
  have ix: "w_ix s pos = Suc ?T mod ?L" using I(10) [of pos] pos(1) by simp
  have ok: "log_ok ?L (w_size s) (w_hist s) (Some (x, insert k D)) (w_log s)"
  proof (rule log_change [OF I(6)])
    show "store_ok ?L (w_size s) (w_hist s) (Some (x, insert k D)) (w_log s) m"
      if "store_ok ?L (w_size s) (w_hist s) (w_cur_of (w_prod s)) (w_log s) m" for m
      using that store_ok_grow [of ?L "w_size s" "w_hist s" x D "w_log s" m "insert k D"] pc by auto
  qed
  have le: "st_tag (w_log s ! m) \<le> Suc ?T" if "m < length (w_log s)" for m
    using log_tag_le [OF I(6) that] pc by simp
  obtain m where m: "m < w_fence s" "st_is (w_log s @ [e]) m (L_seq (Suc ?T mod ?L)) (Suc ?T)"
    using mark I(5) by (metis less_le_trans st_is_append)
  have l: "log_ok ?L (w_size s) (w_hist s) (Some (x, insert k D)) (w_log s @ [e])"
  proof (rule log_append [OF ok])
    show "store_ok ?L (w_size s) (w_hist s) (Some (x, insert k D)) (w_log s @ [e]) (length (w_log s))"
      using m I(5) pos by (auto simp: store_ok_def Let_def e_def ix byte_of_def)
  qed (use le pos in \<open>force simp: e_def st_stable_def\<close>)+
  have "\<exists>m < length (w_log s @ [e]). st_is (w_log s @ [e]) m (L_byte (Suc ?T mod ?L) j) (Suc ?T)"
    if "j < w_size s" "j \<in> insert k D" for j
  proof (cases "j = k")
    case True
    then show ?thesis using pos by (intro exI [of _ "length (w_log s)"]) (simp add: st_is_def e_def ix)
  next
    case False
    then show ?thesis using bytes that st_is_append by (metis insertE length_append trans_less_add1)
  qed
  with m have "oprod_ok ?L (w_size s) ?T (w_fence s) (w_log s @ [e]) (w_write_pos s) (OP_copy x pos (insert k D))"
    using pos by auto
  with l show ?thesis
    by (intro ow_sys_invI [OF inv, where ys = "[e]" and zs = "[]"])
      (use pos I(4,5) hist_append [OF I(13), of "[e]"] pc in \<open>simp_all add: w_store_def e_def w_marked_def\<close>)
qed

lemma ow_stable_keeps_inv:
  assumes inv: "ow_sys_inv s" and pc: "w_prod s = OP_copy x pos D" and all: "{..<w_size s} \<subseteq> D"
    and bound: "Suc (length (w_hist s)) < 2 ^ 63 - 1"
  shows "ow_sys_inv ((w_store (L_seq (w_ix s pos)) (V_word (push_bit 1 pos)) (w_release s))
    \<lparr>w_hist := w_hist s @ [Some x], w_prod := OP_publish pos\<rparr>)"
proof -
  let ?L = "unat (w_capacity s)" and ?T = "length (w_hist s)"
  note I = ow_sys_invD [OF inv]
  have pos: "unat pos = Suc ?T" "w_write_pos s = pos" "length x = w_size s"
    and bytes: "\<forall>k < w_size s. \<exists>m < length (w_log s). st_is (w_log s) m (L_byte (Suc ?T mod ?L) k) (Suc ?T)"
    using I(7) pc all by auto
  define e where "e = \<lparr>st_loc = L_seq (w_ix s pos), st_val = V_word (push_bit 1 pos) :: 'a oval,
    st_fence = length (w_log s), st_tag = unat (w_write_pos s)\<rparr>"
  have ix: "w_ix s pos = Suc ?T mod ?L" using I(10) [of pos] pos(1) by simp
  have v: "unat (push_bit 1 pos) = 2 * Suc ?T" using seq_stable [of pos] pos(1) bound by simp
  have ok: "log_ok ?L (w_size s) (w_hist s @ [Some x]) None (w_log s)"
    using log_change [OF I(6) store_ok_finish] pc by simp
  have le: "st_tag (w_log s ! m) \<le> Suc ?T" if "m < length (w_log s)" for m
    using log_tag_le [OF I(6) that] pc by simp
  have lt: "st_tag (w_log s ! m) < Suc ?T" if "m < length (w_log s)" "st_stable (w_log s) m" for m
    using log_stable_le [OF I(6) that] by simp
  have b: "\<forall>k < w_size s. \<exists>m < length (w_log s). st_is (w_log s @ [e]) m (L_byte (Suc ?T mod ?L) k) (Suc ?T)"
    using bytes by (metis st_is_append)
  have l: "log_ok ?L (w_size s) (w_hist s @ [Some x]) None (w_log s @ [e])"
  proof (rule log_append [OF ok])
    show "store_ok ?L (w_size s) (w_hist s @ [Some x]) None (w_log s @ [e]) (length (w_log s))"
      using v b pos by (simp add: store_ok_def Let_def e_def ix)
  qed (use le lt pos in \<open>force simp: e_def\<close>)+
  have new: "st_is (w_log s @ [e]) (length (w_log s)) (L_seq (Suc ?T mod ?L)) (Suc ?T)" "st_stable (w_log s @ [e]) (length (w_log s))"
    using pos v by (simp_all add: st_is_def st_stable_def e_def ix)
  have "\<exists>m < length (w_log s @ [e]). st_is (w_log s @ [e]) m (L_seq (p mod ?L)) p \<and> st_stable (w_log s @ [e]) m"
    if "1 \<le> p" "p \<le> length (w_hist s @ [Some x])" "(w_hist s @ [Some x]) ! (p - 1) \<noteq> None" for p
  proof (cases "p = Suc ?T")
    case True
    with new show ?thesis by (intro exI [of _ "length (w_log s)"]) simp
  next
    case False
    then have "p \<le> ?T" using that(2) by simp
    then show ?thesis
      using hist_okD(1) [OF hist_append [OF I(13)], of p "[e]"] that(1,3) nth_hist [of p "w_hist s" "[Some x]"] by simp
  qed
  then have "hist_ok ?L (w_size s) (w_hist s @ [Some x]) (w_log s @ [e])"
    using hist_okD(2) [OF I(13)] pos(3) unfolding hist_ok_def by auto
  with l show ?thesis
    by (intro ow_sys_invI [OF inv, where ys = "[e]" and zs = "[Some x]"])
      (use pos bound pc in \<open>simp_all add: w_release_def w_store_def e_def w_marked_def\<close>)
qed

lemma ow_prod_keeps_inv:
  assumes step: "ow_prod_step s t" and inv: "ow_sys_inv s" and bound: "length (w_hist t) < 2 ^ 63 - 1"
  shows "ow_sys_inv t"
proof -
  let ?L = "unat (w_capacity s)" and ?T = "length (w_hist s)"
  note I = ow_sys_invD [OF inv]
  from step show ?thesis
  proof cases
    case (op_call x)
    then have "unat (w_write_pos s + 1) = Suc ?T" using I(4,7) by (simp add: unat_plus1)
    then show ?thesis
      using op_call I(4,5,6,13)
      by (intro ow_sys_invI [OF inv, where ys = "[]" and zs = "[]"]) (simp_all add: w_marked_def)
  next
    case (op_throw x pos)
    have "log_ok ?L (w_size s) (w_hist s @ [None]) None (w_log s)"
      using log_change [OF I(6) store_ok_finish] op_throw by simp
    moreover have "hist_ok ?L (w_size s) (w_hist s @ [None]) (w_log s)"
      using I(13) unfolding hist_ok_def by (auto simp: nth_append)
    ultimately show ?thesis
      using op_throw I(5,7) bound
      by (intro ow_sys_invI [OF inv, where ys = "[]" and zs = "[None]"]) (simp_all add: w_marked_def)
  next
    case (op_publish pos)
    define e where "e = \<lparr>st_loc = L_published, st_val = V_word pos :: 'a oval, st_fence = w_fence s,
      st_tag = unat (w_write_pos s)\<rparr>"
    have pos: "w_write_pos s = pos" "unat pos = ?T" "1 \<le> ?T" using I(7) op_publish by auto
    have le: "st_tag (w_log s ! m) \<le> ?T" if "m < length (w_log s)" for m
      using log_tag_le [OF I(6) that] op_publish by simp
    have "log_ok ?L (w_size s) (w_hist s) None (w_log s @ [e])"
    proof (rule log_append)
      show "log_ok ?L (w_size s) (w_hist s) None (w_log s)" using I(6) op_publish by simp
      show "store_ok ?L (w_size s) (w_hist s) None (w_log s @ [e]) (length (w_log s))"
        using pos I(5) by (simp add: store_ok_def Let_def e_def)
    qed (use le pos in \<open>force simp: e_def st_stable_def\<close>)+
    then show ?thesis
      using op_publish I(4,5) pos hist_append [OF I(13), of "[e]"]
      by (intro ow_sys_invI [OF inv, where ys = "[e]" and zs = "[]"]) (simp_all add: w_store_def e_def w_marked_def)
  qed (use ow_mark_keeps_inv [OF inv] ow_copy_keeps_inv [OF inv] ow_stable_keeps_inv [OF inv] bound in \<open>auto simp: w_store_def w_release_def\<close>)
qed

section \<open>The consumers keep the invariant\<close>

text \<open>Where \<open>lapped_to\<close> takes a consumer.\<close>

lemma ow_target_bounds:
  assumes "pos < newest" and "unat newest \<le> Q" and "unat pub \<le> Q" and "0 < unat cap"
  shows "pos < ow_target pub cap pos newest \<and> unat (ow_target pub cap pos newest) \<le> Q"
proof (cases "(if pub > cap then pub - cap + 1 else 1) \<le> pos")
  case True
  then show ?thesis using assms by (simp add: ow_target_def)
next
  case False
  have "unat (if pub > cap then pub - cap + 1 else 1) \<le> max 1 (unat pub)"
  proof (cases "pub > cap")
    case True
    then have c: "unat (pub - cap) = unat pub - unat cap" "unat cap < unat pub"
      by (simp_all add: word_less_nat_alt unat_minus_le)
    have "unat pub < 2 ^ 64" by simp
    then have "unat (pub - cap) + 1 < 2 ^ 64" using c assms(4) by linarith
    then have "unat (pub - cap + 1) = unat (pub - cap) + 1" by (rule unat_plus1)
    then show ?thesis using True c assms(4) by simp
  qed simp
  moreover have "0 < unat newest" using assms(1) by (simp add: word_less_nat_alt)
  ultimately show ?thesis
    using False assms(2,3) by (simp add: ow_target_def word_le_nat_alt word_less_nat_alt)
qed

lemma ow_seq_match:
  assumes "s1 AND 1 = 0" and "drop_bit 1 s1 = (pos :: size_t)"
  shows "s1 = push_bit 1 pos" and "unat s1 = 2 * unat pos"
proof -
  have "unat s1 AND 1 = 0" using arg_cong [OF assms(1), of unat] by (simp add: unsigned_and_eq)
  then have "unat s1 mod 2 = 0" by (simp add: and_one_eq)
  then have "unat s1 = 2 * (unat s1 div 2)" by auto
  then show u: "unat s1 = 2 * unat pos" using assms(2) by (auto simp: drop_bit_eq_div unat_div)
  have "unat s1 < 2 ^ 64" by simp
  then have "2 * unat pos < 2 ^ 64" unfolding u .
  then have "unat (push_bit 1 pos) = 2 * unat pos" by (intro seq_stable) simp
  with u show "s1 = push_bit 1 pos" by (simp add: word_eq_iff_unat)
qed

lemma even_word_and: "unat (v :: size_t) = 2 * q \<Longrightarrow> v AND 1 = 0"
proof -
  assume "unat v = 2 * q"
  moreover have "unat (v AND 1) = unat v mod 2"
    using unsigned_and_eq [of v 1] by (simp only: unsigned_1 and_one_eq)
  ultimately have "unat (v AND 1) = 0" by (simp only: mod_mult_self1_is_0)
  then show ?thesis by (simp only: word_eq_iff_unat unsigned_0)
qed

text \<open>What a load can return.\<close>

lemma ow_seq_read:
  assumes inv: "ow_sys_inv s" and r: "w_reads s vw (L_seq (w_ix s pos)) n (V_word v)"
  obtains (initial) "n = 0" "v = 0"
  | (store) m where "n = Suc m" "m < length (w_log s)" "st_loc (w_log s ! m) = L_seq (unat pos mod unat (w_capacity s))"
      "1 \<le> st_tag (w_log s ! m)" "st_tag (w_log s ! m) \<le> w_marked s"
      "unat v = Suc (2 * st_tag (w_log s ! m)) \<or> unat v = 2 * st_tag (w_log s ! m)" "st_val (w_log s ! m) = V_word v"
proof (cases n)
  case 0
  have "w_ix s pos < unat (w_capacity s)" using ow_sys_invD(10) [OF inv] ow_sys_invD(2) [OF inv] by simp
  then have "os_seq (w_slots s ! w_ix s pos) = 0" using ow_sys_invD(14) [OF inv] by blast
  with r 0 show ?thesis by (intro initial) (simp_all add: w_reads_def read_val_def)
next
  case (Suc m)
  then have m: "m < length (w_log s)" "st_loc (w_log s ! m) = L_seq (w_ix s pos)" "st_val (w_log s ! m) = V_word v"
    using r can_read_store by (auto simp: w_reads_def read_val_def)
  from log_okD(1) [OF ow_sys_invD(6) [OF inv] m(1)] m(2,3) have
    "1 \<le> st_tag (w_log s ! m)" "st_tag (w_log s ! m) \<le> w_marked s"
    "unat v = Suc (2 * st_tag (w_log s ! m)) \<or> unat v = 2 * st_tag (w_log s ! m)"
    by (auto simp: store_ok_def Let_def w_marked_def)
  with Suc m show ?thesis using ow_sys_invD(10) [OF inv] by (intro store) simp_all
qed

lemma ow_seq_half:
  assumes "ow_sys_inv s" and "w_reads s vw (L_seq (w_ix s pos)) n (V_word v)"
  shows "unat (drop_bit 1 v) \<le> w_marked s"
proof -
  have "unat (drop_bit 1 v) = unat v div 2" by (simp add: drop_bit_eq_div unat_div)
  with ow_seq_read [OF assms] show ?thesis by fastforce
qed

lemma ow_pub_read:
  assumes inv: "ow_sys_inv s" and r: "w_reads s vw L_published n (V_word pub)"
  shows "unat pub \<le> length (w_hist s)"
proof (cases n)
  case 0
  then show ?thesis using r by (simp add: w_reads_def read_val_def)
next
  case (Suc m)
  then have "m < length (w_log s)" "st_loc (w_log s ! m) = L_published" "st_val (w_log s ! m) = V_word pub"
    using r can_read_store by (auto simp: w_reads_def read_val_def)
  with log_okD(1) [OF ow_sys_invD(6) [OF inv], of m] show ?thesis by (auto simp: store_ok_def Let_def)
qed

lemma w_reads_view: "ow_sys_inv s \<Longrightarrow> w_reads s vw x n v \<Longrightarrow> view_ok (w_log s) vw' \<Longrightarrow>
    view_ok (w_log s) (saw_relaxed (w_log s) x n vw') \<and> view_ok (w_log s) (saw_acquire (w_log s) x n vw')"
  using view_ok_saw [OF log_fences [OF ow_sys_invD(6)], of s vw' vw x n] by (simp add: w_reads_def)

text \<open>What the steps of a consumer establish, one lemma each.\<close>

lemma ow_match_ok:
  assumes inv: "ow_sys_inv s" and c: "w_cons s i \<noteq> OC_none"
    and r: "w_reads s (w_view s i) (L_seq (w_ix s (oc_pos (w_cur s i)))) n (V_word s1)"
    and seq: "s1 AND 1 = 0" "drop_bit 1 s1 = oc_pos (w_cur s i)" and out: "length out = w_size s"
  shows "ocon_pc_ok (unat (w_capacity s)) (w_size s) (w_hist s) (w_marked s) (w_log s)
    (saw_acquire (w_log s) (L_seq (w_ix s (oc_pos (w_cur s i)))) n (w_view s i)) (oc_pos (w_cur s i)) (OC_copy s1 {} out)"
proof -
  let ?pos = "oc_pos (w_cur s i)" and ?log = "w_log s" and ?L = "unat (w_capacity s)"
  note m = ow_seq_match [OF seq]
  have "0 < unat ?pos" using ow_sys_invD(9) [OF inv c] by (auto simp: ocon_cur_ok_def)
  then have "s1 \<noteq> 0" using m(2) by auto
  with ow_seq_read [OF inv r] obtain k where k: "n = Suc k" "k < length ?log" "st_loc (?log ! k) = L_seq (unat ?pos mod ?L)"
    "unat s1 = Suc (2 * st_tag (?log ! k)) \<or> unat s1 = 2 * st_tag (?log ! k)" "st_val (?log ! k) = V_word s1" by metis
  have tag: "st_tag (?log ! k) = unat ?pos" using k(4) m(2) by presburger
  have stable: "st_stable ?log k" using k(3,5) m(2) tag by (simp add: st_stable_def)
  have ok: "unat ?pos \<le> length (w_hist s) \<and> w_hist s ! (unat ?pos - 1) \<noteq> None
      \<and> (\<forall>j < w_size s. \<exists>m' < st_fence (?log ! k). st_is ?log m' (L_byte (unat ?pos mod ?L) j) (unat ?pos))"
    using log_okD(1) [OF ow_sys_invD(6) [OF inv] k(2)] k(3,5) tag m(2)
    by (simp add: store_ok_def Let_def)
  then have "copying ?L (w_size s) ?log (saw_acquire ?log (L_seq (w_ix s ?pos)) n (w_view s i)) (unat ?pos) x {} out" for x
    using k(1,3) tag stable ow_sys_invD(10) [OF inv, of ?pos]
    by (simp add: copying_def saw_acquire_def st_is_def read_fence_def)
  then show ?thesis using ok m(1) out by auto
qed

lemma ow_seen_ok:
  assumes inv: "ow_sys_inv s" and pc: "w_cons s i = OC_copy s1 D out" and k: "k < w_size s"
    and x: "x = L_byte (w_ix s (oc_pos (w_cur s i))) k" and r: "w_reads s (w_view s i) x n (V_byte b)"
  shows "ocon_pc_ok (unat (w_capacity s)) (w_size s) (w_hist s) (w_marked s) (w_log s)
    (saw_relaxed (w_log s) x n (w_view s i)) (oc_pos (w_cur s i)) (OC_copy s1 (insert k D) (out[k := b]))"
proof -
  let ?L = "unat (w_capacity s)" and ?pos = "unat (oc_pos (w_cur s i))" and ?log = "w_log s" and ?vw = "w_view s i"
  have c: "w_cons s i \<noteq> OC_none" using pc by simp
  note P = ow_sys_invD(8) [OF inv c, unfolded pc]
  have x': "x = L_byte (?pos mod ?L) k" using x ow_sys_invD(10) [OF inv] by simp
  obtain y where y: "w_hist s ! (?pos - 1) = Some y" "?pos \<le> length (w_hist s)" "length out = w_size s"
    "s1 = push_bit 1 (oc_pos (w_cur s i))" and C: "copying ?L (w_size s) ?log ?vw ?pos y D out" using P by auto
  then obtain m m' where m: "st_fence (?log ! m) \<le> vw_hb ?vw" "m' < st_fence (?log ! m)" "st_is ?log m' x ?pos"
    using k unfolding copying_def x' by blast
  have "m' < n"
    using can_read_after [of ?log ?vw x n m'] r m by (simp add: w_reads_def st_is_def)
  then obtain j where j: "n = Suc j" "m' \<le> j" by (cases n) auto
  then have j': "j < length ?log" "st_loc (?log ! j) = x" "st_val (?log ! j) = V_byte b"
    using r can_read_store by (auto simp: w_reads_def read_val_def)
  have le: "?pos \<le> st_tag (?log ! j)"
    using log_okD(2) [OF ow_sys_invD(6) [OF inv], of m' j] m(3) j(2) j'(1) by (cases "m' = j") (auto simp: st_is_def)
  have S: "store_ok ?L (w_size s) (w_hist s) (w_cur_of (w_prod s)) ?log j" by (rule log_okD(1) [OF ow_sys_invD(6) [OF inv] j'(1)])
  have "(\<forall>q < w_size s. q \<in> insert k D \<longrightarrow> out[k := b] ! q = y ! q)
      \<or> (\<exists>m < vw_acq (saw_relaxed ?log x n ?vw). st_loc (?log ! m) = L_seq (?pos mod ?L) \<and> ?pos < st_tag (?log ! m))"
  proof (cases "st_tag (?log ! j) = ?pos")
    case True
    then have "b = y ! k" using S j'(2,3) y(1,2) x' by (auto simp: store_ok_def Let_def byte_of_def)
    then show ?thesis using C y(3) k by (auto simp: copying_def saw_relaxed_def nth_list_update)
  next
    case False
    then have "?pos < st_tag (?log ! j)" using le by simp
    moreover obtain m where "m < st_fence (?log ! j)" "st_is ?log m (L_seq (?pos mod ?L)) (st_tag (?log ! j))"
      using S j'(2) x' by (auto simp: store_ok_def Let_def)
    ultimately show ?thesis using j(1) by (auto simp: saw_relaxed_def read_fence_def st_is_def less_max_iff_disj)
  qed
  then have "copying ?L (w_size s) ?log (saw_relaxed ?log x n ?vw) ?pos y (insert k D) (out[k := b])"
    using C unfolding copying_def by (simp add: saw_relaxed_def x')
  then show ?thesis using y P by simp
qed

text \<open>
  The second load of the sequence number. It cannot return an older store than the first; if it
  returns a later one, that belongs to a later position; and if it returns the same, no byte
  of a later element was read, for then the mark of that element would have happened before.
\<close>

lemma ow_second_load:
  assumes inv: "ow_sys_inv s" and pc: "w_cons s i = OC_copy s1 D out"
    and r: "w_reads s (acquire_fence (w_view s i)) (L_seq (w_ix s (oc_pos (w_cur s i)))) n (V_word s2)"
  obtains y where "w_hist s ! (unat (oc_pos (w_cur s i)) - 1) = Some y" "unat (oc_pos (w_cur s i)) \<le> length (w_hist s)"
    "s1 \<noteq> s2 \<Longrightarrow> oc_pos (w_cur s i) < drop_bit 1 s2 \<and> unat (drop_bit 1 s2) \<le> w_marked s"
    "s1 = s2 \<Longrightarrow> \<forall>k < w_size s. k \<in> D \<longrightarrow> out ! k = y ! k" "length out = w_size s"
proof -
  let ?L = "unat (w_capacity s)" and ?pos = "unat (oc_pos (w_cur s i))" and ?log = "w_log s" and ?vw = "w_view s i"
  let ?x = "L_seq (?pos mod ?L)"
  have c: "w_cons s i \<noteq> OC_none" using pc by simp
  note I = ow_sys_invD [OF inv]
  obtain y where y: "w_hist s ! (?pos - 1) = Some y" "?pos \<le> length (w_hist s)" "length out = w_size s"
    "s1 = push_bit 1 (oc_pos (w_cur s i))" and C: "copying ?L (w_size s) ?log ?vw ?pos y D out"
    using I(8) [OF c] pc by auto
  then obtain m where m: "vw_seen ?vw ?x = Suc m" "st_is ?log m ?x ?pos" "st_stable ?log m" by (auto simp: copying_def)
  have s1: "unat s1 = 2 * ?pos" using y(2,4) seq_stable [of "oc_pos (w_cur s i)"] I(4) by simp
  have cr: "can_read ?log (acquire_fence ?vw) ?x n" using r I(10) by (simp add: w_reads_def)
  then have "Suc m \<le> n" using m(1) by (simp add: can_read_def acquire_fence_def)
  then obtain j where j: "n = Suc j" "m \<le> j" by (cases n) auto
  from ow_seq_read [OF inv r] j have j': "j < length ?log" "st_loc (?log ! j) = ?x" "1 \<le> st_tag (?log ! j)"
    "st_tag (?log ! j) \<le> w_marked s" "unat s2 = Suc (2 * st_tag (?log ! j)) \<or> unat s2 = 2 * st_tag (?log ! j)"
    "st_val (?log ! j) = V_word s2" by (metis Suc_inject nat.distinct(1))+
  have half: "unat (drop_bit 1 s2) = st_tag (?log ! j)" using j'(5) by (auto simp: drop_bit_eq_div unat_div)
  have later: "m \<noteq> j \<Longrightarrow> ?pos < st_tag (?log ! j)"
    using log_okD(3) [OF I(6), of m j] m(2,3) j(2) j'(1,2) by (simp add: st_is_def)
  have same: "m = j \<Longrightarrow> s1 = s2"
    using m(2,3) j'(6) s1 by (auto simp: st_is_def st_stable_def word_eq_iff_unat)
  have "oc_pos (w_cur s i) < drop_bit 1 s2 \<and> unat (drop_bit 1 s2) \<le> w_marked s" if "s1 \<noteq> s2"
    using that same later half j'(4) by (auto simp: word_less_nat_alt)
  moreover have "\<forall>k < w_size s. k \<in> D \<longrightarrow> out ! k = y ! k" if "s1 = s2"
  proof (rule ccontr)
    assume "\<not> ?thesis"
    then obtain m' where m': "m' < vw_acq ?vw" "st_loc (?log ! m') = ?x" "?pos < st_tag (?log ! m')"
      using C unfolding copying_def by blast
    then have "m' < n" using can_read_after [OF cr, of m'] by (simp add: acquire_fence_def)
    then have "st_tag (?log ! m') \<le> st_tag (?log ! j)"
      using log_okD(2) [OF I(6), of m' j] j(1) j'(1) by (cases "m' = j") auto
    then have "2 * ?pos < unat s2" using m'(3) j'(5) by auto
    then show False using that s1 by simp
  qed
  ultimately show ?thesis using that y(1-3) by blast
qed

lemma ow_ok_ok:
  assumes inv: "ow_sys_inv s" and pc: "w_cons s i = OC_copy s1 D out" and all: "{..<w_size s} \<subseteq> D"
    and r: "w_reads s (acquire_fence (w_view s i)) (L_seq (w_ix s (oc_pos (w_cur s i)))) n (V_word s1)"
  shows "ocon_cur_ok (w_hist s) (w_marked s) ((w_cur s i)\<lparr>oc_pos := oc_pos (w_cur s i) + 1\<rparr>) (w_start s i)
    (w_got s i @ [(unat (oc_pos (w_cur s i)), out)])"
proof -
  let ?c = "w_cur s i"
  have c: "w_cons s i \<noteq> OC_none" using pc by simp
  note I = ow_sys_invD [OF inv]
  note K = I(9) [OF c, unfolded ocon_cur_ok_def]
  from ow_second_load [OF inv pc r] obtain x where x: "w_hist s ! (unat (oc_pos ?c) - 1) = Some x"
      "unat (oc_pos ?c) \<le> length (w_hist s)" "length out = w_size s"
    and same: "\<forall>k < w_size s. k \<in> D \<longrightarrow> out ! k = x ! k" by metis
  have "0 < unat (oc_pos ?c)" using K by linarith
  then have "Some x \<in> set (w_hist s)"
    using x(1,2) by (auto simp: in_set_conv_nth intro!: exI [of _ "unat (oc_pos ?c) - 1"])
  then have "length x = w_size s" using hist_okD(2) [OF I(13)] by blast
  then have out: "out = x" using x(3) same all by (intro nth_equalityI) auto
  have nx: "unat (oc_pos ?c + 1) = Suc (unat (oc_pos ?c))" using x(2) I(4) by (simp add: unat_plus1)
  have "length (w_hist s) \<le> w_marked s" by (simp add: w_marked_def)
  then show ?thesis
    unfolding ocon_cur_ok_def using K x(1,2) out nx by (fastforce simp: sorted_wrt_append)
qed

lemma ow_lap_ok:
  assumes inv: "ow_sys_inv s" and pc: "w_cons s i = OC_lapped newest"
    and r: "w_reads s vw L_published n (V_word pub)"
  shows "ocon_cur_ok (w_hist s) (w_marked s) (ow_lapped_to pub (w_capacity s) newest (w_cur s i)) (w_start s i) (w_got s i)"
proof -
  let ?c = "w_cur s i"
  let ?t = "ow_target pub (w_capacity s) (oc_pos ?c) newest"
  have c: "w_cons s i \<noteq> OC_none" using pc by simp
  note I = ow_sys_invD [OF inv]
  have n: "oc_pos ?c < newest" "unat newest \<le> w_marked s" using I(8) [OF c] pc by simp_all
  have "unat pub \<le> w_marked s" using ow_pub_read [OF inv r] by (simp add: w_marked_def)
  note B = ow_target_bounds [OF n this I(2)]
  note K = I(9) [OF c, unfolded ocon_cur_ok_def]
  have lt: "unat (oc_pos ?c) < unat ?t" using B by (simp add: word_less_nat_alt)
  have "unat (?t - oc_pos ?c) = unat ?t - unat (oc_pos ?c)" using lt by (intro unat_minus_le) simp
  moreover have "unat (oc_missed ?c) + (unat ?t - unat (oc_pos ?c)) < 2 ^ 64"
  proof -
    have "unat ?t < 2 ^ 64" by simp
    then show ?thesis using K lt by linarith
  qed
  ultimately have "unat (oc_missed ?c + (?t - oc_pos ?c)) = unat (oc_missed ?c) + (unat ?t - unat (oc_pos ?c))"
    by (subst unat_plus_small) simp_all
  then show ?thesis using K B lt by (fastforce simp: ocon_cur_ok_def ow_lapped_to_def Let_def)
qed

text \<open>A step of consumer \<open>i\<close> concerns its own part of the invariant only.\<close>

lemma ow_sys_inv_cons:
  assumes inv: "ow_sys_inv s"
    and same: "w_capacity t = w_capacity s" "w_mask t = w_mask s" "w_slots t = w_slots s" "w_size t = w_size s"
      "w_log t = w_log s" "w_fence t = w_fence s" "w_write_pos t = w_write_pos s" "w_prod t = w_prod s" "w_hist t = w_hist s"
    and others: "\<And>j. j \<noteq> i \<Longrightarrow> w_cons t j = w_cons s j \<and> w_cur t j = w_cur s j \<and> w_view t j = w_view s j
      \<and> w_start t j = w_start s j \<and> w_got t j = w_got s j"
    and own: "ow_cons_inv t i"
  shows "ow_sys_inv t"
proof -
  have "w_marked t = w_marked s" by (simp add: w_marked_def same)
  then have "ow_cons_inv t j" for j
    using own ow_sys_invD(15) [OF inv, of j] others [of j] by (cases "j = i") (simp_all add: ow_cons_inv_def same)
  then show ?thesis using inv by (simp add: ow_sys_inv_def same)
qed

lemma w_marked_simps [simp]:
  "w_marked (s\<lparr>w_cons := a\<rparr>) = w_marked s" "w_marked (s\<lparr>w_cur := b\<rparr>) = w_marked s"
  "w_marked (s\<lparr>w_start := c\<rparr>) = w_marked s" "w_marked (s\<lparr>w_got := d\<rparr>) = w_marked s"
  "w_marked (s\<lparr>w_view := e\<rparr>) = w_marked s"
  by (simp_all add: w_marked_def)

lemma ow_make_keeps_inv:
  assumes inv: "ow_sys_inv s" and pc: "w_cons s i = OC_none" and r: "w_reads s (w_view s i) L_published n (V_word pub)"
  shows "ow_sys_inv (s\<lparr>w_cur := (w_cur s)(i := \<lparr>oc_pos = pub + 1, oc_missed = 0\<rparr>),
      w_view := (w_view s)(i := saw_relaxed (w_log s) L_published n (w_view s i)),
      w_start := (w_start s)(i := unat (pub + 1)), w_cons := (w_cons s)(i := OC_idle)\<rparr>)"
proof -
  note I = ow_sys_invD [OF inv]
  have p: "unat pub \<le> length (w_hist s)" by (rule ow_pub_read [OF inv r])
  then have "unat (pub + 1) = Suc (unat pub)" using I(4) by (simp add: unat_plus1)
  then have "ocon_cur_ok (w_hist s) (w_marked s) \<lparr>oc_pos = pub + 1, oc_missed = 0\<rparr> (unat (pub + 1)) (w_got s i)"
    using I(11) [OF pc] p by (simp add: ocon_cur_ok_def w_marked_def)
  then show ?thesis
    using w_reads_view [OF inv r I(12)]
    by (intro ow_sys_inv_cons [OF inv, where i = i]) (simp_all add: ow_cons_inv_def)
qed

lemma ow_cons_keeps_inv:
  assumes step: "ow_cons_step i s t" and inv: "ow_sys_inv s"
  shows "ow_sys_inv t"
proof -
  let ?L = "unat (w_capacity s)"
  note I = ow_sys_invD [OF inv]
  note f = view_ok_fence [OF I(12)]
  have move: "ow_sys_inv (s\<lparr>w_view := (w_view s)(i := vw), w_cons := (w_cons s)(i := pc)\<rparr>)"
    if "w_cons s i \<noteq> OC_none" "pc \<noteq> OC_none" "view_ok (w_log s) vw"
      "ocon_pc_ok ?L (w_size s) (w_hist s) (w_marked s) (w_log s) vw (oc_pos (w_cur s i)) pc" for vw pc
    using that I(9) [OF that(1)]
    by (intro ow_sys_inv_cons [OF inv, where i = i]) (simp_all add: ow_cons_inv_def)
  have finish: "ow_sys_inv (s\<lparr>w_cur := (w_cur s)(i := c), w_view := (w_view s)(i := vw), w_got := (w_got s)(i := got),
      w_cons := (w_cons s)(i := OC_idle)\<rparr>)"
    if "view_ok (w_log s) vw" "ocon_cur_ok (w_hist s) (w_marked s) c (w_start s i) got" for c vw got
    using that by (intro ow_sys_inv_cons [OF inv, where i = i]) (simp_all add: ow_cons_inv_def)
  show ?thesis
    using step
  proof cases
    case (ow_make n pub)
    then show ?thesis using ow_make_keeps_inv [OF inv] by blast
  next
    case ow_call
    then show ?thesis using move [of OC_load "w_view s i"] I(12) by simp
  next
    case (ow_ahead x n s1)
    have "unat (drop_bit 1 s1) \<le> w_marked s"
      by (rule ow_seq_half [OF inv ow_ahead(4) [unfolded ow_ahead(3)]])
    then show ?thesis
      unfolding ow_ahead(1) by (intro move) (use ow_ahead w_reads_view [OF inv ow_ahead(4) I(12)] in simp_all)
  next
    case (ow_match x n s1 out)
    then have "w_cons s i \<noteq> OC_none" by simp
    from ow_match_ok [OF inv this ow_match(4) [unfolded ow_match(3)] ow_match(5-7)]
    show ?thesis unfolding ow_match(1,3)
      by (intro move) (use ow_match w_reads_view [OF inv ow_match(4) I(12)] in simp_all)
  next
    case (ow_read s1 D out k x n b)
    from ow_seen_ok [OF inv ow_read(2,3,5,6)]
    show ?thesis unfolding ow_read(1)
      by (intro move) (use ow_read w_reads_view [OF inv ow_read(6) I(12)] in \<open>simp_all del: ocon_pc_ok.simps\<close>)
  next
    case (ow_torn s1 D out vw x n s2)
    obtain "oc_pos (w_cur s i) < drop_bit 1 s2" "unat (drop_bit 1 s2) \<le> w_marked s"
      by (rule ow_second_load [OF inv ow_torn(2) ow_torn(6) [unfolded ow_torn(4,5)]]) (use ow_torn(7) in blast)
    then show ?thesis unfolding ow_torn(1)
      by (intro move) (use ow_torn w_reads_view [OF inv ow_torn(6) f] in simp_all)
  next
    case (ow_ok s1 D out vw x n)
    from ow_ok_ok [OF inv ow_ok(2,3) ow_ok(6) [unfolded ow_ok(4,5)]]
    show ?thesis unfolding ow_ok(1) by (intro finish) (use ow_ok w_reads_view [OF inv ow_ok(6) f] in simp_all)
  next
    case (ow_lap newest n pub)
    show ?thesis
      using finish [OF _ ow_lap_ok [OF inv ow_lap(2,3)]] w_reads_view [OF inv ow_lap(3) I(12)] unfolding ow_lap(1) by auto
  qed (auto intro!: move simp: w_reads_view [OF inv _ I(12)])
qed

lemma ow_sync_keeps_inv: "ow_sync i s t \<Longrightarrow> ow_sys_inv s \<Longrightarrow> ow_sys_inv t"
proof -
  assume "ow_sync i s t" and inv: "ow_sys_inv s"
  then obtain k where k: "k \<le> length (w_log s)" "t = s\<lparr>w_view := (w_view s)(i := synced k (w_view s i))\<rparr>"
    by (auto simp: ow_sync_def)
  note I = ow_sys_invD [OF inv]
  have "copying L n log (synced k vw) pos x D out" if "copying L n log vw pos x D out" for L n log vw pos x D and out :: "'a list"
    using that by (fastforce simp: copying_def synced_def)
  then have "ocon_pc_ok L n hist Q log (synced k vw) pos pc" if "ocon_pc_ok L n hist Q log vw pos pc"
    for L n hist Q log vw pos and pc :: "'a ocon"
    using that by (cases pc) auto
  then have "ow_cons_inv t i"
    using I(15) [of i] view_ok_synced [OF I(12) k(1)] by (simp add: ow_cons_inv_def k(2))
  then show ?thesis
    using k(2) by (intro ow_sys_inv_cons [OF inv, where i = i]) simp_all
qed

text \<open>What the threads leave alone.\<close>

lemma ow_prod_frame: "ow_prod_step s t \<Longrightarrow> w_cons t = w_cons s \<and> w_cur t = w_cur s \<and> w_view t = w_view s
    \<and> w_got t = w_got s \<and> w_start t = w_start s"
  by (cases rule: ow_prod_step.cases) (auto simp: w_store_def w_release_def)

lemma ow_cons_frame:
  assumes "ow_cons_step i s t"
  shows "w_log t = w_log s" "w_hist t = w_hist s" "w_prod t = w_prod s" "w_cons t i \<noteq> OC_none"
    "j \<noteq> i \<Longrightarrow> w_cons t j = w_cons s j \<and> w_cur t j = w_cur s j \<and> w_view t j = w_view s j
      \<and> w_got t j = w_got s j \<and> w_start t j = w_start s j"
    "w_cons s i \<noteq> OC_none \<Longrightarrow> w_start t i = w_start s i" "vw_hb (w_view s i) \<le> vw_hb (w_view t i)"
  using assms by (cases; simp add: saw_acquire_def saw_relaxed_def acquire_fence_def)+

lemma ow_hist_mono: "ow_step s t \<Longrightarrow> length (w_hist s) \<le> length (w_hist t)"
  unfolding ow_step_def
  by (auto simp: w_store_def w_release_def ow_sync_def elim!: ow_prod_step.cases ow_cons_step.cases)

interpretation ow_sys: guarded_machine ow_init ow_step ow_sys_inv "\<lambda>s. length (w_hist s)" "2 ^ 63 - 1"
proof unfold_locales
  show "ow_sys_inv s" if "ow_init s" for s :: "'a ow_sys" using ow_sys_inv_init that .
  show "length (w_hist s) \<le> length (w_hist t)" if "ow_step s t" for s t :: "'a ow_sys"
    using ow_hist_mono that .
  show "ow_sys_inv t" if "ow_sys_inv s" "ow_step s t" "length (w_hist t) < 2 ^ 63 - 1" for s t :: "'a ow_sys"
    using that ow_prod_keeps_inv ow_cons_keeps_inv ow_sync_keeps_inv unfolding ow_step_def by blast
qed

section \<open>A run\<close>

lemma ow_reach:
  "reach ow_init ow_step s \<Longrightarrow> ow_prod_step s t \<Longrightarrow> reach ow_init ow_step t"
  "reach ow_init ow_step s \<Longrightarrow> ow_cons_step i s t \<Longrightarrow> reach ow_init ow_step t"
  "reach ow_init ow_step s \<Longrightarrow> ow_sync i s t \<Longrightarrow> reach ow_init ow_step t"
  by (metis ow_step_def reach.reach_step)+

text \<open>\<open>publish\<close> of an element of one byte, up to the store of \<open>published_\<close>.\<close>

definition w_publish1 :: "'b \<Rightarrow> 'b ow_sys \<Rightarrow> 'b ow_sys" where
  "w_publish1 b s = (let pos = w_write_pos s + 1; s' = s\<lparr>w_write_pos := pos\<rparr> in
     (w_store (L_seq (w_ix s pos)) (V_word (push_bit 1 pos)) (w_release
       (w_store (L_byte (w_ix s pos) 0) (V_byte b) (w_release
         (w_store (L_seq (w_ix s pos)) (V_word (push_bit 1 pos OR 1)) s')))))
       \<lparr>w_hist := w_hist s @ [Some [b]], w_prod := OP_publish pos\<rparr>)"

lemma w_publish1_reach:
  assumes "reach ow_init ow_step s" and "w_prod s = OP_idle" and "w_size s = 1"
  shows "reach ow_init ow_step (w_publish1 b s)"
proof -
  define pos where "pos = w_write_pos s + 1"
  define s1 where "s1 = s\<lparr>w_write_pos := pos, w_prod := OP_mark [b] pos\<rparr>"
  define s2 where "s2 = (w_release (w_store (L_seq (w_ix s1 pos)) (V_word (push_bit 1 pos OR 1)) s1))
    \<lparr>w_prod := OP_copy [b] pos {}\<rparr>"
  define s3 where "s3 = (w_store (L_byte (w_ix s2 pos) 0) (V_byte ([b] ! 0)) s2)\<lparr>w_prod := OP_copy [b] pos (insert 0 {})\<rparr>"
  define s4 where "s4 = (w_store (L_seq (w_ix s3 pos)) (V_word (push_bit 1 pos)) (w_release s3))
    \<lparr>w_hist := w_hist s3 @ [Some [b]], w_prod := OP_publish pos\<rparr>"
  note defs = s4_def s3_def s2_def s1_def w_store_def w_release_def
  have "ow_prod_step s s1" using op_call [OF assms(2), of "[b]"] assms(3) by (simp add: s1_def pos_def)
  moreover have "ow_prod_step s1 s2" unfolding s2_def by (rule op_mark) (simp add: s1_def)
  moreover have "ow_prod_step s2 s3" unfolding s3_def by (rule op_copy) (use assms(3) in \<open>simp_all add: defs\<close>)
  moreover have "ow_prod_step s3 s4" unfolding s4_def
    by (rule op_stable [of _ _ _ "{0}"]) (use assms(3) in \<open>auto simp: defs\<close>)
  ultimately have "reach ow_init ow_step s4" using assms(1) by (meson ow_reach)
  moreover have "s4 = w_publish1 b s" by (simp add: w_publish1_def Let_def defs pos_def)
  ultimately show ?thesis by simp
qed

text \<open>
  A ring of capacity 2 and elements of one byte: consumer 0 is made, then 1, 2 and 3 are
  published, the store of \<open>published_\<close> for the third still missing, when the consumer at
  position 1 has found the slot of 1 holding position 3.
\<close>

definition w_lap_log :: "nat olog" where
  "w_lap_log = [
     \<lparr>st_loc = L_seq 1, st_val = V_word 3, st_fence = 0, st_tag = 1\<rparr>,
     \<lparr>st_loc = L_byte 1 0, st_val = V_byte 1, st_fence = 1, st_tag = 1\<rparr>,
     \<lparr>st_loc = L_seq 1, st_val = V_word 2, st_fence = 2, st_tag = 1\<rparr>,
     \<lparr>st_loc = L_published, st_val = V_word 1, st_fence = 2, st_tag = 1\<rparr>,
     \<lparr>st_loc = L_seq 0, st_val = V_word 5, st_fence = 2, st_tag = 2\<rparr>,
     \<lparr>st_loc = L_byte 0 0, st_val = V_byte 2, st_fence = 5, st_tag = 2\<rparr>,
     \<lparr>st_loc = L_seq 0, st_val = V_word 4, st_fence = 6, st_tag = 2\<rparr>,
     \<lparr>st_loc = L_published, st_val = V_word 2, st_fence = 6, st_tag = 2\<rparr>,
     \<lparr>st_loc = L_seq 1, st_val = V_word 7, st_fence = 6, st_tag = 3\<rparr>,
     \<lparr>st_loc = L_byte 1 0, st_val = V_byte 3, st_fence = 9, st_tag = 3\<rparr>,
     \<lparr>st_loc = L_seq 1, st_val = V_word 6, st_fence = 10, st_tag = 3\<rparr>]"

definition w_lap :: "nat ow_sys" where
  "w_lap = \<lparr>w_capacity = 2, w_mask = 1, w_size = 1,
     w_slots = [\<lparr>os_seq = 0, os_data = [0]\<rparr>, \<lparr>os_seq = 0, os_data = [0]\<rparr>], w_write_pos = 3,
     w_log = w_lap_log, w_fence = 10, w_prod = OP_publish 3, w_cons = (\<lambda>_. OC_none)(0 := OC_lapped 3),
     w_cur = (\<lambda>_. \<lparr>oc_pos = 0, oc_missed = 0\<rparr>)(0 := \<lparr>oc_pos = 1, oc_missed = 0\<rparr>),
     w_view = (\<lambda>_. fresh_view)(0 := \<lparr>vw_hb = 10, vw_acq = 0, vw_seen = (\<lambda>_. 0)(L_seq 1 := 11)\<rparr>),
     w_start = (\<lambda>_. 0)(0 := 1), w_hist = [Some [1], Some [2], Some [3]], w_got = (\<lambda>_. [])\<rparr>"

lemmas w_load_simps = w_reads_def can_read_eval read_val_def read_fence_def saw_acquire_def saw_relaxed_def acquire_fence_def

lemma w_lap_reach: "reach ow_init ow_step w_lap"
proof -
  define s0 where "s0 = ow_boot 1 \<lparr>o_capacity = 2, o_mask = 1, o_slots = [\<lparr>os_seq = 0, os_data = [0 :: nat]\<rparr>,
      \<lparr>os_seq = 0, os_data = [0]\<rparr>], o_write_pos = 0, o_published = 0\<rparr>"
  define s1 where "s1 = s0\<lparr>w_cur := (w_cur s0)(0 := \<lparr>oc_pos = 0 + 1, oc_missed = 0\<rparr>),
      w_view := (w_view s0)(0 := saw_relaxed (w_log s0) L_published 0 (w_view s0 0)),
      w_start := (w_start s0)(0 := unat (0 + 1 :: size_t)), w_cons := (w_cons s0)(0 := OC_idle)\<rparr>"
  define s2 where "s2 = (w_store L_published (V_word 1) (w_publish1 1 s1))\<lparr>w_prod := OP_idle\<rparr>"
  define s3 where "s3 = (w_store L_published (V_word 2) (w_publish1 2 s2))\<lparr>w_prod := OP_idle\<rparr>"
  define s4 where "s4 = w_publish1 3 s3"
  define s5 where "s5 = s4\<lparr>w_cons := (w_cons s4)(0 := OC_load)\<rparr>"
  note defs = s3_def s2_def s1_def s0_def ow_boot_def w_publish1_def Let_def w_store_def w_release_def w_load_simps fresh_view_def
  have "ow_init s0" using ow_ctor_2 [of "[0 :: nat]"] by (auto simp: ow_init_def s0_def intro!: exI)
  then have r0: "reach ow_init ow_step s0" by (rule reach_init)
  have "ow_cons_step 0 s0 s1" unfolding s1_def by (rule ow_make) (simp_all add: defs)
  with r0 have r1: "reach ow_init ow_step s1" by (rule ow_reach)
  have "w_prod s1 = OP_idle" "w_size s1 = 1" by (simp_all add: defs)
  note p1 = w_publish1_reach [OF r1 this, of 1]
  have "ow_prod_step (w_publish1 1 s1) s2" unfolding s2_def by (rule op_publish) (simp add: defs)
  with p1 have r2: "reach ow_init ow_step s2" by (rule ow_reach)
  have "w_prod s2 = OP_idle" "w_size s2 = 1" by (simp_all add: defs)
  note p2 = w_publish1_reach [OF r2 this, of 2]
  have "ow_prod_step (w_publish1 2 s2) s3" unfolding s3_def by (rule op_publish) (simp add: defs)
  with p2 have r3: "reach ow_init ow_step s3" by (rule ow_reach)
  have "w_prod s3 = OP_idle" "w_size s3 = 1" by (simp_all add: defs)
  note p3 = w_publish1_reach [OF r3 this, of 3, folded s4_def]
  have s5: "s5 = w_lap\<lparr>w_cons := (\<lambda>_. OC_none)(0 := OC_load), w_view := (\<lambda>_. fresh_view)\<rparr>"
    by (simp add: s5_def s4_def defs w_lap_def w_lap_log_def fun_upd_idem)
  have "ow_cons_step 0 s4 s5" unfolding s5_def by (rule ow_call) (simp add: s4_def defs)
  with p3 have r5: "reach ow_init ow_step s5" by (rule ow_reach)
  have "ow_cons_step 0 s5 (s5\<lparr>w_view := (w_view s5)(0 := saw_acquire (w_log s5) (L_seq 1) 11 (w_view s5 0)),
      w_cons := (w_cons s5)(0 := OC_lapped (drop_bit 1 6))\<rparr>)"
    by (rule ow_ahead) (simp_all add: s5 w_lap_def w_lap_log_def w_load_simps fresh_view_def)
  moreover have "s5\<lparr>w_view := (w_view s5)(0 := saw_acquire (w_log s5) (L_seq 1) 11 (w_view s5 0)),
      w_cons := (w_cons s5)(0 := OC_lapped (drop_bit 1 6))\<rparr> = w_lap"
    unfolding s5 by (simp add: w_lap_def w_lap_log_def w_load_simps fresh_view_def)
  ultimately show ?thesis using r5 by (metis ow_reach(2))
qed

section \<open>Properties\<close>

lemmas w_lap_simps = w_lap_def ow_lapped_to_def ow_target_def Let_def

text \<open>
  C3. No reader ever accepts a torn element, and every consumer's books balance: in every
  reachable state whatever consumer \<open>i\<close> has received at a position is exactly the element the
  producer published there, the positions received are increasing, and the number received
  plus \<open>missed()\<close> is the distance its cursor has moved since \<open>make_consumer\<close>.
\<close>

theorem ow_no_torn_read:
  assumes "reach ow_init ow_step s" and "length (w_hist s) < 2 ^ 63 - 1" and "w_cons s i \<noteq> OC_none"
  shows "list_all (\<lambda>(p, v). 1 \<le> p \<and> p \<le> length (w_hist s) \<and> w_hist s ! (p - 1) = Some v) (w_got s i)
    \<and> sorted_wrt (<) (map fst (w_got s i))
    \<and> length (w_got s i) + unat (oc_missed (w_cur s i)) = unat (oc_pos (w_cur s i)) - w_start s i
    \<and> unat (oc_pos (w_cur s i)) \<le> length (w_hist s) + 2"
proof -
  have inv: "ow_sys_inv s" using ow_sys.reach_inv [OF assms(1,2)] .
  have "w_marked s \<le> Suc (length (w_hist s))" by (simp add: w_marked_def)
  then show ?thesis
    using ow_sys_invD(9) [OF inv assms(3)] by (auto simp: ocon_cur_ok_def list_all_iff)
qed

lemma ow_lap_moves:
  assumes inv: "ow_sys_inv s" and "w_cons s i = OC_lapped newest" and "ow_cons_step i s t"
  shows "unat (oc_pos (w_cur s i)) < unat (oc_pos (w_cur t i))
    \<and> unat (oc_pos (w_cur t i)) \<le> length (w_hist s) + 1
    \<and> unat (oc_missed (w_cur t i)) - unat (oc_missed (w_cur s i))
        = unat (oc_pos (w_cur t i)) - unat (oc_pos (w_cur s i))
    \<and> w_got t i = w_got s i"
proof -
  note I = ow_sys_invD [OF inv]
  have c: "w_cons s i \<noteq> OC_none" using assms(2) by simp
  from assms(3) obtain n pub where r: "w_reads s (w_view s i) L_published n (V_word pub)"
    and t: "w_cur t i = ow_lapped_to pub (w_capacity s) newest (w_cur s i)" "w_got t = w_got s" "w_cons t i = OC_idle"
      "w_start t = w_start s"
    by (cases rule: ow_cons_step.cases) (use assms(2) in auto)
  have Q: "w_marked s \<le> Suc (length (w_hist s))" "length (w_hist s) \<le> w_marked s" by (simp_all add: w_marked_def)
  have new: "oc_pos (w_cur s i) < newest" "unat newest \<le> w_marked s" using I(8) [OF c] assms(2) by simp_all
  have "unat pub \<le> w_marked s" using ow_pub_read [OF inv r] Q by linarith
  note B = ow_target_bounds [OF new this I(2)]
  have pos: "oc_pos (w_cur t i) = ow_target pub (w_capacity s) (oc_pos (w_cur s i)) newest"
    using t(1) B by (simp add: ow_lapped_to_def Let_def)
  have inv': "ow_sys_inv t" using ow_cons_keeps_inv [OF assms(3) inv] .
  have "w_cons t i \<noteq> OC_none" using t(3) by simp
  note K = ow_sys_invD(9) [OF inv' this, unfolded ocon_cur_ok_def] I(9) [OF c, unfolded ocon_cur_ok_def]
  have lt: "unat (oc_pos (w_cur s i)) < unat (oc_pos (w_cur t i))" "unat (oc_pos (w_cur t i)) \<le> w_marked s"
    using B unfolding pos by (simp_all add: word_less_nat_alt)
  have e: "w_got t i = w_got s i" "w_start t i = w_start s i" using t by simp_all
  have "unat (oc_missed (w_cur t i)) + length (w_got s i) + w_start s i = unat (oc_pos (w_cur t i))"
    "unat (oc_missed (w_cur s i)) + length (w_got s i) + w_start s i = unat (oc_pos (w_cur s i))"
    using K unfolding e by simp_all
  then have "unat (oc_missed (w_cur t i)) - unat (oc_missed (w_cur s i))
        = unat (oc_pos (w_cur t i)) - unat (oc_pos (w_cur s i))" by linarith
  moreover have "unat (oc_pos (w_cur t i)) \<le> length (w_hist s) + 1" using lt(2) Q(1) by linarith
  ultimately show ?thesis using lt(1) e(1) by simp
qed

text \<open>
  A lapped consumer always moves: when \<open>try_read\<close> ends in \<open>lapped_to\<close>, whatever earlier
  value of \<open>published_\<close> it loads, its position grows strictly, never beyond the position the
  producer has reached, and \<open>missed()\<close> grows by exactly the number of positions skipped.
\<close>

theorem ow_lapped_advances:
  assumes "reach ow_init ow_step s" and "length (w_hist s) < 2 ^ 63 - 1"
    and "w_cons s i = OC_lapped newest" and "ow_cons_step i s t"
  shows "unat (oc_pos (w_cur s i)) < unat (oc_pos (w_cur t i))
    \<and> unat (oc_pos (w_cur t i)) \<le> length (w_hist s) + 1
    \<and> unat (oc_missed (w_cur t i)) - unat (oc_missed (w_cur s i))
        = unat (oc_pos (w_cur t i)) - unat (oc_pos (w_cur s i))
    \<and> w_got t i = w_got s i"
  using ow_lap_moves [OF ow_sys.reach_inv [OF assms(1,2)] assms(3,4)] .

text \<open>
  C15. A reader can skip an item that is still intact. With \<open>published_\<close> one behind the slots
  (the producer has marked the slot of 3 stable but not yet stored \<open>published_\<close>),
  \<open>lapped_to\<close> computes the target 1, falls back to \<open>newest\<close>, moves the consumer from 1 to 3
  and reports 2 missed items, although only item 1 was overwritten and the slot of item 2 is
  stable and would have been read correctly.
\<close>

theorem ow_skips_intact_item:
  "\<exists>t. reach ow_init ow_step w_lap \<and> ow_cons_step 0 w_lap t \<and> oc_pos (w_cur t 0) = 3 \<and> oc_missed (w_cur t 0) = 2
    \<and> w_mem t (L_seq (w_ix t 2)) = V_word (push_bit 1 2) \<and> w_mem t (L_byte (w_ix t 2) 0) = V_byte 2
    \<and> (\<exists>u v. reach ow_init ow_step u \<and> w_cur u = w_cur w_lap \<and> w_hist u = w_hist w_lap \<and> w_mem u L_published = V_word 3
        \<and> ow_cons_step 0 u v \<and> oc_pos (w_cur v 0) = 2 \<and> oc_missed (w_cur v 0) = 1)"
proof -
  let ?t = "w_lap\<lparr>w_cur := (w_cur w_lap)(0 := ow_lapped_to 2 (w_capacity w_lap) 3 (w_cur w_lap 0)),
      w_view := (w_view w_lap)(0 := saw_acquire (w_log w_lap) L_published 8 (w_view w_lap 0)),
      w_cons := (w_cons w_lap)(0 := OC_idle)\<rparr>"
  let ?u = "(w_store L_published (V_word 3) w_lap)\<lparr>w_prod := OP_idle\<rparr>"
  let ?v = "?u\<lparr>w_cur := (w_cur ?u)(0 := ow_lapped_to 3 (w_capacity ?u) 3 (w_cur ?u 0)),
      w_view := (w_view ?u)(0 := saw_acquire (w_log ?u) L_published 12 (w_view ?u 0)),
      w_cons := (w_cons ?u)(0 := OC_idle)\<rparr>"
  note mem = w_mem_def read_val_def latest_eval w_lap_log_def w_store_def
  have t: "ow_cons_step 0 w_lap ?t" by (rule ow_lap) (simp_all add: w_lap_def w_lap_log_def w_load_simps)
  have "ow_prod_step w_lap ?u" by (rule op_publish) (simp add: w_lap_def)
  with w_lap_reach have u: "reach ow_init ow_step ?u" by (rule ow_reach)
  have v: "ow_cons_step 0 ?u ?v"
    by (rule ow_lap) (simp_all add: w_lap_def w_lap_log_def w_store_def w_load_simps)
  have "\<exists>u v. reach ow_init ow_step u \<and> w_cur u = w_cur w_lap \<and> w_hist u = w_hist w_lap \<and> w_mem u L_published = V_word 3
        \<and> ow_cons_step 0 u v \<and> oc_pos (w_cur v 0) = 2 \<and> oc_missed (w_cur v 0) = 1"
    by (intro exI [of _ ?u] exI [of _ ?v] conjI u v) (simp_all add: w_lap_simps mem word_le_nat_alt)
  moreover have "oc_pos (w_cur ?t 0) = 3 \<and> oc_missed (w_cur ?t 0) = 2
      \<and> w_mem ?t (L_seq (w_ix ?t 2)) = V_word (push_bit 1 2) \<and> w_mem ?t (L_byte (w_ix ?t 2) 0) = V_byte 2"
    by (simp add: w_lap_simps mem)
  ultimately show ?thesis using w_lap_reach t by blast
qed

theorem ow_no_torn_read_witness: "unat (oc_pos (w_cur w_lap 0)) \<le> 5"
  using ow_no_torn_read [OF w_lap_reach, of 0] by (simp add: w_lap_def)

theorem ow_lapped_advances_witness:
  "\<exists>t. ow_cons_step 0 w_lap t \<and> 1 < unat (oc_pos (w_cur t 0)) \<and> unat (oc_pos (w_cur t 0)) \<le> 4"
proof -
  let ?t = "w_lap\<lparr>w_cur := (w_cur w_lap)(0 := ow_lapped_to 2 (w_capacity w_lap) 3 (w_cur w_lap 0)),
      w_view := (w_view w_lap)(0 := saw_acquire (w_log w_lap) L_published 8 (w_view w_lap 0)),
      w_cons := (w_cons w_lap)(0 := OC_idle)\<rparr>"
  have t: "ow_cons_step 0 w_lap ?t" by (rule ow_lap) (simp_all add: w_lap_def w_lap_log_def w_load_simps)
  have "1 < unat (oc_pos (w_cur ?t 0)) \<and> unat (oc_pos (w_cur ?t 0)) \<le> 4"
    using ow_lapped_advances [OF w_lap_reach _ _ t, of 3] by (simp add: w_lap_def)
  with t show ?thesis by blast
qed
text \<open>How many own steps a call can still take, for elements of \<open>n\<close> bytes.\<close>

fun oprod_rank :: "nat \<Rightarrow> 'b oprod \<Rightarrow> nat" where
  "oprod_rank n OP_idle = 0"
| "oprod_rank n (OP_mark x pos) = n + 3"
| "oprod_rank n (OP_copy x pos D) = card ({..<n} - D) + 2"
| "oprod_rank n (OP_publish pos) = 1"

fun ocon_rank :: "nat \<Rightarrow> 'b ocon \<Rightarrow> nat" where
  "ocon_rank n OC_none = 0"
| "ocon_rank n OC_idle = 0"
| "ocon_rank n OC_load = n + 3"
| "ocon_rank n (OC_copy s1 D out) = card ({..<n} - D) + 2"
| "ocon_rank n (OC_lapped newest) = 1"

lemma card_fewer: "(k :: nat) < n \<Longrightarrow> k \<notin> D \<Longrightarrow> card ({..<n} - insert k D) < card ({..<n} - D)"
proof -
  assume "(k :: nat) < n" "k \<notin> D"
  then have "k \<in> {..<n} - D" "k \<notin> {..<n} - insert k D" by simp_all
  then have "{..<n} - insert k D \<subset> {..<n} - D" by blast
  then show ?thesis by (intro psubset_card_mono) simp_all
qed

lemma oprod_progress: "ow_prod_step s t \<Longrightarrow> w_cons t = w_cons s \<and> w_size t = w_size s
    \<and> (w_prod s \<noteq> OP_idle \<longrightarrow> oprod_rank (w_size s) (w_prod t) < oprod_rank (w_size s) (w_prod s))"
  by (cases rule: ow_prod_step.cases) (auto simp: w_store_def w_release_def card_fewer simp del: card_Diff_insert)

lemma ocon_progress: "ow_cons_step i s t \<Longrightarrow> w_prod t = w_prod s \<and> w_size t = w_size s \<and> w_log t = w_log s
    \<and> (w_cons s i \<noteq> OC_idle \<longrightarrow> w_cons s i \<noteq> OC_none \<longrightarrow>
        ocon_rank (w_size s) (w_cons t i) < ocon_rank (w_size s) (w_cons s i))"
  by (cases rule: ow_cons_step.cases) (auto simp: card_fewer simp del: card_Diff_insert)

lemma oprod_enabled: "Ex (ow_prod_step s)"
proof (cases "w_prod s")
  case OP_idle
  have "length (replicate (w_size s) undefined) = w_size s" by simp
  from op_call [OF OP_idle this] show ?thesis by blast
next
  case (OP_copy x pos D)
  show ?thesis
  proof (cases "{..<w_size s} \<subseteq> D")
    case True
    from op_stable [OF OP_copy this] show ?thesis by blast
  next
    case False
    then obtain k where "k < w_size s" "k \<notin> D" by auto
    from op_copy [OF OP_copy this] show ?thesis by blast
  qed
qed (blast intro: op_mark op_publish)+

text \<open>The latest store of a location can always be loaded, and has a value of the right kind.\<close>

lemma ow_can_load:
  assumes inv: "ow_sys_inv s" and "view_ok (w_log s) vw"
  shows "\<exists>n v. w_reads s vw (L_seq j) n (V_word v)" and "\<exists>n b. w_reads s vw (L_byte j k) n (V_byte b)"
    and "\<exists>n v. w_reads s vw L_published n (V_word v)"
proof -
  have L: "can_read (w_log s) vw x (latest (w_log s) x)" for x using can_read_latest assms(2) .
  have ok: "store_ok (unat (w_capacity s)) (w_size s) (w_hist s) (w_cur_of (w_prod s)) (w_log s) m
      \<and> st_loc (w_log s ! m) = x" if "latest (w_log s) x = Suc m" for m x
    using L [of x] that log_okD(1) [OF ow_sys_invD(6) [OF inv], of m] by (auto simp: can_read_def)
  have "\<exists>v. read_val (w_initial (w_slots s)) (w_log s) (L_seq j) (latest (w_log s) (L_seq j)) = V_word v"
    using ok [of "L_seq j"] by (cases "latest (w_log s) (L_seq j)") (auto simp: read_val_def store_ok_def Let_def)
  with L show "\<exists>n v. w_reads s vw (L_seq j) n (V_word v)" unfolding w_reads_def by blast
  have "\<exists>b. read_val (w_initial (w_slots s)) (w_log s) (L_byte j k) (latest (w_log s) (L_byte j k)) = V_byte b"
    using ok [of "L_byte j k"] by (cases "latest (w_log s) (L_byte j k)") (auto simp: read_val_def store_ok_def Let_def)
  with L show "\<exists>n b. w_reads s vw (L_byte j k) n (V_byte b)" unfolding w_reads_def by blast
  have "\<exists>v. read_val (w_initial (w_slots s)) (w_log s) L_published (latest (w_log s) L_published) = V_word v"
    using ok [of L_published] by (cases "latest (w_log s) L_published") (auto simp: read_val_def store_ok_def Let_def)
  with L show "\<exists>n v. w_reads s vw L_published n (V_word v)" unfolding w_reads_def by blast
qed

lemma ocon_enabled:
  assumes inv: "ow_sys_inv s"
  shows "Ex (ow_cons_step i s)"
proof -
  note v = ow_sys_invD(12) [OF inv, of i]
  note load = ow_can_load [OF inv v]
  show ?thesis
  proof (cases "w_cons s i")
    case OC_none
    from load(3) ow_make [OF OC_none] show ?thesis by blast
  next
    case OC_load
    obtain n s1 where r: "w_reads s (w_view s i) (L_seq (w_ix s (oc_pos (w_cur s i)))) n (V_word s1)" using load(1) by blast
    have len: "length (replicate (w_size s) undefined) = w_size s" by simp
    show ?thesis
    proof (cases "s1 AND 1 = 0")
      case True
      then show ?thesis
        using ow_empty [OF OC_load refl r True] ow_ahead [OF OC_load refl r True] ow_match [OF OC_load refl r True _ len]
        by (cases "drop_bit 1 s1" "oc_pos (w_cur s i)" rule: linorder_cases) blast+
    next
      case False
      from ow_busy [OF OC_load refl r False] show ?thesis by blast
    qed
  next
    case (OC_copy s1 D out)
    show ?thesis
    proof (cases "{..<w_size s} \<subseteq> D")
      case True
      obtain n s2 where "w_reads s (acquire_fence (w_view s i)) (L_seq (w_ix s (oc_pos (w_cur s i)))) n (V_word s2)"
        using ow_can_load(1) [OF inv view_ok_fence [OF v]] by blast
      then show ?thesis using ow_torn [OF OC_copy True refl refl] ow_ok [OF OC_copy True refl refl]
        by (cases "s1 = s2") blast+
    next
      case False
      then obtain k where "k < w_size s" "k \<notin> D" by auto
      from ow_read [OF OC_copy this refl] load(2) show ?thesis by blast
    qed
  next
    case (OC_lapped newest)
    from load(3) ow_lap [OF OC_lapped] show ?thesis by blast
  qed (blast intro: ow_call)
qed

text \<open>
  C34. Publishing and reading never wait: inside a call each thread always has a step of its own
  and every such step brings it closer to returning, whatever the others do; consumers
  store nothing, and neither side touches the other's program counter.
\<close>

theorem ow_wait_free:
  assumes "reach ow_init ow_step s" and "length (w_hist s) < 2 ^ 63 - 1"
  shows "Ex (ow_prod_step s) \<and> Ex (ow_cons_step i s)
    \<and> \<not> (\<exists>t. ow_prod_step s t \<and> w_cons t \<noteq> w_cons s)
    \<and> \<not> (\<exists>t. ow_prod_step s t \<and> w_prod s \<noteq> OP_idle
          \<and> oprod_rank (w_size s) (w_prod s) \<le> oprod_rank (w_size t) (w_prod t))
    \<and> \<not> (\<exists>t. ow_cons_step i s t \<and> (w_prod t, w_log t) \<noteq> (w_prod s, w_log s))
    \<and> \<not> (\<exists>t. ow_cons_step i s t \<and> w_cons s i \<noteq> OC_idle \<and> w_cons s i \<noteq> OC_none
          \<and> ocon_rank (w_size s) (w_cons s i) \<le> ocon_rank (w_size t) (w_cons t i))"
proof -
  have "\<not> (\<exists>t. ow_prod_step s t \<and> w_prod s \<noteq> OP_idle
          \<and> oprod_rank (w_size s) (w_prod s) \<le> oprod_rank (w_size t) (w_prod t))"
    using oprod_progress [of s] by (metis not_le)
  moreover have "\<not> (\<exists>t. ow_cons_step i s t \<and> w_cons s i \<noteq> OC_idle \<and> w_cons s i \<noteq> OC_none
          \<and> ocon_rank (w_size s) (w_cons s i) \<le> ocon_rank (w_size t) (w_cons t i))"
    using ocon_progress [of i s] by (metis not_le)
  ultimately show ?thesis using oprod_enabled [of s] ocon_enabled [OF ow_sys.reach_inv [OF assms]] oprod_progress [of s] ocon_progress [of i s]
    by blast
qed
theorem ow_wait_free_witness: "Ex (ow_cons_step 0 w_lap)"
  using ow_wait_free [OF w_lap_reach, of 0] by (simp add: w_lap_def)

text \<open>The slot a synchronised reader looks at, when the producer has stopped.\<close>

lemma ow_end_of_stream:
  assumes inv: "ow_sys_inv s" and "w_prod s = OP_idle" and "None \<notin> set (w_hist s)"
    and "vw_hb (w_view s i) = length (w_log s)" and "w_cons s i = OC_load" and "ow_cons_step i s t" and "w_cons t i = OC_idle"
  shows "unat (oc_pos (w_cur t i)) = length (w_hist s) + 1
    \<and> length (w_got t i) + unat (oc_missed (w_cur t i)) + w_start t i = length (w_hist s) + 1"
proof -
  note I = ow_sys_invD [OF inv]
  have c: "w_cons s i \<noteq> OC_none" using assms(5) by simp
  let ?pos = "oc_pos (w_cur s i)" and ?log = "w_log s" and ?L = "unat (w_capacity s)"
  obtain n s1 where r: "w_reads s (w_view s i) (L_seq (w_ix s ?pos)) n (V_word s1)"
    and no: "s1 AND 1 \<noteq> 0 \<or> unat s1 div 2 < unat ?pos"
    and same: "w_cur t = w_cur s" "w_got t = w_got s" "w_start t = w_start s"
    using assms(6) by cases (use assms(5,7) in \<open>auto simp: word_less_nat_alt drop_bit_eq_div unat_div\<close>)
  have m: "w_marked s = length (w_hist s)" using assms(2) by (simp add: w_marked_def)
  note K = I(9) [OF c, unfolded ocon_cur_ok_def m]
  have last: "k < n" if "k < length ?log" "st_loc (?log ! k) = L_seq (w_ix s ?pos)" for k
    using can_read_after [of ?log "w_view s i" "L_seq (w_ix s ?pos)" n k] r that assms(4) by (simp add: w_reads_def)
  have stable: "\<exists>k < length ?log. st_is ?log k (L_seq (p mod ?L)) p \<and> st_stable ?log k"
    if "1 \<le> p" "p \<le> length (w_hist s)" for p
  proof -
    have "w_hist s ! (p - 1) \<in> set (w_hist s)" using that by (intro nth_mem) linarith
    then have "w_hist s ! (p - 1) \<noteq> None" using assms(3) by metis
    then show ?thesis by (rule hist_okD(1) [OF I(13) that])
  qed
  have "unat ?pos = Suc (length (w_hist s))"
  proof (rule ccontr)
    assume "\<not> ?thesis"
    then have p: "1 \<le> unat ?pos" "unat ?pos \<le> length (w_hist s)" using K by linarith+
    from stable [OF this] obtain k where k: "k < length ?log" "st_is ?log k (L_seq (unat ?pos mod ?L)) (unat ?pos)" by blast
    then have "k < n" using last I(10) [of ?pos] by (simp add: st_is_def)
    with ow_seq_read [OF inv r] obtain j where j: "n = Suc j" "j < length ?log" "st_loc (?log ! j) = L_seq (unat ?pos mod ?L)"
      "1 \<le> st_tag (?log ! j)" "st_tag (?log ! j) \<le> length (w_hist s)" "st_val (?log ! j) = V_word s1"
      unfolding m by (metis not_less_zero)
    define q where "q = st_tag (?log ! j)"
    have ge: "unat ?pos \<le> q"
      using log_okD(2) [OF I(6), of k j] k j(1,2) \<open>k < n\<close> by (cases "k = j") (auto simp: st_is_def q_def)
    have "q mod ?L = unat ?pos mod ?L"
      using log_okD(1) [OF I(6) j(2)] j(3) by (simp add: store_ok_def Let_def q_def)
    then obtain k' where k': "k' < length ?log" "st_is ?log k' (L_seq (unat ?pos mod ?L)) q" "st_stable ?log k'"
      using stable [of q] j(4,5) q_def by auto
    then have "k' \<le> j" using last [of k'] I(10) [of ?pos] j(1) by (simp add: st_is_def)
    moreover have "\<not> k' < j" using log_okD(3) [OF I(6), of k' j] k'(2,3) j(2,3) by (auto simp: st_is_def q_def)
    ultimately have "k' = j" by simp
    with k' j(6) have s1: "unat s1 = 2 * q" by (auto simp: st_is_def st_stable_def)
    then have "s1 AND 1 = 0" by (simp add: even_word_and)
    with no s1 ge show False by simp
  qed
  then show ?thesis
    using I(9) [OF c] unfolding same by (auto simp: ocon_cur_ok_def)
qed

text \<open>
  C16. Once a consumer has synchronised with a producer that has stopped, an Empty is final: if
  every element was published, everything the producer did happened before and a call of
  \<open>try_read\<close> that starts then ends in Empty, the consumer has reached the end of the stream,
  and what it received plus what it missed is everything since its creation. This is what the
  consumers of \<open>run_overwrite_benchmark\<close> rely on when they drain the ring.
\<close>

theorem ow_empty_is_final:
  assumes "reach ow_init ow_step s" and "length (w_hist s) < 2 ^ 63 - 1" and "w_prod s = OP_idle"
    and "None \<notin> set (w_hist s)" and "vw_hb (w_view s i) = length (w_log s)"
    and "w_cons s i = OC_load" and "ow_cons_step i s t" and "w_cons t i = OC_idle"
  shows "unat (oc_pos (w_cur t i)) = length (w_hist s) + 1
    \<and> length (w_got t i) + unat (oc_missed (w_cur t i)) + w_start t i = length (w_hist s) + 1"
  using ow_end_of_stream [OF ow_sys.reach_inv [OF assms(1,2)] assms(3-8)] .

text \<open>The reader of the run above, while it catches up with an idle producer.\<close>

definition w_at :: "nat oprod \<Rightarrow> nat olog \<Rightarrow> ocons \<Rightarrow> oloc tview \<Rightarrow> nat ocon \<Rightarrow> (nat \<times> nat list) list \<Rightarrow> nat ow_sys" where
  "w_at pr lg c vw pc g = w_lap\<lparr>w_log := lg, w_prod := pr, w_cur := (w_cur w_lap)(0 := c),
     w_view := (w_view w_lap)(0 := vw), w_got := (w_got w_lap)(0 := g), w_cons := (w_cons w_lap)(0 := pc)\<rparr>"

lemma w_at_fields [simp]:
  "w_log (w_at pr lg c vw pc g) = lg" "w_prod (w_at pr lg c vw pc g) = pr" "w_cur (w_at pr lg c vw pc g) 0 = c"
  "w_view (w_at pr lg c vw pc g) 0 = vw" "w_got (w_at pr lg c vw pc g) 0 = g" "w_cons (w_at pr lg c vw pc g) 0 = pc"
  "w_capacity (w_at pr lg c vw pc g) = 2" "w_mask (w_at pr lg c vw pc g) = 1" "w_size (w_at pr lg c vw pc g) = 1"
  "w_hist (w_at pr lg c vw pc g) = [Some [1], Some [2], Some [3]]" "w_start (w_at pr lg c vw pc g) 0 = 1"
  by (simp_all add: w_at_def w_lap_def)

lemma w_at_updates:
  "(w_at pr lg c vw pc g)\<lparr>w_cons := (w_cons (w_at pr' lg' c' vw' pc' g'))(0 := PC)\<rparr> = w_at pr lg c vw PC g"
  "(w_at pr lg c vw pc g)\<lparr>w_view := (w_view (w_at pr' lg' c' vw' pc' g'))(0 := VW)\<rparr> = w_at pr lg c VW pc g"
  "(w_at pr lg c vw pc g)\<lparr>w_cur := (w_cur (w_at pr' lg' c' vw' pc' g'))(0 := C)\<rparr> = w_at pr lg C vw pc g"
  "(w_at pr lg c vw pc g)\<lparr>w_got := (w_got (w_at pr' lg' c' vw' pc' g'))(0 := G)\<rparr> = w_at pr lg c vw pc G"
  by (simp_all add: w_at_def)

definition w_end_log :: "nat olog" where
  "w_end_log = w_lap_log @ [\<lparr>st_loc = L_published, st_val = V_word 3, st_fence = 10, st_tag = 3\<rparr>]"

definition w_end :: "nat ow_sys" where
  "w_end = w_at OP_idle w_end_log \<lparr>oc_pos = 4, oc_missed = 2\<rparr> \<lparr>vw_hb = 12, vw_acq = 10,
     vw_seen = (\<lambda>_. 0)(L_seq 1 := 11, L_published := 8, L_byte 1 0 := 10)\<rparr> OC_load [(3, [3])]"

lemma w_end_reach: "reach ow_init ow_step w_end"
proof -
  let ?c1 = "\<lparr>oc_pos = 1, oc_missed = 0\<rparr>" and ?c3 = "\<lparr>oc_pos = 3, oc_missed = 2\<rparr>"
    and ?c4 = "\<lparr>oc_pos = 4, oc_missed = 2\<rparr>" and ?seen = "(\<lambda>_. 0)(L_seq 1 := 11, L_published := 8)"
  let ?v0 = "\<lparr>vw_hb = 10, vw_acq = 0, vw_seen = (\<lambda>_. 0)(L_seq 1 := 11)\<rparr>"
    and ?v1 = "\<lparr>vw_hb = 10, vw_acq = 0, vw_seen = ?seen\<rparr>"
    and ?v2 = "\<lparr>vw_hb = 10, vw_acq = 9, vw_seen = ?seen(L_byte 1 0 := 10)\<rparr>"
    and ?v3 = "\<lparr>vw_hb = 10, vw_acq = 10, vw_seen = ?seen(L_byte 1 0 := 10)\<rparr>"
    and ?v4 = "\<lparr>vw_hb = 12, vw_acq = 10, vw_seen = ?seen(L_byte 1 0 := 10)\<rparr>"
  note load = w_load_simps w_end_log_def w_lap_log_def
  have s0: "w_lap = w_at (OP_publish 3) w_lap_log ?c1 ?v0 (OC_lapped 3) []"
    by (simp add: w_at_def w_lap_def fun_eq_iff)
  have s1: "(w_store L_published (V_word 3) w_lap)\<lparr>w_prod := OP_idle\<rparr> = w_at OP_idle w_end_log ?c1 ?v0 (OC_lapped 3) []"
    by (simp add: w_store_def w_end_log_def w_at_def w_lap_def fun_eq_iff)
  have "ow_prod_step w_lap (w_at OP_idle w_end_log ?c1 ?v0 (OC_lapped 3) [])"
    unfolding s1 [symmetric] by (rule op_publish) (simp add: w_lap_def)
  then have r1: "reach ow_init ow_step (w_at OP_idle w_end_log ?c1 ?v0 (OC_lapped 3) [])"
    by (rule ow_reach(1) [OF w_lap_reach])
  have "ow_cons_step 0 (w_at OP_idle w_end_log ?c1 ?v0 (OC_lapped 3) []) (w_at OP_idle w_end_log ?c3 ?v1 OC_idle [])"
    using ow_lap [of "w_at OP_idle w_end_log ?c1 ?v0 (OC_lapped 3) []" 0 3 8 2]
    by (simp add: w_at_updates load ow_lapped_to_def ow_target_def)
  with r1 have r2: "reach ow_init ow_step (w_at OP_idle w_end_log ?c3 ?v1 OC_idle [])" by (rule ow_reach(2))
  have "ow_cons_step 0 (w_at OP_idle w_end_log ?c3 ?v1 OC_idle []) (w_at OP_idle w_end_log ?c3 ?v1 OC_load [])"
    using ow_call [of "w_at OP_idle w_end_log ?c3 ?v1 OC_idle []" 0] by (simp add: w_at_updates)
  with r2 have r3: "reach ow_init ow_step (w_at OP_idle w_end_log ?c3 ?v1 OC_load [])" by (rule ow_reach(2))
  have "ow_cons_step 0 (w_at OP_idle w_end_log ?c3 ?v1 OC_load []) (w_at OP_idle w_end_log ?c3 ?v1 (OC_copy 6 {} [0]) [])"
    using ow_match [of "w_at OP_idle w_end_log ?c3 ?v1 OC_load []" 0 "L_seq 1" 11 6 "[0]"]
    by (simp add: w_at_updates load fun_upd_twist)
  with r3 have r4: "reach ow_init ow_step (w_at OP_idle w_end_log ?c3 ?v1 (OC_copy 6 {} [0]) [])" by (rule ow_reach(2))
  have "ow_cons_step 0 (w_at OP_idle w_end_log ?c3 ?v1 (OC_copy 6 {} [0]) [])
      (w_at OP_idle w_end_log ?c3 ?v2 (OC_copy 6 {0} [3]) [])"
    using ow_read [of "w_at OP_idle w_end_log ?c3 ?v1 (OC_copy 6 {} [0]) []" 0 6 "{}" "[0]" 0 "L_byte 1 0" 10 3]
    by (simp add: w_at_updates load)
  with r4 have r5: "reach ow_init ow_step (w_at OP_idle w_end_log ?c3 ?v2 (OC_copy 6 {0} [3]) [])" by (rule ow_reach(2))
  have "ow_cons_step 0 (w_at OP_idle w_end_log ?c3 ?v2 (OC_copy 6 {0} [3]) []) (w_at OP_idle w_end_log ?c4 ?v3 OC_idle [(3, [3])])"
    using ow_ok [of "w_at OP_idle w_end_log ?c3 ?v2 (OC_copy 6 {0} [3]) []" 0 6 "{0}" "[3]" _ "L_seq 1" 11]
    by (simp add: w_at_updates load fun_upd_twist lessThan_Suc)
  with r5 have r6: "reach ow_init ow_step (w_at OP_idle w_end_log ?c4 ?v3 OC_idle [(3, [3])])" by (rule ow_reach(2))
  have "ow_sync 0 (w_at OP_idle w_end_log ?c4 ?v3 OC_idle [(3, [3])]) (w_at OP_idle w_end_log ?c4 ?v4 OC_idle [(3, [3])])"
    unfolding ow_sync_def by (intro exI [of _ 12]) (simp add: w_at_updates synced_def w_end_log_def w_lap_log_def)
  with r6 have r7: "reach ow_init ow_step (w_at OP_idle w_end_log ?c4 ?v4 OC_idle [(3, [3])])" by (rule ow_reach(3))
  have "ow_cons_step 0 (w_at OP_idle w_end_log ?c4 ?v4 OC_idle [(3, [3])]) w_end"
    using ow_call [of "w_at OP_idle w_end_log ?c4 ?v4 OC_idle [(3, [3])]" 0] by (simp add: w_at_updates w_end_def)
  with r7 show ?thesis by (rule ow_reach(2))
qed

theorem ow_empty_is_final_witness:
  "\<exists>t. ow_cons_step 0 w_end t \<and> length (w_got t 0) + unat (oc_missed (w_cur t 0)) + w_start t 0 = 4"
proof -
  let ?t = "w_end\<lparr>w_view := (w_view w_end)(0 := saw_acquire (w_log w_end) (L_seq 0) 7 (w_view w_end 0)),
    w_cons := (w_cons w_end)(0 := OC_idle)\<rparr>"
  note defs = w_end_def w_end_log_def w_lap_log_def w_load_simps
  have r: "w_reads w_end (w_view w_end 0) (L_seq 0) 7 (V_word 4)" by (simp add: defs)
  have t: "ow_cons_step 0 w_end ?t" by (rule ow_empty [OF _ _ r]) (simp_all add: w_end_def)
  have "length (w_got ?t 0) + unat (oc_missed (w_cur ?t 0)) + w_start ?t 0 = 4"
    using ow_empty_is_final [OF w_end_reach _ _ _ _ _ t] by (simp add: defs)
  with t show ?thesis by blast
qed

end
