(* ===== verification/ThreadPool.thy ===== *)
theory ThreadPool
  imports Prelude "HOL-Library.Multiset"
begin

text \<open>
  \<open>ThreadPool\<close> of \<open>include/ThreadPool.h\<close>: the workers, any number of threads calling
  \<open>enqueue\<close>, and the thread that constructs and destroys the pool, one step per mutex
  operation, evaluation of the predicate, notification, stop request, join or task.

  A task is a value whose callable is the parameter \<open>run\<close>: the exception it throws or the
  value it returns. \<open>std::condition_variable\<close> may wake a waiter for no reason; those steps
  are a relation of their own (\<open>tp_spurious\<close>), because a program may not count on them.
  A running task may call \<open>enqueue\<close> itself, any number of times and during the destructor too;
  other threads stop calling it before the destructor starts. A task does not block waiting for
  another one. \<open>tp_pushed\<close>, \<open>tp_started\<close> and \<open>tp_executed\<close> are history.
\<close>

section \<open>State\<close>

datatype 't worker =
  W_lock                 \<comment> \<open>acquiring \<open>queue_mutex\<close>, on entry or after being woken\<close>
| W_pred                 \<comment> \<open>the predicate of \<open>condition.wait\<close> is evaluated next\<close>
| W_block                \<comment> \<open>the predicate was false: unlock and block\<close>
| W_wait                 \<comment> \<open>blocked\<close>
| W_check                \<comment> \<open>\<open>wait\<close> has returned\<close>
| W_run nat 't           \<comment> \<open>executing the task of that future\<close>
| W_done

datatype 't client =
  C_idle
| C_lock nat 't
| C_push nat 't
| C_notify

datatype owner =
  O_ctor | O_alive
| O_stop nat             \<comment> \<open>\<open>request_stop\<close> of that worker is next\<close>
| O_notify
| O_destroy nat          \<comment> \<open>the destructor of \<open>workers[k]\<close> is next\<close>
| O_join nat
| O_gone

text \<open>Who is in a call of \<open>enqueue\<close>: a thread of the program, or the task that worker runs.\<close>

datatype caller = Thread nat | Task nat

datatype holder = Worker nat | Client caller

record ('t, 'e, 'r) pool =
  tp_threads :: nat
  tp_tasks :: "(nat \<times> 't) list"
  tp_mutex :: "holder option"
  tp_workers :: "'t worker list"
  tp_stop :: "nat \<Rightarrow> bool"
  tp_clients :: "caller \<Rightarrow> 't client"
  tp_owner :: owner
  tp_thrown :: bool
  tp_next :: nat
  tp_futures :: "nat \<Rightarrow> ('e + 'r) option"
  tp_cerr :: "'e list"
  tp_pushed :: "(nat \<times> 't) list"
  tp_started :: "(nat \<times> 't) list"
  tp_executed :: "(nat \<times> 't) list"

section \<open>Operations\<close>

text \<open>The constructor before its loop; a pool always has a worker.\<close>

definition tp_ctor :: "size_t \<Rightarrow> ('t, 'e, 'r) pool" where
  "tp_ctor threads = \<lparr>tp_threads = (if threads = 0 then 1 else unat threads), tp_tasks = [], tp_mutex = None,
     tp_workers = [], tp_stop = (\<lambda>_. False), tp_clients = (\<lambda>_. C_idle), tp_owner = O_ctor, tp_thrown = False,
     tp_next = 0, tp_futures = (\<lambda>_. None), tp_cerr = [], tp_pushed = [], tp_started = [], tp_executed = []\<rparr>"

text \<open>
  \<open>std::packaged_task\<close> stores what the callable returned or threw in the shared state of the
  future and lets nothing escape: the outcome stored, and the exception that leaves the call.
\<close>

definition packaged_call :: "'e + 'r \<Rightarrow> ('e + 'r) \<times> 'e option" where
  "packaged_call outcome = (outcome, None)"

fun wake :: "'t worker \<Rightarrow> 't worker" where
  "wake W_wait = W_lock"
| "wake w = w"

text \<open>The body of worker \<open>i\<close>.\<close>

inductive wk_step :: "('t \<Rightarrow> 'e + 'r) \<Rightarrow> nat \<Rightarrow> ('t, 'e, 'r) pool \<Rightarrow> ('t, 'e, 'r) pool \<Rightarrow> bool" for run i where
  wk_lock: "i < length (tp_workers s) \<Longrightarrow> tp_workers s ! i = W_lock \<Longrightarrow> tp_mutex s = None \<Longrightarrow>
    wk_step run i s (s\<lparr>tp_mutex := Some (Worker i), tp_workers := (tp_workers s)[i := W_pred]\<rparr>)"
| wk_true: "i < length (tp_workers s) \<Longrightarrow> tp_workers s ! i = W_pred \<Longrightarrow> tp_stop s i \<or> tp_tasks s \<noteq> [] \<Longrightarrow>
    wk_step run i s (s\<lparr>tp_workers := (tp_workers s)[i := W_check]\<rparr>)"
| wk_false: "i < length (tp_workers s) \<Longrightarrow> tp_workers s ! i = W_pred \<Longrightarrow> \<not> tp_stop s i \<Longrightarrow> tp_tasks s = [] \<Longrightarrow>
    wk_step run i s (s\<lparr>tp_workers := (tp_workers s)[i := W_block]\<rparr>)"
| wk_block: "i < length (tp_workers s) \<Longrightarrow> tp_workers s ! i = W_block \<Longrightarrow>
    wk_step run i s (s\<lparr>tp_mutex := None, tp_workers := (tp_workers s)[i := W_wait]\<rparr>)"
| wk_exit: "i < length (tp_workers s) \<Longrightarrow> tp_workers s ! i = W_check \<Longrightarrow> tp_stop s i \<Longrightarrow> tp_tasks s = [] \<Longrightarrow>
    wk_step run i s (s\<lparr>tp_mutex := None, tp_workers := (tp_workers s)[i := W_done]\<rparr>)"
| wk_take: "i < length (tp_workers s) \<Longrightarrow> tp_workers s ! i = W_check \<Longrightarrow> tp_tasks s = (f, t) # rest \<Longrightarrow>
    wk_step run i s (s\<lparr>tp_tasks := rest, tp_mutex := None, tp_workers := (tp_workers s)[i := W_run f t],
      tp_started := tp_started s @ [(f, t)]\<rparr>)"
| wk_run: "i < length (tp_workers s) \<Longrightarrow> tp_workers s ! i = W_run f t \<Longrightarrow> tp_clients s (Task i) = C_idle \<Longrightarrow>
    packaged_call (run t) = (outcome, escaped) \<Longrightarrow>
    wk_step run i s (s\<lparr>tp_workers := (tp_workers s)[i := W_lock], tp_futures := (tp_futures s)(f \<mapsto> outcome),
      tp_cerr := tp_cerr s @ (case escaped of None \<Rightarrow> [] | Some e \<Rightarrow> [e]),
      tp_executed := tp_executed s @ [(f, t)]\<rparr>)"

text \<open>
  Caller \<open>c\<close> in \<open>enqueue\<close>; \<open>notify_one\<close> wakes any one waiter. A task is inside a call of its own
  while its worker stays at \<open>W_run\<close>.
\<close>

inductive en_step :: "caller \<Rightarrow> ('t, 'e, 'r) pool \<Rightarrow> ('t, 'e, 'r) pool \<Rightarrow> bool" for c where
  en_call: "c = Thread k \<Longrightarrow> tp_owner s = O_alive \<Longrightarrow> tp_clients s c = C_idle \<Longrightarrow>
    en_step c s (s\<lparr>tp_next := Suc (tp_next s), tp_clients := (tp_clients s)(c := C_lock (tp_next s) t)\<rparr>)"
| en_nested: "c = Task i \<Longrightarrow> i < length (tp_workers s) \<Longrightarrow> tp_workers s ! i = W_run f u \<Longrightarrow> tp_clients s c = C_idle \<Longrightarrow>
    en_step c s (s\<lparr>tp_next := Suc (tp_next s), tp_clients := (tp_clients s)(c := C_lock (tp_next s) t)\<rparr>)"
| en_lock: "tp_clients s c = C_lock f t \<Longrightarrow> tp_mutex s = None \<Longrightarrow>
    en_step c s (s\<lparr>tp_mutex := Some (Client c), tp_clients := (tp_clients s)(c := C_push f t)\<rparr>)"
| en_push: "tp_clients s c = C_push f t \<Longrightarrow>
    en_step c s (s\<lparr>tp_tasks := tp_tasks s @ [(f, t)], tp_mutex := None,
      tp_clients := (tp_clients s)(c := C_notify), tp_pushed := tp_pushed s @ [(f, t)]\<rparr>)"
| en_notify: "tp_clients s c = C_notify \<Longrightarrow> j < length (tp_workers s) \<Longrightarrow> tp_workers s ! j = W_wait \<Longrightarrow>
    en_step c s (s\<lparr>tp_workers := (tp_workers s)[j := W_lock], tp_clients := (tp_clients s)(c := C_idle)\<rparr>)"
| en_nobody: "tp_clients s c = C_notify \<Longrightarrow> W_wait \<notin> set (tp_workers s) \<Longrightarrow>
    en_step c s (s\<lparr>tp_clients := (tp_clients s)(c := C_idle)\<rparr>)"

text \<open>
  The thread that owns the pool: the loop of the constructor, in which starting a thread can
  throw; the destructor; and the destruction of \<open>workers\<close>, whose \<open>std::jthread\<close>s request a
  stop and join. When the constructor throws, only \<open>workers\<close> is destroyed.
\<close>

inductive own_step :: "('t, 'e, 'r) pool \<Rightarrow> ('t, 'e, 'r) pool \<Rightarrow> bool" where
  own_spawn: "tp_owner s = O_ctor \<Longrightarrow> length (tp_workers s) < tp_threads s \<Longrightarrow>
    own_step s (s\<lparr>tp_workers := tp_workers s @ [W_lock]\<rparr>)"
| own_spawn_throws: "tp_owner s = O_ctor \<Longrightarrow> length (tp_workers s) < tp_threads s \<Longrightarrow>
    own_step s (s\<lparr>tp_thrown := True, tp_owner := O_destroy 0\<rparr>)"
| own_ready: "tp_owner s = O_ctor \<Longrightarrow> length (tp_workers s) = tp_threads s \<Longrightarrow>
    own_step s (s\<lparr>tp_owner := O_alive\<rparr>)"
| own_dtor: "tp_owner s = O_alive \<Longrightarrow> (\<forall>k. tp_clients s (Thread k) = C_idle) \<Longrightarrow>
    own_step s (s\<lparr>tp_owner := O_stop 0\<rparr>)"
| own_stop: "tp_owner s = O_stop k \<Longrightarrow> k < length (tp_workers s) \<Longrightarrow>
    own_step s (s\<lparr>tp_stop := (tp_stop s)(k := True), tp_owner := O_stop (Suc k)\<rparr>)"
| own_stopped: "tp_owner s = O_stop k \<Longrightarrow> \<not> k < length (tp_workers s) \<Longrightarrow>
    own_step s (s\<lparr>tp_owner := O_notify\<rparr>)"
| own_notify_all: "tp_owner s = O_notify \<Longrightarrow>
    own_step s (s\<lparr>tp_workers := map wake (tp_workers s), tp_owner := O_destroy 0\<rparr>)"
| own_destroy: "tp_owner s = O_destroy k \<Longrightarrow> k < length (tp_workers s) \<Longrightarrow>
    own_step s (s\<lparr>tp_stop := (tp_stop s)(k := True), tp_owner := O_join k\<rparr>)"
| own_join: "tp_owner s = O_join k \<Longrightarrow> k < length (tp_workers s) \<Longrightarrow> tp_workers s ! k = W_done \<Longrightarrow>
    own_step s (s\<lparr>tp_owner := O_destroy (Suc k)\<rparr>)"
| own_destroyed: "tp_owner s = O_destroy k \<Longrightarrow> \<not> k < length (tp_workers s) \<Longrightarrow>
    own_step s (s\<lparr>tp_owner := O_gone\<rparr>)"

inductive tp_spurious :: "('t, 'e, 'r) pool \<Rightarrow> ('t, 'e, 'r) pool \<Rightarrow> bool" where
  wake_up: "i < length (tp_workers s) \<Longrightarrow> tp_workers s ! i = W_wait \<Longrightarrow>
    tp_spurious s (s\<lparr>tp_workers := (tp_workers s)[i := W_lock]\<rparr>)"

text \<open>Steps the program takes by itself, and all steps.\<close>

definition tp_step :: "('t \<Rightarrow> 'e + 'r) \<Rightarrow> ('t, 'e, 'r) pool \<Rightarrow> ('t, 'e, 'r) pool \<Rightarrow> bool" where
  "tp_step run s t \<longleftrightarrow> (\<exists>i. wk_step run i s t) \<or> (\<exists>c. en_step c s t) \<or> own_step s t"

definition tp_any_step :: "('t \<Rightarrow> 'e + 'r) \<Rightarrow> ('t, 'e, 'r) pool \<Rightarrow> ('t, 'e, 'r) pool \<Rightarrow> bool" where
  "tp_any_step run s t \<longleftrightarrow> tp_step run s t \<or> tp_spurious s t"

definition tp_init :: "('t, 'e, 'r) pool \<Rightarrow> bool" where
  "tp_init s \<longleftrightarrow> (\<exists>threads. s = tp_ctor threads)"
section \<open>Invariant\<close>

fun w_holds :: "'t worker \<Rightarrow> bool" where
  "w_holds W_pred = True"
| "w_holds W_block = True"
| "w_holds W_check = True"
| "w_holds _ = False"

fun w_awake :: "'t worker \<Rightarrow> bool" where
  "w_awake W_wait = False"
| "w_awake W_block = False"
| "w_awake W_done = False"
| "w_awake _ = True"

fun w_running :: "'t worker \<Rightarrow> (nat \<times> 't) list" where
  "w_running (W_run f t) = [(f, t)]"
| "w_running _ = []"

fun c_holds :: "'t client \<Rightarrow> bool" where
  "c_holds (C_push f t) = True"
| "c_holds _ = False"

fun c_ids :: "'t client \<Rightarrow> nat set" where
  "c_ids (C_push f t) = {f}"
| "c_ids (C_lock f t) = {f}"
| "c_ids _ = {}"

text \<open>Who holds the mutex.\<close>

definition tp_locks :: "('t, 'e, 'r) pool \<Rightarrow> bool" where
  "tp_locks s \<longleftrightarrow> (\<forall>i. (i < length (tp_workers s) \<and> w_holds (tp_workers s ! i)) = (tp_mutex s = Some (Worker i)))
     \<and> (\<forall>c. c_holds (tp_clients s c) = (tp_mutex s = Some (Client c)))"

text \<open>What a worker knows about the queue.\<close>

definition tp_knows :: "('t, 'e, 'r) pool \<Rightarrow> bool" where
  "tp_knows s \<longleftrightarrow> (\<forall>i < length (tp_workers s).
     (tp_workers s ! i = W_check \<longrightarrow> tp_stop s i \<or> tp_tasks s \<noteq> [])
     \<and> (tp_workers s ! i = W_block \<longrightarrow> tp_tasks s = [])
     \<and> (tp_workers s ! i = W_done \<longrightarrow> tp_stop s i))"

text \<open>What was pushed is queued, running or executed, and has its future.\<close>

definition tp_books :: "('t \<Rightarrow> 'e + 'r) \<Rightarrow> ('t, 'e, 'r) pool \<Rightarrow> bool" where
  "tp_books run s \<longleftrightarrow> tp_pushed s = tp_started s @ tp_tasks s
     \<and> mset (tp_started s) = mset (tp_executed s) + mset (concat (map w_running (tp_workers s)))
     \<and> (\<forall>f r. (tp_futures s f = Some r) = (\<exists>t. (f, t) \<in> set (tp_executed s) \<and> r = run t))
     \<and> tp_cerr s = []"

definition tp_ids :: "('t, 'e, 'r) pool \<Rightarrow> bool" where
  "tp_ids s \<longleftrightarrow> distinct (map fst (tp_pushed s)) \<and> (\<forall>p \<in> set (tp_pushed s). fst p < tp_next s)
     \<and> (\<forall>c. \<forall>f \<in> c_ids (tp_clients s c). f < tp_next s \<and> f \<notin> fst ` set (tp_pushed s))
     \<and> (\<forall>c d. c \<noteq> d \<longrightarrow> c_ids (tp_clients s c) \<inter> c_ids (tp_clients s d) = {})"

text \<open>A queued task has somebody who will look at it.\<close>

definition tp_attended :: "('t, 'e, 'r) pool \<Rightarrow> bool" where
  "tp_attended s \<longleftrightarrow> tp_tasks s = [] \<or> (\<exists>c. tp_clients s c = C_notify)
     \<or> (\<exists>i < length (tp_workers s). w_awake (tp_workers s ! i))"

text \<open>The life of the pool.\<close>

fun owner_ok :: "owner \<Rightarrow> bool \<Rightarrow> nat \<Rightarrow> 't worker list \<Rightarrow> (nat \<Rightarrow> bool) \<Rightarrow> bool" where
  "owner_ok O_ctor thrown n ws stop = (\<not> thrown \<and> length ws \<le> n \<and> (\<forall>j. \<not> stop j))"
| "owner_ok O_alive thrown n ws stop = (\<not> thrown \<and> length ws = n \<and> (\<forall>j. \<not> stop j))"
| "owner_ok (O_stop k) thrown n ws stop = (\<not> thrown \<and> length ws = n \<and> k \<le> length ws \<and> (\<forall>j < k. stop j))"
| "owner_ok O_notify thrown n ws stop = (\<not> thrown \<and> length ws = n \<and> (\<forall>j < length ws. stop j))"
| "owner_ok (O_destroy k) thrown n ws stop = (k \<le> length ws \<and> (\<forall>j < k. ws ! j = W_done)
     \<and> (\<not> thrown \<longrightarrow> length ws = n \<and> (\<forall>j < length ws. stop j)))"
| "owner_ok (O_join k) thrown n ws stop = (k < length ws \<and> stop k \<and> (\<forall>j < k. ws ! j = W_done)
     \<and> (\<not> thrown \<longrightarrow> length ws = n \<and> (\<forall>j < length ws. stop j)))"
| "owner_ok O_gone thrown n ws stop = ((\<forall>j < length ws. ws ! j = W_done) \<and> (\<not> thrown \<longrightarrow> length ws = n))"

definition tp_life :: "('t, 'e, 'r) pool \<Rightarrow> bool" where
  "tp_life s \<longleftrightarrow> 0 < tp_threads s \<and> owner_ok (tp_owner s) (tp_thrown s) (tp_threads s) (tp_workers s) (tp_stop s)
     \<and> (tp_owner s \<noteq> O_alive \<longrightarrow> (\<forall>k. tp_clients s (Thread k) = C_idle))
     \<and> (\<forall>i. tp_clients s (Task i) \<noteq> C_idle \<longrightarrow> i < length (tp_workers s) \<and> w_running (tp_workers s ! i) \<noteq> [])
     \<and> (tp_owner s = O_ctor \<or> tp_thrown s \<longrightarrow> tp_pushed s = [])"

definition tp_inv :: "('t \<Rightarrow> 'e + 'r) \<Rightarrow> ('t, 'e, 'r) pool \<Rightarrow> bool" where
  "tp_inv run s \<longleftrightarrow> tp_locks s \<and> tp_knows s \<and> tp_books run s \<and> tp_ids s \<and> tp_attended s \<and> tp_life s"

lemma tp_inv_init: "tp_init s \<Longrightarrow> tp_inv run s"
  by (auto simp: tp_init_def tp_ctor_def tp_inv_def tp_locks_def tp_knows_def tp_books_def tp_ids_def
      tp_attended_def tp_life_def unat_gt_0)

text \<open>The mutex.\<close>

lemma locksI:
  assumes "\<And>i. (i < length (tp_workers s) \<and> w_holds (tp_workers s ! i)) = (tp_mutex s = Some (Worker i))"
    and "\<And>c. c_holds (tp_clients s c) = (tp_mutex s = Some (Client c))"
  shows "tp_locks s"
  using assms by (simp add: tp_locks_def)

lemma locksD:
  assumes "tp_locks s"
  shows "(i < length (tp_workers s) \<and> w_holds (tp_workers s ! i)) = (tp_mutex s = Some (Worker i))"
    and "c_holds (tp_clients s c) = (tp_mutex s = Some (Client c))"
  using assms by (simp_all add: tp_locks_def)

lemma locks_worker:
  assumes L: "tp_locks s" and i: "i < length (tp_workers s)"
    and t: "tp_workers t = (tp_workers s)[i := tp_workers t ! i]" "tp_clients t = tp_clients s"
    and w: "w_holds (tp_workers t ! i) \<longleftrightarrow> tp_mutex t = Some (Worker i)"
    and m: "tp_mutex t = tp_mutex s \<or> (w_holds (tp_workers s ! i) \<and> tp_mutex t = None)
      \<or> (tp_mutex s = None \<and> tp_mutex t = Some (Worker i))"
  shows "tp_locks t"
proof (rule locksI)
  have h: "w_holds (tp_workers s ! i) = (tp_mutex s = Some (Worker i))" using locksD(1) [OF L, of i] i by simp
  show "(j < length (tp_workers t) \<and> w_holds (tp_workers t ! j)) = (tp_mutex t = Some (Worker j))" for j
    using locksD(1) [OF L, of j] w m h i arg_cong [OF t(1), of length] arg_cong [OF t(1), of "\<lambda>xs. xs ! j"]
    by (cases "j = i") auto
  show "c_holds (tp_clients t c) = (tp_mutex t = Some (Client c))" for c
    using locksD(2) [OF L, of c] t(2) w m h by auto
qed

lemma locks_client:
  assumes L: "tp_locks s" and t: "tp_clients t = (tp_clients s)(c := k)"
    and ws: "length (tp_workers t) = length (tp_workers s)"
      "\<And>j. j < length (tp_workers s) \<Longrightarrow> w_holds (tp_workers t ! j) = w_holds (tp_workers s ! j)"
    and k: "c_holds (tp_clients t c) \<longleftrightarrow> tp_mutex t = Some (Client c)"
    and m: "tp_mutex t = tp_mutex s \<or> (c_holds (tp_clients s c) \<and> tp_mutex t = None)
      \<or> (tp_mutex s = None \<and> tp_mutex t = Some (Client c))"
  shows "tp_locks t"
proof (rule locksI)
  have h: "c_holds (tp_clients s c) = (tp_mutex s = Some (Client c))" using locksD(2) [OF L, of c] by simp
  show "(j < length (tp_workers t) \<and> w_holds (tp_workers t ! j)) = (tp_mutex t = Some (Worker j))" for j
    using locksD(1) [OF L, of j] ws k m h by auto
  show "c_holds (tp_clients t d) = (tp_mutex t = Some (Client d))" for d
    using locksD(2) [OF L, of d] fun_cong [OF t, of d] k m h by (cases "d = c") auto
qed

lemma wk_locks: "wk_step run i s t \<Longrightarrow> tp_locks s \<Longrightarrow> tp_locks t"
proof -
  assume step: "wk_step run i s t" and L: "tp_locks s"
  have i: "i < length (tp_workers s)" using step by (cases rule: wk_step.cases) auto
  have h: "w_holds (tp_workers s ! i) = (tp_mutex s = Some (Worker i))" using locksD(1) [OF L, of i] i by simp
  show ?thesis
    using step h by (cases rule: wk_step.cases) (rule locks_worker [OF L i]; simp)+
qed

lemma en_locks: "en_step c s t \<Longrightarrow> tp_locks s \<Longrightarrow> tp_locks t"
proof -
  assume step: "en_step c s t" and L: "tp_locks s"
  have h: "c_holds (tp_clients s c) = (tp_mutex s = Some (Client c))" using locksD(2) [OF L, of c] by simp
  show ?thesis
    using step h by (cases rule: en_step.cases) (rule locks_client [OF L]; simp; auto simp: nth_list_update)+
qed

lemma holds_wake [simp]: "w_holds (wake w) = w_holds w" "w_running (wake w) = w_running w" "wake w = W_check \<longleftrightarrow> w = W_check"
  "wake w = W_block \<longleftrightarrow> w = W_block" "wake w = W_done \<longleftrightarrow> w = W_done" "w_awake w \<Longrightarrow> w_awake (wake w)"
  by (cases w; simp)+

lemma own_locks: "own_step s t \<Longrightarrow> tp_locks s \<Longrightarrow> tp_locks t"
proof (induction rule: own_step.induct)
  case (own_spawn s)
  have "tp_mutex s \<noteq> Some (Worker i)" if "\<not> i < length (tp_workers s)" for i
    using locksD(1) [OF own_spawn.prems, of i] that by auto
  then show ?case
    using locksD [OF own_spawn.prems] by (intro locksI) (auto simp: nth_append)
next
  case (own_notify_all s)
  have "(i < length (tp_workers s) \<and> w_holds (map wake (tp_workers s) ! i)) = (tp_mutex s = Some (Worker i))" for i
    using locksD(1) [OF own_notify_all.prems, of i] by (cases "i < length (tp_workers s)") simp_all
  then show ?case using locksD(2) [OF own_notify_all.prems] by (intro locksI) simp_all
qed (simp_all add: tp_locks_def)
lemma locks_one: "tp_locks s \<Longrightarrow> i < length (tp_workers s) \<Longrightarrow> w_holds (tp_workers s ! i) \<Longrightarrow>
    j < length (tp_workers s) \<Longrightarrow> w_holds (tp_workers s ! j) \<Longrightarrow> i = j"
  using locksD(1) [of s i] locksD(1) [of s j] by auto

lemma locks_client_worker: "tp_locks s \<Longrightarrow> c_holds (tp_clients s c) \<Longrightarrow> j < length (tp_workers s) \<Longrightarrow>
    \<not> w_holds (tp_workers s ! j)"
  using locksD(2) [of s c] locksD(1) [of s j] by auto

text \<open>What the workers know.\<close>

lemma knowsI:
  assumes "\<And>j. j < length (tp_workers s) \<Longrightarrow> tp_workers s ! j = W_check \<Longrightarrow> tp_stop s j \<or> tp_tasks s \<noteq> []"
    and "\<And>j. j < length (tp_workers s) \<Longrightarrow> tp_workers s ! j = W_block \<Longrightarrow> tp_tasks s = []"
    and "\<And>j. j < length (tp_workers s) \<Longrightarrow> tp_workers s ! j = W_done \<Longrightarrow> tp_stop s j"
  shows "tp_knows s"
  using assms by (simp add: tp_knows_def)

lemma knowsD:
  assumes "tp_knows s" and "j < length (tp_workers s)"
  shows "tp_workers s ! j = W_check \<Longrightarrow> tp_stop s j \<or> tp_tasks s \<noteq> []"
    and "tp_workers s ! j = W_block \<Longrightarrow> tp_tasks s = []"
    and "tp_workers s ! j = W_done \<Longrightarrow> tp_stop s j"
  using assms by (simp_all add: tp_knows_def)

lemma knows_same:
  assumes "tp_knows s" and "tp_tasks t = tp_tasks s" and "tp_stop t = tp_stop s"
    and "i < length (tp_workers s)" and t: "tp_workers t = (tp_workers s)[i := tp_workers t ! i]"
    and "tp_workers t ! i = W_check \<Longrightarrow> tp_stop s i \<or> tp_tasks s \<noteq> []"
    and "tp_workers t ! i = W_block \<Longrightarrow> tp_tasks s = []"
    and "tp_workers t ! i = W_done \<Longrightarrow> tp_stop s i"
  shows "tp_knows t"
proof -
  have len: "length (tp_workers t) = length (tp_workers s)" using arg_cong [OF t, of length] by simp
  have "tp_workers t ! j = tp_workers s ! j" if "j \<noteq> i" for j
    using arg_cong [OF t, of "\<lambda>xs. xs ! j"] that by simp
  then show ?thesis
    using assms(1-3,6-8) len by (auto simp: tp_knows_def) metis+
qed

lemma wk_knows:
  assumes step: "wk_step run i s t" and L: "tp_locks s" and K: "tp_knows s"
  shows "tp_knows t"
  using step
proof cases
  case (wk_take f u rest)
  have "\<not> w_holds (tp_workers s ! j)" if "j < length (tp_workers s)" "j \<noteq> i" for j
    using locks_one [OF L, of i j] that wk_take by auto
  moreover note knowsD(3) [OF K]
  ultimately show ?thesis using wk_take by (intro knowsI) (fastforce simp: nth_list_update split: if_splits)+
qed (rule knows_same [OF K, where i = i]; simp; fail)+

lemma en_knows:
  assumes step: "en_step c s t" and L: "tp_locks s" and K: "tp_knows s"
  shows "tp_knows t"
  using step
proof cases
  case (en_push f u)
  have "\<not> w_holds (tp_workers s ! j)" if "j < length (tp_workers s)" for j
    using locks_client_worker [OF L _ that, of c] en_push by simp
  moreover note knowsD(3) [OF K]
  ultimately show ?thesis using en_push by (intro knowsI) fastforce+
next
  case (en_notify j)
  then show ?thesis by (intro knows_same [OF K, where i = j]) simp_all
qed (use K in \<open>simp_all add: tp_knows_def\<close>)

lemma own_knows: "own_step s t \<Longrightarrow> tp_knows s \<Longrightarrow> tp_life s \<Longrightarrow> tp_knows t"
proof (induction rule: own_step.induct)
  case (own_spawn s)
  then show ?case by (auto simp: tp_knows_def nth_append)
qed (auto simp: tp_knows_def)

text \<open>The books.\<close>

lemma running_update:
  assumes "i < length ws"
  shows "mset (concat (map w_running (ws[i := w]))) + mset (w_running (ws ! i))
    = mset (concat (map w_running ws)) + mset (w_running w)"
proof -
  have ws: "ws = take i ws @ ws ! i # drop (Suc i) ws" using assms by (rule id_take_nth_drop)
  have "ws[i := w] = take i ws @ w # drop (Suc i) ws" using assms by (rule upd_conv_take_nth_drop)
  then show ?thesis by (subst (3) ws) simp
qed

lemma running_same:
  "i < length ws \<Longrightarrow> w_running w = w_running (ws ! i) \<Longrightarrow>
    mset (concat (map w_running (ws[i := w]))) = mset (concat (map w_running ws))"
  using running_update [of i ws w] by simp

lemma booksD:
  assumes "tp_books run s"
  shows "tp_pushed s = tp_started s @ tp_tasks s"
    and "mset (tp_started s) = mset (tp_executed s) + mset (concat (map w_running (tp_workers s)))"
    and "(tp_futures s f = Some r) = (\<exists>t. (f, t) \<in> set (tp_executed s) \<and> r = run t)"
    and "tp_cerr s = []"
  using assms by (simp_all add: tp_books_def)

lemma running_started:
  assumes B: "tp_books run s" and "i < length (tp_workers s)" and "tp_workers s ! i = W_run f t"
  shows "(f, t) \<in> set (tp_started s)" and "distinct (map fst (tp_pushed s)) \<Longrightarrow> f \<notin> fst ` set (tp_executed s)"
proof -
  have ws: "tp_workers s = take i (tp_workers s) @ W_run f t # drop (Suc i) (tp_workers s)"
    using id_take_nth_drop [OF assms(2)] unfolding assms(3) .
  have "mset (concat (map w_running (tp_workers s)))
      = {#(f, t)#} + mset (concat (map w_running (take i (tp_workers s)))) + mset (concat (map w_running (drop (Suc i) (tp_workers s))))"
    by (subst ws) simp
  then have m: "mset (tp_started s) = add_mset (f, t) (mset (tp_executed s)
      + mset (concat (map w_running (take i (tp_workers s)))) + mset (concat (map w_running (drop (Suc i) (tp_workers s)))))"
    using booksD(2) [OF B] by simp
  then show "(f, t) \<in> set (tp_started s)" by (metis set_mset_mset union_single_eq_member)
  assume "distinct (map fst (tp_pushed s))"
  then have "distinct (map fst (tp_started s))" unfolding booksD(1) [OF B] by simp
  moreover have "mset (map fst (tp_started s)) = mset (f # map fst (tp_executed s)
      @ map fst (concat (map w_running (take i (tp_workers s))) @ concat (map w_running (drop (Suc i) (tp_workers s)))))"
    using arg_cong [OF m, of "image_mset fst"] by simp
  ultimately have "distinct (f # map fst (tp_executed s)
      @ map fst (concat (map w_running (take i (tp_workers s))) @ concat (map w_running (drop (Suc i) (tp_workers s)))))"
    using mset_eq_imp_distinct_iff by blast
  then show "f \<notin> fst ` set (tp_executed s)" by auto
qed

lemma wk_books:
  assumes step: "wk_step run i s t" and B: "tp_books run s" and ids: "distinct (map fst (tp_pushed s))"
  shows "tp_books run t"
  using step
proof cases
  case (wk_take f u rest)
  then show ?thesis
    using B running_update [of i "tp_workers s" "W_run f u"] by (simp add: tp_books_def)
next
  case (wk_run f u outcome escaped)
  have o: "outcome = run u" "escaped = None" using wk_run(5) by (simp_all add: packaged_call_def)
  have "mset (concat (map w_running (tp_workers t))) + {#(f, u)#} = mset (concat (map w_running (tp_workers s)))"
    using running_update [of i "tp_workers s" W_lock] wk_run by simp
  then have "mset (tp_started t) = mset (tp_executed t) + mset (concat (map w_running (tp_workers t)))"
    using booksD(2) [OF B] wk_run(1) by (simp add: union_assoc flip: union_commute)
  moreover have "f \<notin> fst ` set (tp_executed s)" using running_started(2) [OF B wk_run(2,3) ids] .
  then have "(tp_futures t g = Some r) = (\<exists>v. (g, v) \<in> set (tp_executed t) \<and> r = run v)" for g r
    using booksD(3) [OF B, of g r] wk_run(1) o by (auto simp: rev_image_eqI)
  ultimately show ?thesis using booksD(1,4) [OF B] wk_run(1) o by (simp add: tp_books_def)
qed (use B in \<open>simp_all add: tp_books_def running_same\<close>)

lemma en_books: "en_step c s t \<Longrightarrow> tp_books run s \<Longrightarrow> tp_books run t"
  by (cases rule: en_step.cases) (auto simp: tp_books_def running_same)

lemma own_books: "own_step s t \<Longrightarrow> tp_books run s \<Longrightarrow> tp_books run t"
  by (cases rule: own_step.cases) (auto simp: tp_books_def comp_def)
text \<open>The life of the pool.\<close>

lemma wk_life:
  assumes step: "wk_step run i s t" and K: "tp_knows s" and life: "tp_life s"
  shows "tp_life t"
proof -
  have same: "tp_threads t = tp_threads s" "tp_owner t = tp_owner s" "tp_thrown t = tp_thrown s"
    "tp_stop t = tp_stop s" "tp_clients t = tp_clients s" "tp_pushed t = tp_pushed s"
    "length (tp_workers t) = length (tp_workers s)"
    using step by (cases rule: wk_step.cases; simp)+
  have "tp_workers t ! j = W_done" if "tp_workers s ! j = W_done" "j < length (tp_workers s)" for j
    using step that by (cases rule: wk_step.cases) (auto simp: nth_list_update)
  then have "owner_ok (tp_owner s) (tp_thrown s) (tp_threads s) (tp_workers t) (tp_stop s)"
    using life unfolding tp_life_def by (cases "tp_owner s") (auto simp: same(7))
  moreover have "w_running (tp_workers t ! j) \<noteq> []"
    if "j < length (tp_workers s)" "w_running (tp_workers s ! j) \<noteq> []" "tp_clients s (Task j) \<noteq> C_idle" for j
    using step that by (cases rule: wk_step.cases) (auto simp: nth_list_update)
  ultimately show ?thesis using life by (simp add: tp_life_def same)
qed

text \<open>Somebody in a call of \<open>enqueue\<close>: then the constructor has returned normally.\<close>

lemma running_alive:
  assumes "tp_books run s" and "tp_life s" and "i < length (tp_workers s)" and "w_running (tp_workers s ! i) \<noteq> []"
  shows "tp_owner s \<noteq> O_ctor \<and> \<not> tp_thrown s"
proof -
  obtain f u where "tp_workers s ! i = W_run f u" using assms(4) by (cases "tp_workers s ! i") auto
  with running_started(1) [OF assms(1,3)] booksD(1) [OF assms(1)] have "tp_pushed s \<noteq> []" by auto
  then show ?thesis using assms(2) by (auto simp: tp_life_def)
qed

lemma caller_alive:
  assumes "tp_books run s" and "tp_life s" and "tp_clients s c \<noteq> C_idle"
  shows "tp_owner s \<noteq> O_ctor \<and> \<not> tp_thrown s"
proof (cases c)
  case (Thread k)
  then have "tp_owner s = O_alive" using assms(2,3) unfolding tp_life_def by auto
  then show ?thesis using assms(2) by (simp add: tp_life_def)
next
  case (Task i)
  then show ?thesis using running_alive [OF assms(1,2), of i] assms(2,3) unfolding tp_life_def by blast
qed

lemma en_life:
  assumes step: "en_step c s t" and B: "tp_books run s" and life: "tp_life s"
  shows "tp_life t"
proof -
  have alive: "tp_owner s \<noteq> O_ctor \<and> \<not> tp_thrown s"
    using step
  proof cases
    case (en_call k u)
    then show ?thesis using life by (simp add: tp_life_def)
  next
    case (en_nested i f u v)
    then show ?thesis using running_alive [OF B life, of i] by simp
  qed (use caller_alive [OF B life, of c] in simp_all)
  have same: "tp_threads t = tp_threads s" "tp_owner t = tp_owner s" "tp_thrown t = tp_thrown s"
    "tp_stop t = tp_stop s" "length (tp_workers t) = length (tp_workers s)" "\<And>d. d \<noteq> c \<Longrightarrow> tp_clients t d = tp_clients s d"
    using step by (cases rule: en_step.cases; simp)+
  have w: "w_running (tp_workers t ! j) = w_running (tp_workers s ! j)" "tp_workers s ! j = W_done \<Longrightarrow> tp_workers t ! j = W_done"
    if "j < length (tp_workers s)" for j
    using step that by (cases rule: en_step.cases; auto simp: nth_list_update)+
  have "owner_ok (tp_owner s) (tp_thrown s) (tp_threads s) (tp_workers t) (tp_stop s)"
    using life w(2) unfolding tp_life_def by (cases "tp_owner s") (auto simp: same(5))
  moreover have "tp_clients t (Thread k) = C_idle" if "tp_owner s \<noteq> O_alive" for k
  proof (cases "c = Thread k")
    case True
    have "tp_clients s c = C_idle" using life that True by (simp add: tp_life_def)
    with step that True show ?thesis by cases simp_all
  qed (use same(6) life that in \<open>simp add: tp_life_def\<close>)
  moreover have "i < length (tp_workers s) \<and> w_running (tp_workers t ! i) \<noteq> []" if "tp_clients t (Task i) \<noteq> C_idle" for i
  proof (cases "tp_clients s (Task i) = C_idle")
    case True
    then have "c = Task i" using that same(6) [of "Task i"] by auto
    with step that True have "i < length (tp_workers s) \<and> w_running (tp_workers s ! i) \<noteq> []" by cases simp_all
    then show ?thesis using w(1) by simp
  next
    case False
    then show ?thesis using life w(1) unfolding tp_life_def by metis
  qed
  ultimately show ?thesis using life alive by (simp add: tp_life_def same)
qed

lemma own_life: "own_step s t \<Longrightarrow> tp_life s \<Longrightarrow> tp_life t"
proof (induction rule: own_step.induct)
  case (own_join s k)
  then show ?case by (auto simp: tp_life_def less_Suc_eq)
next
  case (own_spawn s)
  then show ?case by (auto simp: tp_life_def nth_append)
qed (auto simp: tp_life_def less_Suc_eq)

text \<open>Identifiers of futures.\<close>

lemma ids_same:
  "tp_pushed t = tp_pushed s \<and> tp_next t = tp_next s \<and> tp_clients t = tp_clients s \<Longrightarrow> tp_ids s \<Longrightarrow> tp_ids t"
  by (simp add: tp_ids_def)

lemma wk_ids: "wk_step run i s t \<Longrightarrow> tp_ids s \<Longrightarrow> tp_ids t"
  by (erule ids_same [rotated], erule wk_step.cases) simp_all

lemma own_ids: "own_step s t \<Longrightarrow> tp_ids s \<Longrightarrow> tp_ids t"
  by (erule ids_same [rotated], erule own_step.cases) simp_all

lemma idsI:
  assumes "distinct (map fst (tp_pushed s))" and "\<And>p. p \<in> set (tp_pushed s) \<Longrightarrow> fst p < tp_next s"
    and "\<And>c f. f \<in> c_ids (tp_clients s c) \<Longrightarrow> f < tp_next s"
    and "\<And>c f. f \<in> c_ids (tp_clients s c) \<Longrightarrow> f \<notin> fst ` set (tp_pushed s)"
    and "\<And>c d. c \<noteq> d \<Longrightarrow> c_ids (tp_clients s c) \<inter> c_ids (tp_clients s d) = {}"
  shows "tp_ids s"
  using assms by (simp add: tp_ids_def)

lemma idsD:
  assumes "tp_ids s"
  shows "distinct (map fst (tp_pushed s))" "p \<in> set (tp_pushed s) \<Longrightarrow> fst p < tp_next s"
    "f \<in> c_ids (tp_clients s c) \<Longrightarrow> f < tp_next s"
    "f \<in> c_ids (tp_clients s c) \<Longrightarrow> f \<notin> fst ` set (tp_pushed s)"
    "c \<noteq> d \<Longrightarrow> c_ids (tp_clients s c) \<inter> c_ids (tp_clients s d) = {}"
  using assms by (simp_all add: tp_ids_def)

lemma ids_call:
  assumes I: "tp_ids s" and t: "tp_clients t = (tp_clients s)(c := C_lock (tp_next s) u)" "tp_next t = Suc (tp_next s)"
    "tp_pushed t = tp_pushed s"
  shows "tp_ids t"
proof -
  have new: "tp_next s \<notin> fst ` set (tp_pushed s)" "tp_next s \<notin> c_ids (tp_clients s d)" for d
    using idsD(2,3) [OF I] by force+
  show ?thesis
  proof (rule idsI)
    show "distinct (map fst (tp_pushed t))" using idsD(1) [OF I] t by simp
    show "fst p < tp_next t" if "p \<in> set (tp_pushed t)" for p
      using idsD(2) [OF I, of p] that t by simp
    show "f < tp_next t" "f \<notin> fst ` set (tp_pushed t)" if "f \<in> c_ids (tp_clients t d)" for f d
      using idsD(3,4) [OF I, of f d] that new(1) t by (auto split: if_splits)
    show "c_ids (tp_clients t d) \<inter> c_ids (tp_clients t e) = {}" if "d \<noteq> e" for d e
      using idsD(5) [OF I that] new(2) that t by auto
  qed
qed

lemma en_ids:
  assumes step: "en_step c s t" and I: "tp_ids s"
  shows "tp_ids t"
  using step
proof cases
  case (en_call k u)
  then show ?thesis by (intro ids_call [OF I]) simp_all
next
  case (en_nested i f u v)
  then show ?thesis by (intro ids_call [OF I]) simp_all
next
  case (en_lock f u)
  then have "c_ids (tp_clients t d) = c_ids (tp_clients s d)" for d by simp
  then show ?thesis using I en_lock by (simp add: tp_ids_def)
next
  case (en_push f u)
  have f: "f < tp_next s" "f \<notin> fst ` set (tp_pushed s)" "d \<noteq> c \<Longrightarrow> f \<notin> c_ids (tp_clients s d)" for d
    using idsD(3,4) [OF I, of f c] idsD(5) [OF I, of d c] en_push by auto
  show ?thesis
  proof (rule idsI)
    show "distinct (map fst (tp_pushed t))" using idsD(1) [OF I] f(2) en_push by simp
    show "fst p < tp_next t" if "p \<in> set (tp_pushed t)" for p
      using idsD(2) [OF I, of p] f(1) that en_push by auto
    show "g < tp_next t" "g \<notin> fst ` set (tp_pushed t)" if "g \<in> c_ids (tp_clients t d)" for g d
      using idsD(3,4) [OF I, of g d] f(3) [of d] that en_push by (auto split: if_splits)
    show "c_ids (tp_clients t d) \<inter> c_ids (tp_clients t e) = {}" if "d \<noteq> e" for d e
      using idsD(5) [OF I that] that en_push by auto
  qed
next
  case (en_notify j)
  then have "c_ids (tp_clients t d) = c_ids (tp_clients s d)" for d by simp
  then show ?thesis using I en_notify by (simp add: tp_ids_def)
next
  case en_nobody
  then have "c_ids (tp_clients t d) = c_ids (tp_clients s d)" for d by simp
  then show ?thesis using I en_nobody by (simp add: tp_ids_def)
qed

text \<open>Queued tasks are attended to.\<close>

lemma attended_worker: "i < length (tp_workers s) \<Longrightarrow> w_awake (tp_workers s ! i) \<Longrightarrow> tp_attended s"
  by (auto simp: tp_attended_def)

lemma attended_mono:
  assumes "tp_attended s" and "tp_tasks t = tp_tasks s" and "tp_clients t = tp_clients s"
    and "length (tp_workers s) \<le> length (tp_workers t)"
    and "\<And>i. i < length (tp_workers s) \<Longrightarrow> w_awake (tp_workers s ! i) \<Longrightarrow> w_awake (tp_workers t ! i)"
  shows "tp_attended t"
  using assms by (auto simp: tp_attended_def) (meson less_le_trans)

lemma wk_attended:
  assumes step: "wk_step run i s t" and K: "tp_knows s" and A: "tp_attended s"
  shows "tp_attended t"
proof -
  have i: "i < length (tp_workers s)" "length (tp_workers t) = length (tp_workers s)"
    using step by (cases rule: wk_step.cases; simp)+
  show ?thesis
  proof (cases "tp_tasks t = []")
    case False
    have "w_awake (tp_workers t ! i)"
      using step False knowsD(2) [OF K i(1)] by cases auto
    with i show ?thesis by (auto intro: attended_worker)
  qed (simp add: tp_attended_def)
qed

lemma en_attended:
  assumes step: "en_step c s t" and K: "tp_knows s" and A: "tp_attended s" and life: "tp_life s"
  shows "tp_attended t"
proof -
  have quiet: "tp_attended t" if "tp_workers t = tp_workers s" "tp_tasks t = tp_tasks s"
    "tp_clients t = (tp_clients s)(c := k)" "tp_clients s c \<noteq> C_notify" for k
    using A that by (auto simp: tp_attended_def)
  from step show ?thesis
  proof cases
    case (en_call k u)
    then show ?thesis by (intro quiet) simp_all
  next
    case (en_nested i f u v)
    then show ?thesis by (intro quiet) simp_all
  next
    case (en_lock f u)
    then show ?thesis by (intro quiet) simp_all
  next
    case (en_push f u)
    then show ?thesis by (auto simp: tp_attended_def)
  next
    case (en_notify j)
    then show ?thesis by (auto intro: attended_worker [of j])
  next
    case en_nobody
    show ?thesis
    proof (cases "tp_tasks s = []")
      case False
      obtain j where j: "j < length (tp_workers s)" "w_awake (tp_workers s ! j)"
      proof (cases c)
        case (Thread k)
        have alive: "tp_owner s = O_alive" using en_nobody(2) life unfolding tp_life_def Thread by auto
        then have len: "0 < length (tp_workers s)" and stop: "\<not> tp_stop s 0" using life by (simp_all add: tp_life_def)
        have "tp_workers s ! 0 \<noteq> W_wait" using en_nobody(3) nth_mem [OF len] by metis
        then have "w_awake (tp_workers s ! 0)"
          using knowsD [OF K len] False stop by (cases "tp_workers s ! 0") auto
        with len show ?thesis by (rule that)
      next
        case (Task i)
        then have "i < length (tp_workers s)" "w_running (tp_workers s ! i) \<noteq> []"
          using life en_nobody(2) by (simp_all add: tp_life_def)
        then show ?thesis by (intro that [of i]) (cases "tp_workers s ! i"; simp)+
      qed
      then show ?thesis using en_nobody by (intro attended_worker [of j]) simp_all
    qed (use en_nobody in \<open>simp add: tp_attended_def\<close>)
  qed
qed

lemma own_attended:
  assumes step: "own_step s t" and A: "tp_attended s"
  shows "tp_attended t"
proof -
  have "tp_tasks t = tp_tasks s" "tp_clients t = tp_clients s" "length (tp_workers s) \<le> length (tp_workers t)"
    using step by (cases rule: own_step.cases; simp)+
  moreover have "w_awake (tp_workers t ! i)" if "i < length (tp_workers s)" "w_awake (tp_workers s ! i)" for i
    using step that by (cases rule: own_step.cases) (simp_all add: nth_append)
  ultimately show ?thesis by (rule attended_mono [OF A])
qed

text \<open>All together, spurious wake-ups included.\<close>

lemma tp_invD:
  assumes "tp_inv run s"
  shows "tp_locks s" "tp_knows s" "tp_books run s" "tp_ids s" "tp_attended s" "tp_life s"
  using assms by (simp_all add: tp_inv_def)

lemma spurious_inv:
  assumes step: "tp_spurious s t" and inv: "tp_inv run s"
  shows "tp_inv run t"
  using step
proof cases
  case (wake_up i)
  note I = tp_invD [OF inv]
  have "tp_mutex s \<noteq> Some (Worker i)" using locksD(1) [OF I(1), of i] wake_up by auto
  then have "tp_locks t" using wake_up by (intro locks_worker [OF I(1), of i]) simp_all
  moreover have "tp_knows t" using wake_up by (intro knows_same [OF I(2), where i = i]) simp_all
  moreover have "tp_books run t" using I(3) wake_up by (simp add: tp_books_def running_same)
  moreover have "tp_ids t" using I(4) wake_up by (simp add: tp_ids_def)
  moreover have "tp_attended t"
    by (rule attended_mono [OF I(5)]) (use wake_up in \<open>auto simp: nth_list_update\<close>)
  moreover have "tp_life t"
  proof -
    have "owner_ok (tp_owner s) (tp_thrown s) (tp_threads s) (tp_workers t) (tp_stop s)"
      using I(6) wake_up unfolding tp_life_def by (cases "tp_owner s") (auto simp: nth_list_update)
    moreover have "w_running (tp_workers t ! j) = w_running (tp_workers s ! j)" for j
      using wake_up by (cases "j = i") simp_all
    ultimately show ?thesis using I(6) wake_up(1) by (simp add: tp_life_def)
  qed
  ultimately show ?thesis by (simp add: tp_inv_def)
qed

lemma tp_step_inv:
  assumes step: "tp_any_step run s t" and inv: "tp_inv run s"
  shows "tp_inv run t"
proof -
  note I = tp_invD [OF inv]
  consider i where "wk_step run i s t" | c where "en_step c s t" | "own_step s t" | "tp_spurious s t"
    using step by (auto simp: tp_any_step_def tp_step_def)
  then show ?thesis
  proof cases
    case 1
    then show ?thesis
      using I wk_locks wk_knows wk_books [OF 1 I(3) idsD(1) [OF I(4)]] wk_ids wk_attended wk_life
      unfolding tp_inv_def by blast
  next
    case 2
    then show ?thesis
      using I en_locks en_knows en_books [OF 2 I(3)] en_ids en_attended en_life [OF 2 I(3)] unfolding tp_inv_def by blast
  next
    case 3
    then show ?thesis
      using I own_locks own_knows own_books [OF 3 I(3)] own_ids own_attended own_life unfolding tp_inv_def by blast
  next
    case 4
    then show ?thesis using spurious_inv inv by blast
  qed
qed

interpretation pool: guarded_machine tp_init "tp_any_step run" "tp_inv run" "\<lambda>_. 0" 1 for run
proof unfold_locales
  show "tp_inv run s" if "tp_init s" for s using tp_inv_init that .
  show "tp_inv run t" if "tp_inv run s" "tp_any_step run s t" for s t using tp_step_inv that by blast
qed simp

lemma pool_inv: "reach tp_init (tp_any_step run) s \<Longrightarrow> tp_inv run s"
  using pool.reach_inv by simp

section \<open>Runs\<close>

lemma pool_reach:
  "reach tp_init (tp_any_step run) s \<Longrightarrow> wk_step run i s t \<Longrightarrow> reach tp_init (tp_any_step run) t"
  "reach tp_init (tp_any_step run) s \<Longrightarrow> en_step c s t \<Longrightarrow> reach tp_init (tp_any_step run) t"
  "reach tp_init (tp_any_step run) s \<Longrightarrow> own_step s t \<Longrightarrow> reach tp_init (tp_any_step run) t"
  by (auto simp: tp_any_step_def tp_step_def elim!: reach_step)

text \<open>A pool with one worker and one task, which throws.\<close>

definition tp_run :: "nat \<Rightarrow> nat + nat" where
  "tp_run t = (if t = 0 then Inl 13 else Inr (2 * t))"

definition tp_ran :: "(nat, nat, nat) pool" where
  "tp_ran = \<lparr>tp_threads = 1, tp_tasks = [], tp_mutex = None, tp_workers = [W_lock], tp_stop = (\<lambda>_. False),
     tp_clients = (\<lambda>_. C_idle), tp_owner = O_alive, tp_thrown = False, tp_next = 1,
     tp_futures = (\<lambda>_. None)(0 \<mapsto> Inl 13), tp_cerr = [], tp_pushed = [(0, 0)], tp_started = [(0, 0)],
     tp_executed = [(0, 0)]\<rparr>"

text \<open>The same pool when the worker's \<open>wait\<close> has just returned.\<close>

definition tp_found :: "(nat, nat, nat) pool" where
  "tp_found = (tp_ctor 1)\<lparr>tp_tasks := [(0, 0)], tp_mutex := Some (Worker 0), tp_workers := [W_check],
     tp_owner := O_alive, tp_next := 1, tp_pushed := [(0, 0)]\<rparr>"

lemma tp_found_reach: "reach tp_init (tp_any_step tp_run) tp_found"
proof -
  define s0 :: "(nat, nat, nat) pool" where "s0 = tp_ctor 1"
  define s1 where "s1 = s0\<lparr>tp_workers := [W_lock]\<rparr>"
  define s2 where "s2 = s1\<lparr>tp_owner := O_alive\<rparr>"
  define s3 where "s3 = s2\<lparr>tp_next := 1, tp_clients := (\<lambda>_. C_idle)(Thread 0 := C_lock 0 0)\<rparr>"
  define s4 where "s4 = s3\<lparr>tp_mutex := Some (Client (Thread 0)), tp_clients := (\<lambda>_. C_idle)(Thread 0 := C_push 0 0)\<rparr>"
  define s5 where "s5 = s4\<lparr>tp_tasks := [(0, 0)], tp_mutex := None, tp_clients := (\<lambda>_. C_idle)(Thread 0 := C_notify),
      tp_pushed := [(0, 0)]\<rparr>"
  define s6 where "s6 = s5\<lparr>tp_clients := (\<lambda>_. C_idle)\<rparr>"
  define s7 where "s7 = s6\<lparr>tp_mutex := Some (Worker 0), tp_workers := [W_pred]\<rparr>"
  note defs = s7_def s6_def s5_def s4_def s3_def s2_def s1_def s0_def tp_ctor_def tp_found_def
  have "tp_init s0" unfolding tp_init_def s0_def by blast
  then have "reach tp_init (tp_any_step tp_run) s0" by (rule reach_init)
  moreover have "own_step s0 s1" by (simp add: own_step.simps defs)
  moreover have "own_step s1 s2" by (simp add: own_step.simps defs)
  moreover have "en_step (Thread 0) s2 s3" using en_call [of "Thread 0" 0 s2 0] by (simp add: defs)
  moreover have "en_step (Thread 0) s3 s4" by (simp add: en_step.simps defs)
  moreover have "en_step (Thread 0) s4 s5" by (simp add: en_step.simps defs)
  moreover have "en_step (Thread 0) s5 s6" by (simp add: en_step.simps defs fun_eq_iff)
  moreover have "wk_step tp_run 0 s6 s7" by (simp add: wk_step.simps defs)
  moreover have "wk_step tp_run 0 s7 tp_found" by (simp add: wk_step.simps defs fun_eq_iff)
  ultimately show ?thesis by (meson pool_reach)
qed

lemma tp_ran_reach: "reach tp_init (tp_any_step tp_run) tp_ran"
proof -
  define s1 where "s1 = tp_found\<lparr>tp_tasks := [], tp_mutex := None, tp_workers := [W_run 0 0], tp_started := [(0, 0)]\<rparr>"
  note tp_found_reach
  moreover have "wk_step tp_run 0 tp_found s1" by (simp add: wk_step.simps s1_def tp_found_def tp_ctor_def)
  moreover have "wk_step tp_run 0 s1 tp_ran"
    by (simp add: wk_step.simps s1_def tp_found_def tp_ctor_def tp_ran_def packaged_call_def tp_run_def)
  ultimately show ?thesis by (meson pool_reach)
qed

text \<open>The destructor with the worker past the predicate but not yet blocked.\<close>

definition tp_hang :: "(nat, nat, nat) pool" where
  "tp_hang = tp_ran\<lparr>tp_workers := [W_wait], tp_stop := (\<lambda>_. False)(0 := True), tp_owner := O_join 0\<rparr>"

lemma tp_hang_reach: "reach tp_init (tp_any_step tp_run) tp_hang"
proof -
  define s1 where "s1 = tp_ran\<lparr>tp_mutex := Some (Worker 0), tp_workers := [W_pred]\<rparr>"
  define s2 where "s2 = s1\<lparr>tp_workers := [W_block]\<rparr>"
  define s3 where "s3 = s2\<lparr>tp_owner := O_stop 0\<rparr>"
  define s4 where "s4 = s3\<lparr>tp_stop := (\<lambda>_. False)(0 := True), tp_owner := O_stop 1\<rparr>"
  define s5 where "s5 = s4\<lparr>tp_owner := O_notify\<rparr>"
  define s6 where "s6 = s5\<lparr>tp_owner := O_destroy 0\<rparr>"
  define s7 where "s7 = s6\<lparr>tp_owner := O_join 0\<rparr>"
  note defs = s7_def s6_def s5_def s4_def s3_def s2_def s1_def tp_ran_def
  note tp_ran_reach
  moreover have "wk_step tp_run 0 tp_ran s1" by (simp add: wk_step.simps defs)
  moreover have "wk_step tp_run 0 s1 s2" by (simp add: wk_step.simps defs)
  moreover have "own_step s2 s3" by (simp add: own_step.simps defs)
  moreover have "own_step s3 s4" by (simp add: own_step.simps defs)
  moreover have "own_step s4 s5" by (simp add: own_step.simps defs)
  moreover have "own_step s5 s6" by (simp add: own_step.simps defs)
  moreover have "own_step s6 s7" by (simp add: own_step.simps defs)
  moreover have "wk_step tp_run 0 s7 tp_hang" by (simp add: wk_step.simps defs tp_hang_def)
  ultimately show ?thesis by (meson pool_reach)
qed

text \<open>The same pool destroyed while its task runs, which enqueues another task meanwhile.\<close>

definition tp_nest :: "(nat, nat, nat) pool" where
  "tp_nest = \<lparr>tp_threads = 1, tp_tasks = [(1, 7)], tp_mutex = None, tp_workers = [W_run 0 0], tp_stop = (\<lambda>_. False)(0 := True),
     tp_clients = (\<lambda>_. C_idle), tp_owner = O_join 0, tp_thrown = False, tp_next = 2,
     tp_futures = (\<lambda>_. None), tp_cerr = [], tp_pushed = [(0, 0), (1, 7)], tp_started = [(0, 0)], tp_executed = []\<rparr>"

lemma tp_nest_reach: "reach tp_init (tp_any_step tp_run) tp_nest"
proof -
  define s1 where "s1 = tp_found\<lparr>tp_tasks := [], tp_mutex := None, tp_workers := [W_run 0 0], tp_started := [(0, 0)]\<rparr>"
  define s2 where "s2 = s1\<lparr>tp_owner := O_stop 0\<rparr>"
  define s3 where "s3 = s2\<lparr>tp_stop := (\<lambda>_. False)(0 := True), tp_owner := O_stop 1\<rparr>"
  define s4 where "s4 = s3\<lparr>tp_owner := O_notify\<rparr>"
  define s5 where "s5 = s4\<lparr>tp_owner := O_destroy 0\<rparr>"
  define s6 where "s6 = s5\<lparr>tp_owner := O_join 0\<rparr>"
  define s7 where "s7 = s6\<lparr>tp_next := 2, tp_clients := (\<lambda>_. C_idle)(Task 0 := C_lock 1 7)\<rparr>"
  define s8 where "s8 = s7\<lparr>tp_mutex := Some (Client (Task 0)), tp_clients := (\<lambda>_. C_idle)(Task 0 := C_push 1 7)\<rparr>"
  define s9 where "s9 = s8\<lparr>tp_tasks := [(1, 7)], tp_mutex := None, tp_clients := (\<lambda>_. C_idle)(Task 0 := C_notify),
      tp_pushed := [(0, 0), (1, 7)]\<rparr>"
  note defs = s9_def s8_def s7_def s6_def s5_def s4_def s3_def s2_def s1_def tp_found_def tp_ctor_def
  have "wk_step tp_run 0 tp_found s1" by (simp add: wk_step.simps defs)
  from pool_reach(1) [OF tp_found_reach this] have "reach tp_init (tp_any_step tp_run) s1" .
  moreover have "own_step s1 s2" by (simp add: own_step.simps defs)
  moreover have "own_step s2 s3" by (simp add: own_step.simps defs)
  moreover have "own_step s3 s4" by (simp add: own_step.simps defs)
  moreover have "own_step s4 s5" by (simp add: own_step.simps defs)
  moreover have "own_step s5 s6" by (simp add: own_step.simps defs)
  ultimately have "reach tp_init (tp_any_step tp_run) s6" by (meson pool_reach(3))
  moreover have "en_step (Task 0) s6 s7" using en_nested [of "Task 0" 0 s6 0 0 7] by (simp add: defs numeral_2_eq_2)
  moreover have "en_step (Task 0) s7 s8" by (simp add: en_step.simps defs)
  moreover have "en_step (Task 0) s8 s9" by (simp add: en_step.simps defs)
  moreover have "en_step (Task 0) s9 tp_nest" by (simp add: en_step.simps defs fun_eq_iff tp_nest_def)
  ultimately show ?thesis by (meson pool_reach(2))
qed

definition tp_over :: "(nat, nat, nat) pool" where
  "tp_over = \<lparr>tp_threads = 1, tp_tasks = [], tp_mutex = None, tp_workers = [W_done], tp_stop = (\<lambda>_. False)(0 := True),
     tp_clients = (\<lambda>_. C_idle), tp_owner = O_gone, tp_thrown = False, tp_next = 2,
     tp_futures = (\<lambda>_. None)(0 \<mapsto> Inl 13, 1 \<mapsto> Inr 14), tp_cerr = [], tp_pushed = [(0, 0), (1, 7)],
     tp_started = [(0, 0), (1, 7)], tp_executed = [(0, 0), (1, 7)]\<rparr>"

lemma tp_over_reach: "reach tp_init (tp_any_step tp_run) tp_over"
proof -
  define s1 where "s1 = tp_nest\<lparr>tp_workers := [W_lock], tp_futures := (\<lambda>_. None)(0 \<mapsto> Inl 13), tp_executed := [(0, 0)]\<rparr>"
  define s2 where "s2 = s1\<lparr>tp_mutex := Some (Worker 0), tp_workers := [W_pred]\<rparr>"
  define s3 where "s3 = s2\<lparr>tp_workers := [W_check]\<rparr>"
  define s4 where "s4 = s3\<lparr>tp_tasks := [], tp_mutex := None, tp_workers := [W_run 1 7], tp_started := [(0, 0), (1, 7)]\<rparr>"
  define s5 where "s5 = s4\<lparr>tp_workers := [W_lock], tp_futures := (\<lambda>_. None)(0 \<mapsto> Inl 13, 1 \<mapsto> Inr 14),
      tp_executed := [(0, 0), (1, 7)]\<rparr>"
  define s6 where "s6 = s5\<lparr>tp_mutex := Some (Worker 0), tp_workers := [W_pred]\<rparr>"
  define s7 where "s7 = s6\<lparr>tp_workers := [W_check]\<rparr>"
  define s8 where "s8 = s7\<lparr>tp_mutex := None, tp_workers := [W_done]\<rparr>"
  define s9 where "s9 = s8\<lparr>tp_owner := O_destroy 1\<rparr>"
  note defs = s9_def s8_def s7_def s6_def s5_def s4_def s3_def s2_def s1_def tp_nest_def
  note tp_nest_reach
  moreover have "wk_step tp_run 0 tp_nest s1" by (simp add: wk_step.simps defs packaged_call_def tp_run_def)
  moreover have "wk_step tp_run 0 s1 s2" by (simp add: wk_step.simps defs)
  moreover have "wk_step tp_run 0 s2 s3" by (simp add: wk_step.simps defs)
  moreover have "wk_step tp_run 0 s3 s4" by (simp add: wk_step.simps defs)
  moreover have "wk_step tp_run 0 s4 s5" by (simp add: wk_step.simps defs packaged_call_def tp_run_def)
  moreover have "wk_step tp_run 0 s5 s6" by (simp add: wk_step.simps defs)
  moreover have "wk_step tp_run 0 s6 s7" by (simp add: wk_step.simps defs)
  moreover have "wk_step tp_run 0 s7 s8" by (simp add: wk_step.simps defs)
  ultimately have "reach tp_init (tp_any_step tp_run) s8" by (meson pool_reach(1))
  moreover have "own_step s8 s9" by (simp add: own_step.simps defs)
  moreover have "own_step s9 tp_over" by (simp add: own_step.simps defs tp_over_def)
  ultimately show ?thesis by (meson pool_reach(3))
qed

text \<open>
  A constructor asked for \<open>threads\<close> workers, \<open>k\<close> of which it has started and which have blocked;
  then starting the next one throws, and \<open>workers\<close> is destroyed.
\<close>

definition tp_dozed :: "size_t \<Rightarrow> nat \<Rightarrow> (nat, nat, nat) pool" where
  "tp_dozed threads k = (tp_ctor threads)\<lparr>tp_workers := replicate k W_wait\<rparr>"

definition tp_unwound :: "size_t \<Rightarrow> nat \<Rightarrow> (nat, nat, nat) pool" where
  "tp_unwound threads k = (tp_dozed threads k)\<lparr>tp_stop := (\<lambda>_. False)(0 := True), tp_thrown := True,
     tp_owner := O_join 0\<rparr>"

lemma replicate_last [simp]:
  "length (replicate k a @ [b]) = Suc k" "(replicate k a @ [b]) ! k = b"
  "(replicate k a @ [b])[k := d] = replicate k a @ [d]"
  by (simp_all add: nth_append list_update_append)

lemma tp_doze:
  assumes "reach tp_init (tp_any_step tp_run) (tp_dozed threads k)" and "k < unat threads"
  shows "reach tp_init (tp_any_step tp_run) (tp_dozed threads (Suc k))"
proof -
  define s0 where "s0 = tp_dozed threads k"
  define s1 where "s1 = s0\<lparr>tp_workers := replicate k W_wait @ [W_lock]\<rparr>"
  define s2 where "s2 = s1\<lparr>tp_mutex := Some (Worker k), tp_workers := replicate k W_wait @ [W_pred]\<rparr>"
  define s3 where "s3 = s2\<lparr>tp_workers := replicate k W_wait @ [W_block]\<rparr>"
  note defs = s3_def s2_def s1_def s0_def tp_dozed_def tp_ctor_def
  have "threads \<noteq> 0" using assms(2) by auto
  then have "own_step s0 s1" using assms(2) by (simp add: own_step.simps defs)
  moreover have "wk_step tp_run k s1 s2" by (simp add: wk_step.simps defs)
  moreover have "wk_step tp_run k s2 s3" by (simp add: wk_step.simps defs)
  moreover have "wk_step tp_run k s3 (tp_dozed threads (Suc k))"
    by (simp add: wk_step.simps defs replicate_append_same)
  ultimately show ?thesis using assms(1) by (metis pool_reach s0_def)
qed

lemma tp_unwound_reach:
  assumes "0 < k" and "k < unat threads"
  shows "reach tp_init (tp_any_step tp_run) (tp_unwound threads k)"
proof -
  have "reach tp_init (tp_any_step tp_run) (tp_dozed threads j)" if "j \<le> k" for j
    using that
  proof (induction j)
    case 0
    have "tp_init (tp_dozed threads 0)" by (auto simp: tp_init_def tp_dozed_def tp_ctor_def)
    then show ?case by (rule reach_init)
  next
    case (Suc j)
    then show ?case using tp_doze [of threads j] assms(2) by simp
  qed
  then have r: "reach tp_init (tp_any_step tp_run) (tp_dozed threads k)" by simp
  have t: "threads \<noteq> 0" using assms by auto
  define s5 where "s5 = (tp_dozed threads k)\<lparr>tp_thrown := True, tp_owner := O_destroy 0\<rparr>"
  have "own_step (tp_dozed threads k) s5" using assms t by (simp add: own_step.simps s5_def tp_dozed_def tp_ctor_def)
  moreover have "own_step s5 (tp_unwound threads k)"
    using assms by (simp add: own_step.simps s5_def tp_unwound_def tp_dozed_def tp_ctor_def)
  ultimately show ?thesis using r by (meson pool_reach)
qed

section \<open>Properties\<close>

text \<open>
  C4. Every task is executed exactly once and tasks start in the order in which they were
  pushed: in every reachable state the started tasks are a prefix of the pushed ones and the
  queue is the rest; the started ones are those executed and those running now, each once;
  and a future is ready exactly when its task was executed, with the task's outcome.
\<close>

theorem tp_exactly_once:
  assumes "reach tp_init (tp_any_step run) s"
  shows "tp_started s = take (length (tp_started s)) (tp_pushed s)
    \<and> tp_tasks s = drop (length (tp_started s)) (tp_pushed s) \<and> distinct (map fst (tp_pushed s))
    \<and> mset (tp_started s) = mset (tp_executed s) + mset (concat (map w_running (tp_workers s)))
    \<and> (tp_futures s f = Some r \<longleftrightarrow> (\<exists>t. (f, t) \<in> set (tp_executed s) \<and> r = run t))"
proof -
  have "tp_inv run s" by (rule pool_inv [OF assms])
  note I = tp_invD [OF this]
  show ?thesis using booksD [OF I(3)] idsD(1) [OF I(4)] by simp
qed

theorem tp_exactly_once_witness: "tp_futures tp_ran 0 = Some (Inl 13) \<longleftrightarrow> (0, 0) \<in> set (tp_executed tp_ran)"
  using tp_exactly_once [OF tp_ran_reach, of 0 "Inl 13"] by (auto simp: tp_ran_def tp_run_def)

text \<open>
  C7. Destroying the pool drains it: when the destructor has returned, every task ever pushed was
  executed, its future is ready, and every worker has ended. That includes the tasks that running
  tasks enqueued while the destructor was already at work.
\<close>

theorem tp_dtor_drains:
  assumes "reach tp_init (tp_any_step run) s" and "tp_owner s = O_gone" and "\<not> tp_thrown s"
  shows "tp_tasks s = [] \<and> mset (tp_executed s) = mset (tp_pushed s)
    \<and> list_all (\<lambda>(f, t). tp_futures s f = Some (run t)) (tp_pushed s)
    \<and> length (tp_workers s) = tp_threads s \<and> list_all (\<lambda>w. w = W_done) (tp_workers s)"
proof -
  have "tp_inv run s" by (rule pool_inv [OF assms(1)])
  note I = tp_invD [OF this]
  have ws: "length (tp_workers s) = tp_threads s" "0 < tp_threads s"
    "\<And>j. j < length (tp_workers s) \<Longrightarrow> tp_workers s ! j = W_done"
    using I(6) assms(2,3) by (simp_all add: tp_life_def)
  then have "\<not> w_awake (tp_workers s ! j)" "w_running (tp_workers s ! j) = []" if "j < length (tp_workers s)" for j
    using that by simp_all
  then have "tp_clients s c = C_idle" for c using I(6) assms(2) by (cases c) (auto simp: tp_life_def)
  then have "tp_tasks s = []" using I(5) ws(3) by (auto simp: tp_attended_def)
  moreover have "concat (map w_running (tp_workers s)) = []" using ws(3) by (auto simp: in_set_conv_nth)
  then have m: "mset (tp_started s) = mset (tp_executed s)" using booksD(2) [OF I(3)] by simp
  moreover have "tp_futures s f = Some (run t)" if "(f, t) \<in> set (tp_started s)" for f t
    using that booksD(3) [OF I(3), of f "run t"] mset_eq_setD [OF m] by auto
  moreover have "list_all (\<lambda>w. w = W_done) (tp_workers s)" using ws(3) by (simp add: list_all_length)
  ultimately show ?thesis using ws(1) booksD(1) [OF I(3)] by (auto simp: list_all_iff)
qed

theorem tp_dtor_drains_witness: "mset (tp_executed tp_over) = mset (tp_pushed tp_over) \<and> tp_pushed tp_over = [(0, 0), (1, 7)]"
  using tp_dtor_drains [OF tp_over_reach] by (simp add: tp_over_def)

text \<open>
  An exception of a task ends up in its future and nowhere else: the future of an executed
  task that threw holds the exception, and nothing ever reaches the \<open>catch\<close> handlers of the
  worker, which therefore never write to \<open>std::cerr\<close>.
\<close>

theorem tp_exceptions_in_futures:
  assumes "reach tp_init (tp_any_step run) s" and "(f, t) \<in> set (tp_executed s)" and "run t = Inl e"
  shows "tp_futures s f = Some (Inl e) \<and> tp_cerr s = []"
proof -
  have "tp_inv run s" by (rule pool_inv [OF assms(1)])
  note B = booksD [OF tp_invD(3) [OF this]]
  show ?thesis using B(3) [of f "Inl e"] B(4) assms(2,3) by auto
qed

theorem tp_exceptions_in_futures_witness: "tp_futures tp_ran 0 = Some (Inl 13) \<and> tp_cerr tp_ran = []"
  by (rule tp_exceptions_in_futures [OF tp_ran_reach, of 0 0]) (simp_all add: tp_ran_def tp_run_def)

text \<open>Who is inside a critical section: a worker that holds the lock, or a call of \<open>enqueue\<close> that does.\<close>

fun tp_inside :: "('t, 'e, 'r) pool \<Rightarrow> holder \<Rightarrow> bool" where
  "tp_inside s (Worker i) \<longleftrightarrow> i < length (tp_workers s) \<and> w_holds (tp_workers s ! i)"
| "tp_inside s (Client c) \<longleftrightarrow> c_holds (tp_clients s c)"

lemma inside_mutex: "tp_locks s \<Longrightarrow> tp_inside s a \<longleftrightarrow> tp_mutex s = Some a"
  by (cases a) (simp_all add: locksD)

lemma inside_touches:
  "wk_step run i s t \<Longrightarrow> tp_tasks t \<noteq> tp_tasks s \<Longrightarrow> tp_inside s (Worker i)"
  "en_step c s t \<Longrightarrow> tp_tasks t \<noteq> tp_tasks s \<Longrightarrow> tp_inside s (Client c)"
  "own_step s t \<Longrightarrow> tp_tasks t = tp_tasks s" "tp_spurious s t \<Longrightarrow> tp_tasks t = tp_tasks s"
  by (auto elim!: wk_step.cases en_step.cases own_step.cases tp_spurious.cases)

text \<open>
  C30. The queue is only touched by one thread at a time and never read when it is empty. Of all
  workers and all calls of \<open>enqueue\<close>, those nested in tasks included, at most one is inside its
  critical section; a step that changes the queue is one of the thread inside; and a worker
  whose \<open>wait\<close> has returned finds a task or a stop request, so that \<open>front\<close> and \<open>pop\<close> have an
  element.
\<close>

theorem tp_mutual_exclusion:
  assumes "reach tp_init (tp_any_step run) s"
  shows "(\<forall>a b. tp_inside s a \<longrightarrow> tp_inside s b \<longrightarrow> a = b)
    \<and> (\<forall>t. tp_any_step run s t \<longrightarrow> tp_tasks t \<noteq> tp_tasks s \<longrightarrow>
        (\<exists>i. wk_step run i s t \<and> tp_inside s (Worker i)) \<or> (\<exists>c. en_step c s t \<and> tp_inside s (Client c)))
    \<and> (\<forall>i < length (tp_workers s). tp_workers s ! i = W_check \<longrightarrow> tp_stop s i \<or> tp_tasks s \<noteq> [])"
proof -
  have "tp_inv run s" by (rule pool_inv [OF assms(1)])
  note I = tp_invD [OF this]
  have "a = b" if "tp_inside s a" "tp_inside s b" for a b using that by (simp add: inside_mutex [OF I(1)])
  moreover have "(\<exists>i. wk_step run i s t \<and> tp_inside s (Worker i)) \<or> (\<exists>c. en_step c s t \<and> tp_inside s (Client c))"
    if "tp_any_step run s t" "tp_tasks t \<noteq> tp_tasks s" for t
    using that inside_touches unfolding tp_any_step_def tp_step_def by metis
  ultimately show ?thesis using knowsD(1) [OF I(2)] by blast
qed

text \<open>
  C29. No task is forgotten: whenever the queue is not empty, either an \<open>enqueue\<close> call is about to
  notify, or some worker is neither blocked nor about to block, so that it will come back to
  the queue.
\<close>

theorem tp_tasks_attended:
  assumes "reach tp_init (tp_any_step run) s" and "tp_tasks s \<noteq> []"
  shows "(\<exists>c. tp_clients s c = C_notify) \<or> (\<exists>i < length (tp_workers s). w_awake (tp_workers s ! i))"
proof -
  have "tp_inv run s" by (rule pool_inv [OF assms(1)])
  from tp_invD(5) [OF this] assms(2) show ?thesis by (simp add: tp_attended_def)
qed

theorem tp_mutual_exclusion_witness: "tp_inside tp_found (Worker 0) \<and> \<not> tp_inside tp_found (Client (Thread 3))"
proof -
  have "tp_inside tp_found (Worker 0)" by (simp add: tp_found_def tp_ctor_def)
  with tp_mutual_exclusion [OF tp_found_reach] show ?thesis by blast
qed

theorem tp_tasks_attended_witness: "\<exists>i < length (tp_workers tp_found). w_awake (tp_workers tp_found ! i)"
  using tp_tasks_attended [OF tp_found_reach] by (auto simp: tp_found_def tp_ctor_def)

lemma holder_runs:
  assumes "tp_inv run s" and "tp_mutex s \<noteq> None"
  shows "\<exists>t. tp_step run s t"
proof -
  note I = tp_invD [OF assms(1)]
  obtain h where "tp_mutex s = Some h" using assms(2) by blast
  then consider i where "i < length (tp_workers s)" "w_holds (tp_workers s ! i)" | c where "c_holds (tp_clients s c)"
    using locksD [OF I(1)] by (cases h) blast+
  then show ?thesis
  proof cases
    case 1
    then have "\<exists>t. wk_step run i s t"
    proof (cases "tp_workers s ! i")
      case W_pred
      then show ?thesis using 1 wk_true [of i s] wk_false [of i s] by blast
    next
      case W_check
      then show ?thesis using 1 wk_exit [of i s] wk_take [of i s] knowsD(1) [OF I(2) 1(1)]
        by (cases "tp_tasks s") auto
    next
      case W_block
      then show ?thesis using 1 wk_block [of i s] by blast
    qed (use 1(2) in simp_all)
    then show ?thesis by (auto simp: tp_step_def)
  next
    case 2
    then obtain f t where "tp_clients s c = C_push f t" by (cases "tp_clients s c") auto
    then show ?thesis using en_push by (fastforce simp: tp_step_def)
  qed
qed

lemma stuck_clients:
  assumes inv: "tp_inv run s" and st: "stuck (tp_step run) s"
  shows "tp_mutex s = None" and "tp_clients s c = C_idle"
proof -
  show free: "tp_mutex s = None" using holder_runs [OF inv] st unfolding stuck_def by blast
  have no: "\<not> en_step c s t" for t using st by (auto simp: stuck_def tp_step_def)
  show "tp_clients s c = C_idle"
  proof (cases "tp_clients s c")
    case (C_lock f t)
    from en_lock [OF this free] no show ?thesis by blast
  next
    case (C_push f t)
    from en_push [OF this] no show ?thesis by blast
  next
    case C_notify
    then show ?thesis using en_notify [OF C_notify] en_nobody [OF C_notify] no by (metis in_set_conv_nth)
  qed
qed

lemma stuck_workers:
  assumes inv: "tp_inv run s" and st: "stuck (tp_step run) s" and i: "i < length (tp_workers s)"
  shows "tp_workers s ! i = W_wait \<or> tp_workers s ! i = W_done"
proof -
  note free = stuck_clients(1) [OF inv st]
  have no: "\<not> wk_step run i s t" for t using st by (auto simp: stuck_def tp_step_def)
  have "\<not> w_holds (tp_workers s ! i)" using locksD(1) [OF tp_invD(1) [OF inv], of i] free i by simp
  moreover have "tp_workers s ! i \<noteq> W_lock" using wk_lock [OF i _ free] no by blast
  moreover have "tp_workers s ! i \<noteq> W_run f t" for f t
    using wk_run [OF i _ stuck_clients(2) [OF inv st], where outcome = "run t" and escaped = None] no
    by (auto simp: packaged_call_def)
  ultimately show "tp_workers s ! i = W_wait \<or> tp_workers s ! i = W_done"
    by (cases "tp_workers s ! i") auto
qed

text \<open>
  C13. The pool can only come to a halt in one way other than having been destroyed: its owner
  joins a worker that is blocked in \<open>condition.wait\<close> although its stop was requested, with
  nobody holding the mutex and no task left.
\<close>

theorem tp_only_deadlock:
  assumes "reach tp_init (tp_any_step run) s" and "stuck (tp_step run) s" and "tp_owner s \<noteq> O_gone"
  shows "\<exists>k. tp_owner s = O_join k \<and> tp_workers s ! k = W_wait \<and> tp_stop s k \<and> tp_mutex s = None \<and> tp_tasks s = []"
proof -
  have inv: "tp_inv run s" by (rule pool_inv [OF assms(1)])
  note I = tp_invD [OF inv]
  note free = stuck_clients(1) [OF inv assms(2)] and idle = stuck_clients(2) [OF inv assms(2)]
  have no: "\<not> own_step s t" "\<not> en_step c s t" for c t using assms(2) by (auto simp: stuck_def tp_step_def)
  have life: "owner_ok (tp_owner s) (tp_thrown s) (tp_threads s) (tp_workers s) (tp_stop s)"
    using I(6) by (simp add: tp_life_def)
  have alive: "tp_owner s \<noteq> O_alive" using en_call [OF refl _ idle] no(2) by blast
  have "tp_tasks s = []"
  proof (rule ccontr)
    assume "tp_tasks s \<noteq> []"
    then obtain i where "i < length (tp_workers s)" "w_awake (tp_workers s ! i)"
      using I(5) idle by (auto simp: tp_attended_def)
    then show False using stuck_workers [OF inv assms(2)] by fastforce
  qed
  moreover have "\<exists>k. tp_owner s = O_join k \<and> tp_workers s ! k = W_wait \<and> tp_stop s k"
  proof (cases "tp_owner s")
    case O_ctor
    then show ?thesis using own_spawn [OF O_ctor] own_ready [OF O_ctor] no life by (metis le_neq_implies_less owner_ok.simps(1))
  next
    case (O_stop k)
    then show ?thesis using own_stop [OF O_stop] own_stopped [OF O_stop] no by blast
  next
    case (O_destroy k)
    then show ?thesis using own_destroy [OF O_destroy] own_destroyed [OF O_destroy] no by blast
  next
    case (O_join k)
    then have k: "k < length (tp_workers s)" "tp_stop s k" using life by simp_all
    then have "tp_workers s ! k = W_wait" using stuck_workers [OF inv assms(2) k(1)] own_join [OF O_join k(1)] no by blast
    with O_join k show ?thesis by blast
  qed (use alive assms(3) own_notify_all no in blast)+
  ultimately show ?thesis using free by blast
qed
lemma stuckI:
  assumes "\<And>i t. \<not> wk_step run i s t" and "\<And>c t. \<not> en_step c s t" and "\<And>t. \<not> own_step s t"
  shows "stuck (tp_step run) s"
  using assms by (auto simp: stuck_def tp_step_def)

text \<open>
  C14. Destroying a pool can hang for ever: \<open>~ThreadPool\<close> requests the stops and notifies without
  holding \<open>queue_mutex\<close>, so a worker that has found its predicate false and has not blocked
  yet misses both; it then blocks, the destructor joins it, and no step of the program is
  left. Every task had been executed.
\<close>

theorem tp_dtor_hangs:
  "reach tp_init (tp_any_step tp_run) tp_hang \<and> stuck (tp_step tp_run) tp_hang \<and> tp_owner tp_hang = O_join 0
    \<and> tp_workers tp_hang = [W_wait] \<and> tp_stop tp_hang 0 \<and> tp_executed tp_hang = tp_pushed tp_hang"
proof -
  have "stuck (tp_step tp_run) tp_hang"
    by (rule stuckI) (auto simp: wk_step.simps en_step.simps own_step.simps tp_hang_def tp_ran_def)
  then show ?thesis using tp_hang_reach by (simp add: tp_hang_def tp_ran_def)
qed

text \<open>
  C36. A constructor that cannot start one of its threads can hang instead of throwing: the
  destructor of the pool does not run then, so nobody notifies the workers already blocked, and
  the destruction of \<open>workers\<close> joins the first of them for ever. This can happen for every number
  of threads and whichever thread but the first fails to start, when those before it have
  blocked by then.
\<close>

theorem tp_ctor_hangs:
  assumes "0 < k" and "k < unat (threads :: size_t)"
  shows "\<exists>s :: (nat, nat, nat) pool. reach tp_init (tp_any_step tp_run) s \<and> tp_threads s = unat threads
    \<and> stuck (tp_step tp_run) s \<and> tp_thrown s \<and> tp_owner s = O_join 0 \<and> tp_workers s = replicate k W_wait"
proof -
  have "\<not> wk_step tp_run i (tp_unwound threads k) t" for i t
    by (auto simp: wk_step.simps tp_unwound_def tp_dozed_def tp_ctor_def)
  moreover have "\<not> en_step c (tp_unwound threads k) t" for c t
    by (auto simp: en_step.simps tp_unwound_def tp_dozed_def tp_ctor_def)
  moreover have "\<not> own_step (tp_unwound threads k) t" for t
    using assms(1) by (auto simp: own_step.simps tp_unwound_def tp_dozed_def tp_ctor_def)
  ultimately have "stuck (tp_step tp_run) (tp_unwound threads k)" by (intro stuckI)
  moreover have "threads \<noteq> 0" using assms by auto
  ultimately show ?thesis using tp_unwound_reach [OF assms]
    by (intro exI [of _ "tp_unwound threads k"]) (simp add: tp_unwound_def tp_dozed_def tp_ctor_def)
qed

theorem tp_ctor_hangs_witness:
  "\<exists>s :: (nat, nat, nat) pool. stuck (tp_step tp_run) s \<and> tp_threads s = 4 \<and> tp_workers s = [W_wait, W_wait]"
proof -
  have "unat (4 :: size_t) = 4" by simp
  with tp_ctor_hangs [of 2 4] obtain s :: "(nat, nat, nat) pool" where
    "stuck (tp_step tp_run) s" "tp_threads s = 4" "tp_workers s = replicate 2 W_wait" by auto
  then show ?thesis by (intro exI [of _ s]) (simp add: numeral_2_eq_2)
qed

theorem tp_only_deadlock_witness: "\<exists>k. tp_owner tp_hang = O_join k \<and> tp_workers tp_hang ! k = W_wait"
proof -
  have "stuck (tp_step tp_run) tp_hang"
    by (rule stuckI) (auto simp: wk_step.simps en_step.simps own_step.simps tp_hang_def tp_ran_def)
  from tp_only_deadlock [OF tp_hang_reach this] show ?thesis by (auto simp: tp_hang_def)
qed

end
