(* ===== verification/TscClock.thy ===== *)
theory TscClock
  imports Prelude
begin

text \<open>
  The time-stamp clock of \<open>benchmark/TscClock.hpp\<close>: calibration, conversion of cycles to
  nanoseconds and time since the epoch, in the 64-bit arithmetic of the code; and the loop
  with which the producer of \<open>benchmark/TscBenchmarkMain.cpp\<close> paces itself. The readings of
  the counter and of \<open>steady_clock\<close> are arguments. \<open>None\<close> is a division by zero, which is
  undefined behaviour.
\<close>

section \<open>The clock\<close>

record tsc_clock =
  g_tsc_hz :: u64
  g_epoch_cycles :: u64

definition tsc_calibrate :: "u64 \<Rightarrow> u64 \<Rightarrow> u64 \<Rightarrow> u64 \<Rightarrow> tsc_clock \<Rightarrow> tsc_clock option" where
  "tsc_calibrate tsc0 ns0 tsc1 ns1 c =
     (let elapsed_ns = ns1 - ns0; elapsed_tsc = tsc1 - tsc0 in
      if elapsed_ns = 0 then None
      else Some (c\<lparr>g_tsc_hz := elapsed_tsc * 1000000000 div elapsed_ns\<rparr>))"

definition tsc_to_ns :: "tsc_clock \<Rightarrow> u64 \<Rightarrow> u64 option" where
  "tsc_to_ns c delta_cycles =
     (if g_tsc_hz c = 0 then None else Some (delta_cycles * 1000000000 div g_tsc_hz c))"

definition tsc_set_epoch :: "u64 \<Rightarrow> tsc_clock \<Rightarrow> tsc_clock" where
  "tsc_set_epoch now c = c\<lparr>g_epoch_cycles := now\<rparr>"

definition tsc_epoch_ns :: "tsc_clock \<Rightarrow> u64 \<Rightarrow> u64 option" where
  "tsc_epoch_ns c absolute_cycles = tsc_to_ns c (absolute_cycles - g_epoch_cycles c)"

text \<open>
  \<open>do { ts = produce_ts(); } while (ts < next_ns);\<close> with \<open>readings i\<close> the \<open>i\<close>-th reading of the
  counter; the comparison is of signed integers. \<open>None\<close>: the loop never ends.
\<close>

partial_function (option) tsc_pace :: "tsc_clock \<Rightarrow> (nat \<Rightarrow> u64) \<Rightarrow> u64 \<Rightarrow> nat \<Rightarrow> (u64 \<times> nat) option" where
  "tsc_pace c readings next_ns i =
     (case tsc_epoch_ns c (readings i) of
        None \<Rightarrow> None
      | Some ts \<Rightarrow> if sint ts < sint next_ns then tsc_pace c readings next_ns (Suc i) else Some (ts, Suc i))"

text \<open>
  The producer of the broadcast benchmark gives up after a million readings and moves the
  target back: the time stamp, the next reading and the new target.
\<close>

function tsc_spin :: "tsc_clock \<Rightarrow> (nat \<Rightarrow> u64) \<Rightarrow> u64 \<Rightarrow> nat \<Rightarrow> nat \<Rightarrow> (u64 \<times> nat) option" where
  "tsc_spin c readings next_ns spins i =
     (case tsc_epoch_ns c (readings i) of
        None \<Rightarrow> None
      | Some ts \<Rightarrow>
          if sint ts < sint next_ns \<and> Suc spins < 1000000 then tsc_spin c readings next_ns (Suc spins) (Suc i)
          else Some (ts, Suc i))"
  by pat_completeness auto

termination
  by (relation "measure (\<lambda>(_, _, _, spins, _). 1000000 - spins)") auto

declare tsc_spin.simps [simp del]

definition tsc_pace_resync ::
  "tsc_clock \<Rightarrow> (nat \<Rightarrow> u64) \<Rightarrow> u64 \<Rightarrow> u64 \<Rightarrow> nat \<Rightarrow> (u64 \<times> nat \<times> u64) option" where
  "tsc_pace_resync c readings rate_limit_ns next_ns i =
     (case tsc_spin c readings next_ns 0 i of
        None \<Rightarrow> None
      | Some (ts, j) \<Rightarrow>
          let next_ns = (if sint ts < sint next_ns then ts else next_ns)
          in Some (ts, j, next_ns + rate_limit_ns))"

section \<open>Ranges\<close>

lemma cycles_to_ns:
  "unat (d * 1000000000 :: u64) = unat d * 1000000000 mod 2 ^ 64"
  by (simp add: unat_word_ariths)

lemma tsc_to_ns_le:
  assumes "tsc_to_ns c d = Some v"
  shows "unat v \<le> (2 ^ 64 - 1) div unat (g_tsc_hz c)"
proof -
  have "unat v = unat (d * 1000000000) div unat (g_tsc_hz c)"
    using assms by (auto simp: tsc_to_ns_def unat_div split: if_splits)
  moreover have "unat (d * 1000000000 :: u64) \<le> 2 ^ 64 - 1" using unat_lt_2p64 [of "d * 1000000000"] by (simp add: less_Suc_eq_le [symmetric])
  ultimately show ?thesis by (simp only: div_le_mono)
qed

lemma tsc_to_ns_exact:
  assumes "tsc_to_ns c d = Some v" and "unat d \<le> 18446744073"
  shows "unat v = unat d * 1000000000 div unat (g_tsc_hz c)"
proof -
  have "unat d * 1000000000 < 2 ^ 64" using assms(2) by simp
  then have "unat (d * 1000000000) = unat d * 1000000000" unfolding cycles_to_ns by (rule mod_less)
  then show ?thesis using assms(1) by (auto simp: tsc_to_ns_def unat_div split: if_splits)
qed

lemma sint_of_small: "unat (w :: u64) < 2 ^ 63 \<Longrightarrow> sint w = int (unat w)"
proof -
  assume "unat w < 2 ^ 63"
  then have "int (unat w) < int (2 ^ 63)" by (simp only: of_nat_less_iff)
  then have "uint w < 2 ^ 63" by simp
  moreover have "- (2 ^ 63) \<le> uint w" by (rule order_trans [OF _ uint_ge_0]) simp
  ultimately have "signed_take_bit 63 (uint w) = uint w" by (intro signed_take_bit_int_eq_self)
  then show ?thesis by (simp add: sint_uint)
qed

text \<open>What the loop returns has reached the target.\<close>

lemma tsc_pace_result:
  assumes "tsc_pace c readings next_ns i = Some r"
  shows "\<exists>k. tsc_epoch_ns c (readings k) = Some (fst r) \<and> \<not> sint (fst r) < sint next_ns"
  by (rule tsc_pace.raw_induct [OF _ assms]) (auto split: option.splits if_splits)

lemma tsc_spin_returns:
  "g_tsc_hz c \<noteq> 0 \<Longrightarrow> spins < 1000000 \<Longrightarrow>
    \<exists>ts j. tsc_spin c readings next_ns spins i = Some (ts, j) \<and> i < j \<and> j \<le> i + (1000000 - spins)"
proof (induction c readings next_ns spins i rule: tsc_spin.induct)
  case (1 c readings next_ns spins i)
  obtain ts where ts: "tsc_epoch_ns c (readings i) = Some ts"
    using 1(2) by (simp add: tsc_epoch_ns_def tsc_to_ns_def)
  show ?case
  proof (cases "sint ts < sint next_ns \<and> Suc spins < 1000000")
    case True
    from 1(1) [OF ts True 1(2)] True obtain ts' j where
      "tsc_spin c readings next_ns (Suc spins) (Suc i) = Some (ts', j)" "Suc i < j" "j \<le> Suc i + (1000000 - Suc spins)"
      by blast
    moreover have "Suc i + (1000000 - Suc spins) = i + (1000000 - spins)" using True by linarith
    ultimately show ?thesis using ts True by (simp add: tsc_spin.simps [of c readings next_ns spins i])
  next
    case False
    then show ?thesis using ts 1(3) by (simp add: tsc_spin.simps [of c readings next_ns spins i]) linarith
  qed
qed

text \<open>Dividing by a quotient gives the divisor back when that is the smaller of the two.\<close>

lemma div_div_same: "0 < n \<Longrightarrow> n \<le> a div n \<Longrightarrow> a div (a div n) = (n :: nat)"
proof (rule div_nat_eqI)
  assume n: "0 < n" "n \<le> a div n"
  show "a div n * n \<le> a" by simp
  have "a = n * (a div n) + a mod n" by simp
  moreover have "a mod n < n" using n(1) by simp
  moreover have "a div n * Suc n = n * (a div n) + a div n" by (simp add: mult.commute)
  ultimately show "a < a div n * Suc n" using n(2) by linarith
qed

section \<open>Properties\<close>

text \<open>
  C37. Conversion to nanoseconds is exact up to 18446744073 cycles and wraps beyond: then the
  product with a billion exceeds \<open>2 ^ 64\<close>. Whatever the number of cycles, the result is at
  most \<open>(2 ^ 64 - 1) div g_tsc_hz\<close> nanoseconds, 6.1 s at 3 GHz.
\<close>

theorem tsc_to_ns_range:
  assumes "g_tsc_hz c \<noteq> 0"
  shows "\<exists>v. tsc_to_ns c d = Some v \<and> unat v \<le> (2 ^ 64 - 1) div unat (g_tsc_hz c)
    \<and> (if unat d \<le> 18446744073 then unat v = unat d * 1000000000 div unat (g_tsc_hz c)
       else unat v = unat d * 1000000000 mod 2 ^ 64 div unat (g_tsc_hz c))"
proof -
  obtain v where v: "tsc_to_ns c d = Some v" "v = d * 1000000000 div g_tsc_hz c"
    using assms by (simp add: tsc_to_ns_def)
  then have "unat v = unat d * 1000000000 mod 2 ^ 64 div unat (g_tsc_hz c)"
    by (simp only: unat_div cycles_to_ns)
  with v(1) tsc_to_ns_le [OF v(1)] tsc_to_ns_exact [OF v(1)] show ?thesis by auto
qed

theorem tsc_to_ns_range_witness:
  "\<exists>v. tsc_to_ns \<lparr>g_tsc_hz = 3000000000, g_epoch_cycles = 0\<rparr> 18446744074 = Some v \<and> unat v = 0"
  using tsc_to_ns_range [of "\<lparr>g_tsc_hz = 3000000000, g_epoch_cycles = 0\<rparr>" 18446744074] by auto

text \<open>
  A latency computed from two time stamps is the converted cycle difference, give or take one
  nanosecond: with both readings within 18446744073 cycles of the epoch the difference of the
  two \<open>epoch_ns\<close> values is \<open>to_ns\<close> of the cycle difference or one more.
\<close>

theorem tsc_epoch_difference:
  assumes "g_tsc_hz c \<noteq> 0" and "unat (t0 - g_epoch_cycles c) \<le> unat (t1 - g_epoch_cycles c)"
    and "unat (t1 - g_epoch_cycles c) \<le> 18446744073"
  shows "\<exists>e0 e1 d. tsc_epoch_ns c t0 = Some e0 \<and> tsc_epoch_ns c t1 = Some e1 \<and> tsc_to_ns c (t1 - t0) = Some d
    \<and> e0 \<le> e1 \<and> unat e1 - unat e0 - unat d \<le> 1 \<and> unat d \<le> unat e1 - unat e0"
proof -
  let ?h = "unat (g_tsc_hz c)" and ?a = "t0 - g_epoch_cycles c" and ?b = "t1 - g_epoch_cycles c"
  have "?b - ?a = t1 - t0" by simp
  then have diff: "unat (t1 - t0) = unat ?b - unat ?a" using unat_minus_le [OF assms(2)] by simp
  obtain e0 e1 d where e: "tsc_epoch_ns c t0 = Some e0" "tsc_epoch_ns c t1 = Some e1" "tsc_to_ns c (t1 - t0) = Some d"
    using assms(1) by (simp add: tsc_epoch_ns_def tsc_to_ns_def)
  have v: "unat e0 = unat ?a * 1000000000 div ?h" "unat e1 = unat ?b * 1000000000 div ?h"
    "unat d = (unat ?b * 1000000000 - unat ?a * 1000000000) div ?h"
    using tsc_to_ns_exact e assms(2,3) by (simp_all add: tsc_epoch_ns_def diff diff_mult_distrib)
  have h: "0 < ?h" using assms(1) by (simp add: unat_gt_0)
  have q: "x div ?h + (y - x) div ?h \<le> y div ?h \<and> y div ?h \<le> x div ?h + (y - x) div ?h + 1" if "x \<le> y" for x y
  proof -
    have y: "y div ?h = x div ?h + (y - x) div ?h + (x mod ?h + (y - x) mod ?h) div ?h"
      using div_add1_eq [of x "y - x" ?h] that by simp
    have "x mod ?h + (y - x) mod ?h < 2 * ?h" using mod_less_divisor [OF h, of x] mod_less_divisor [OF h, of "y - x"] by linarith
    then have "(x mod ?h + (y - x) mod ?h) div ?h < 2" by (simp add: less_mult_imp_div_less)
    with y show ?thesis by linarith
  qed
  have "unat ?a * 1000000000 \<le> unat ?b * 1000000000" using assms(2) by simp
  from q [OF this] have "unat e0 + unat d \<le> unat e1" "unat e1 \<le> unat e0 + unat d + 1" unfolding v by simp_all
  then show ?thesis using e by (auto simp: word_le_nat_alt)
qed

theorem tsc_epoch_difference_witness:
  "\<exists>e0 e1 d. tsc_epoch_ns \<lparr>g_tsc_hz = 3000000000, g_epoch_cycles = 100\<rparr> 102 = Some e0
    \<and> tsc_epoch_ns \<lparr>g_tsc_hz = 3000000000, g_epoch_cycles = 100\<rparr> 103 = Some e1
    \<and> tsc_to_ns \<lparr>g_tsc_hz = 3000000000, g_epoch_cycles = 100\<rparr> 1 = Some d \<and> unat e1 - unat e0 - unat d \<le> 1"
  using tsc_epoch_difference [of "\<lparr>g_tsc_hz = 3000000000, g_epoch_cycles = 100\<rparr>" 102 103] by auto

text \<open>
  C38. Calibration round trip: converting the cycles of the calibration interval itself gives back
  exactly its nanoseconds, when the measured frequency in Hz is at least the length of the
  interval in ns. For the 20 ms of \<open>calibrate\<close> that is any counter of 20 MHz or more. For a
  slower counter the result may be larger, but is never smaller.
\<close>

theorem tsc_calibrate_roundtrip:
  assumes "tsc_calibrate tsc0 ns0 tsc1 ns1 c = Some c'" and "g_tsc_hz c' \<noteq> 0"
    and "unat (tsc1 - tsc0) \<le> 18446744073"
  shows "\<exists>v. tsc_to_ns c' (tsc1 - tsc0) = Some v \<and> ns1 - ns0 \<le> v
    \<and> (ns1 - ns0 \<le> g_tsc_hz c' \<longrightarrow> v = ns1 - ns0)"
proof -
  let ?a = "unat (tsc1 - tsc0) * 1000000000" and ?n = "unat (ns1 - ns0)"
  have n: "ns1 - ns0 \<noteq> 0" and hz: "g_tsc_hz c' = (tsc1 - tsc0) * 1000000000 div (ns1 - ns0)"
    using assms(1) by (auto simp: tsc_calibrate_def Let_def split: if_splits)
  have "?a < 2 ^ 64" using assms(3) by simp
  then have h: "unat (g_tsc_hz c') = ?a div ?n" unfolding hz unat_div cycles_to_ns by simp
  obtain v where v: "tsc_to_ns c' (tsc1 - tsc0) = Some v" using assms(2) by (simp add: tsc_to_ns_def)
  have e: "unat v = ?a div (?a div ?n)" using tsc_to_ns_exact [OF v assms(3)] h by simp
  have pos: "0 < ?a div ?n" using assms(2) h by (simp add: word_eq_iff_unat)
  have "?n * (?a div ?n) \<le> ?a" by simp
  then have "?n \<le> unat v" unfolding e using pos by (simp only: less_eq_div_iff_mult_less_eq)
  moreover have "unat v = ?n" if "?n \<le> ?a div ?n"
    unfolding e using n that by (intro div_div_same) (simp add: word_eq_iff_unat)
  ultimately show ?thesis using v h by (auto simp: word_le_nat_alt word_eq_iff_unat)
qed

theorem tsc_calibrate_roundtrip_witness:
  "\<exists>v. tsc_to_ns \<lparr>g_tsc_hz = 2999999850, g_epoch_cycles = 0\<rparr> 60000000 = Some v \<and> v = 20000001"
proof -
  have "tsc_calibrate 5 7 60000005 20000008 \<lparr>g_tsc_hz = 0, g_epoch_cycles = 0\<rparr>
      = Some \<lparr>g_tsc_hz = 2999999850, g_epoch_cycles = 0\<rparr>"
    by (simp add: tsc_calibrate_def)
  from tsc_calibrate_roundtrip [OF this] show ?thesis by simp
qed

text \<open>
  The pacing loop of the TSC benchmark hangs once the target is beyond the range of
  \<open>epoch_ns\<close>: for a target above \<open>(2 ^ 64 - 1) div g_tsc_hz\<close> nanoseconds, 6.1 s after the
  epoch at 3 GHz, no sequence of readings of the counter ever ends the loop of
  \<open>run_benchmark\<close>. The loop of \<open>run_broadcast_benchmark\<close> returns for every target within a
  million readings.
\<close>

theorem tsc_pacing_hangs:
  assumes "2 \<le> unat (g_tsc_hz c)" and "int ((2 ^ 64 - 1) div unat (g_tsc_hz c)) < sint next_ns"
  shows "tsc_pace c readings next_ns i = None
    \<and> (\<exists>ts j next'. tsc_pace_resync c readings rate next_any i = Some (ts, j, next') \<and> j \<le> i + 1000000)"
proof -
  have "tsc_pace c readings next_ns i = None"
  proof (cases "tsc_pace c readings next_ns i")
    case (Some r)
    then obtain k where k: "tsc_epoch_ns c (readings k) = Some (fst r)" "\<not> sint (fst r) < sint next_ns"
      using tsc_pace_result by blast
    have le: "unat (fst r) \<le> (2 ^ 64 - 1) div unat (g_tsc_hz c)"
      using tsc_to_ns_le k(1) by (simp only: tsc_epoch_ns_def)
    also have "\<dots> \<le> (2 ^ 64 - 1) div 2" using assms(1) by (intro div_le_mono2) simp_all
    finally have "unat (fst r) < 2 ^ 63" by simp
    then have "sint (fst r) = int (unat (fst r))" by (rule sint_of_small)
    with le k(2) assms(2) show ?thesis by linarith
  qed
  moreover have "g_tsc_hz c \<noteq> 0" using assms(1) by auto
  then obtain ts j where "tsc_spin c readings next_any 0 i = Some (ts, j)" "j \<le> i + (1000000 - 0)"
    using tsc_spin_returns [of c 0 readings next_any i] by auto
  then have "\<exists>ts j next'. tsc_pace_resync c readings rate next_any i = Some (ts, j, next') \<and> j \<le> i + 1000000"
    by (simp add: tsc_pace_resync_def Let_def)
  ultimately show ?thesis ..
qed

theorem tsc_pacing_hangs_witness:
  "tsc_pace \<lparr>g_tsc_hz = 3000000000, g_epoch_cycles = 0\<rparr> (\<lambda>i. word_of_nat (300 * i)) 6200000000 0 = None"
  by (rule conjunct1 [OF tsc_pacing_hangs]) (simp_all add: sint_of_small)

end
