(* ===== verification/LatencyRecorder.thy ===== *)
theory LatencyRecorder
  imports Prelude "HOL-Library.Multiset"
begin

text \<open>
  \<open>LatencyRecorder\<close> of \<open>benchmark/LatencyRecorder.hpp\<close>: the samples with the flag that says
  they are sorted, recording, merging, percentiles, minimum, maximum, mean and the report.
  Floating-point arithmetic is a parameter: \<open>scale p n\<close> is the index
  \<open>static_cast<std::size_t>(p / 100.0 * n)\<close>, of which nothing is assumed, and the mean is
  given by its two operands, the accumulated sum and the number of samples.
\<close>

section \<open>State and operations\<close>

record recorder =
  lr_samples :: "u64 list"
  lr_sorted :: bool

definition lr_new :: recorder where
  "lr_new = \<lparr>lr_samples = [], lr_sorted = False\<rparr>"

definition lr_record :: "u64 \<Rightarrow> recorder \<Rightarrow> recorder" where
  "lr_record ns r = r\<lparr>lr_samples := lr_samples r @ [ns], lr_sorted := False\<rparr>"

definition lr_merge_from :: "recorder \<Rightarrow> recorder \<Rightarrow> recorder" where
  "lr_merge_from other r = r\<lparr>lr_samples := lr_samples r @ lr_samples other, lr_sorted := False\<rparr>"

definition lr_count :: "recorder \<Rightarrow> nat" where
  "lr_count r = length (lr_samples r)"

definition lr_empty :: "recorder \<Rightarrow> bool" where
  "lr_empty r \<longleftrightarrow> lr_samples r = []"

definition lr_ensure_sorted :: "recorder \<Rightarrow> recorder" where
  "lr_ensure_sorted r = (if lr_sorted r then r else r\<lparr>lr_samples := sort (lr_samples r), lr_sorted := True\<rparr>)"

definition lr_percentile :: "('p \<Rightarrow> nat \<Rightarrow> nat) \<Rightarrow> 'p \<Rightarrow> recorder \<Rightarrow> u64 \<times> recorder" where
  "lr_percentile scale p r =
     (if lr_samples r = [] then (0, r)
      else let r' = lr_ensure_sorted r;
               idx = scale p (length (lr_samples r'));
               idx = (if idx \<ge> length (lr_samples r') then length (lr_samples r') - 1 else idx)
           in (lr_samples r' ! idx, r'))"

definition lr_min_ns :: "recorder \<Rightarrow> u64 \<times> recorder" where
  "lr_min_ns r = (let r' = lr_ensure_sorted r in (if lr_samples r' = [] then 0 else hd (lr_samples r'), r'))"

definition lr_max_ns :: "recorder \<Rightarrow> u64 \<times> recorder" where
  "lr_max_ns r = (let r' = lr_ensure_sorted r in (if lr_samples r' = [] then 0 else last (lr_samples r'), r'))"

text \<open>\<open>std::accumulate\<close> adds in \<open>std::uint64_t\<close>; \<open>None\<close> is the 0.0 of an empty recorder.\<close>

definition lr_mean_ns :: "recorder \<Rightarrow> (u64 \<times> nat) option" where
  "lr_mean_ns r = (if lr_samples r = [] then None
     else Some (fold (\<lambda>x sum. sum + x) (lr_samples r) 0, length (lr_samples r)))"

text \<open>
  \<open>print_report\<close>: the lines printed, the recorder and the static flag \<open>header_printed_\<close>. The
  arguments of the row are sorted into place by \<open>ensure_sorted\<close> before they are evaluated, so
  their order of evaluation does not matter. \<open>ps\<close> stands for the six percentiles of the row.
\<close>

datatype ('l, 'p) line =
  No_data 'l
| Header
| Row 'l (row_min: u64) (row_mean: "(u64 \<times> nat) option") (row_percentiles: "('p \<times> u64) list") (row_max: u64)

definition lr_print_report ::
  "('p \<Rightarrow> nat \<Rightarrow> nat) \<Rightarrow> 'p list \<Rightarrow> 'l \<Rightarrow> recorder \<Rightarrow> bool \<Rightarrow> ('l, 'p) line list \<times> recorder \<times> bool" where
  "lr_print_report scale ps label r header_printed =
     (if lr_samples r = [] then ([No_data label], r, header_printed)
      else let r' = lr_ensure_sorted r in
        ((if header_printed then [] else [Header])
           @ [Row label (fst (lr_min_ns r')) (lr_mean_ns r')
                (map (\<lambda>p. (p, fst (lr_percentile scale p r'))) ps) (fst (lr_max_ns r'))],
         r', True))"

definition lr_reset_header :: "bool \<Rightarrow> bool" where
  "lr_reset_header header_printed = False"

section \<open>Invariant\<close>

text \<open>The flag is never set on samples that are not sorted.\<close>

definition lr_inv :: "recorder \<Rightarrow> bool" where
  "lr_inv r \<longleftrightarrow> (lr_sorted r \<longrightarrow> sorted (lr_samples r))"

lemma lr_ensure_sorted_samples: "lr_inv r \<Longrightarrow> lr_samples (lr_ensure_sorted r) = sort (lr_samples r)"
  by (simp add: lr_inv_def lr_ensure_sorted_def sorted_sort_id)

lemma lr_ensure_sorted_twice [simp]: "lr_ensure_sorted (lr_ensure_sorted r) = lr_ensure_sorted r"
  by (simp add: lr_ensure_sorted_def)

lemma lr_ensure_sorted_inv: "lr_inv r \<Longrightarrow> lr_inv (lr_ensure_sorted r)"
  by (simp add: lr_inv_def lr_ensure_sorted_def)

lemma lr_sort_Nil [simp]: "sort xs = [] \<longleftrightarrow> xs = []"
  by (metis set_empty set_sort)

text \<open>The sum does not depend on the order.\<close>

lemma fold_add_word: "fold (\<lambda>x sum. sum + x) xs (a :: u64) = a + sum_list xs"
  by (induction xs arbitrary: a) (simp_all add: algebra_simps)

lemma lr_sum: "fold (\<lambda>x sum. sum + x) xs (0 :: u64) = sum_mset (mset xs)"
  by (simp add: fold_add_word sum_mset_sum_list)

text \<open>How many samples lie below a position of a sorted list.\<close>

lemma sorted_below:
  assumes "sorted xs" and "i < length xs"
  shows "length (filter (\<lambda>x. x < xs ! i) xs) \<le> i" and "i < length (filter (\<lambda>x. x \<le> xs ! i) xs)"
proof -
  have xs: "xs = take i xs @ drop i xs" by simp
  have "filter (\<lambda>x. x < xs ! i) (drop i xs) = []"
    using assms by (auto simp: filter_empty_conv in_set_conv_nth sorted_iff_nth_mono not_less)
  then have "filter (\<lambda>x. x < xs ! i) xs = filter (\<lambda>x. x < xs ! i) (take i xs)"
    by (subst xs) (simp only: filter_append append_Nil2)
  also have "length \<dots> \<le> length (take i xs)" by (rule length_filter_le)
  finally show "length (filter (\<lambda>x. x < xs ! i) xs) \<le> i" by simp
  have "filter (\<lambda>x. x \<le> xs ! i) (take (Suc i) xs) = take (Suc i) xs"
    using assms by (auto simp: filter_id_conv in_set_conv_nth sorted_iff_nth_mono)
  moreover have "filter (\<lambda>x. x \<le> xs ! i) xs
      = filter (\<lambda>x. x \<le> xs ! i) (take (Suc i) xs) @ filter (\<lambda>x. x \<le> xs ! i) (drop (Suc i) xs)"
    by (metis append_take_drop_id filter_append)
  ultimately show "i < length (filter (\<lambda>x. x \<le> xs ! i) xs)" using assms(2) by simp
qed

lemma length_filter_sort: "length (filter P (sort xs)) = length (filter P xs)"
  by (metis mset_filter mset_sort size_mset)

section \<open>Properties\<close>

text \<open>
  C23. \<open>percentile\<close> returns an order statistic: on a recorder with samples, whatever index the
  floating-point product is truncated to, the value is a sample, and with that index cut to
  the last one, at most that many samples are smaller and more than that many are not
  larger; the samples stay the same up to their order, and an empty recorder gives 0.
\<close>

theorem lr_percentile_rank:
  fixes scale :: "'p \<Rightarrow> nat \<Rightarrow> nat" and p :: 'p
  assumes "lr_inv r"
  defines "n \<equiv> lr_count r" and "v \<equiv> fst (lr_percentile scale p r)"
  shows "if lr_empty r then v = 0 else v \<in> set (lr_samples r)
    \<and> length (filter (\<lambda>x. x < v) (lr_samples r)) \<le> min (scale p n) (n - 1)
    \<and> min (scale p n) (n - 1) < length (filter (\<lambda>x. x \<le> v) (lr_samples r))
    \<and> mset (lr_samples (snd (lr_percentile scale p r))) = mset (lr_samples r)
    \<and> lr_inv (snd (lr_percentile scale p r))"
proof (cases "lr_samples r = []")
  case False
  let ?xs = "sort (lr_samples r)" and ?i = "min (scale p n) (n - 1)"
  have xs: "lr_samples (lr_ensure_sorted r) = ?xs" using assms(1) by (rule lr_ensure_sorted_samples)
  have "?i \<le> n - 1" by simp
  moreover have "0 < n" using False by (simp add: n_def lr_count_def)
  ultimately have "?i < n" by linarith
  then have i: "?i < length ?xs" by (simp only: n_def lr_count_def length_sort)
  have "(if scale p n \<ge> n then n - 1 else scale p n) = ?i" by simp
  then have v: "v = ?xs ! ?i"
    using False by (simp add: v_def lr_percentile_def Let_def xs n_def lr_count_def)
  have "v \<in> set (lr_samples r)" using nth_mem [OF i] unfolding v by simp
  moreover have "mset (lr_samples (snd (lr_percentile scale p r))) = mset (lr_samples r)
      \<and> lr_inv (snd (lr_percentile scale p r))"
    using assms(1) False xs lr_ensure_sorted_inv by (simp add: lr_percentile_def Let_def)
  moreover note sorted_below [OF sorted_sort i, folded v, unfolded length_filter_sort]
  ultimately show ?thesis using False by (simp add: lr_empty_def)
qed (simp add: v_def lr_percentile_def lr_empty_def)

text \<open>The recorder of four samples.\<close>

definition lr_demo :: recorder where
  "lr_demo = fold lr_record [40, 10, 30, 20] lr_new"

lemma lr_demo_inv: "lr_inv lr_demo" "lr_samples lr_demo = [40, 10, 30, 20]"
  by (simp_all add: lr_demo_def lr_record_def lr_new_def lr_inv_def)

theorem lr_percentile_rank_witness: "fst (lr_percentile (\<lambda>p n. p * n div 100) 50 lr_demo) \<in> set [40, 10, 30, 20]"
  using lr_percentile_rank [OF lr_demo_inv(1), of "\<lambda>p n. p * n div 100" 50] by (simp add: lr_empty_def lr_demo_inv(2))

text \<open>
  C24. Recording in one recorder per thread and merging is the same as recording everything in
  one: when two recorders hold the same samples in any order, \<open>print_report\<close> prints the same
  lines for both; and merging adds up the samples.
\<close>

theorem lr_report_order_free:
  assumes "lr_inv r1" and "lr_inv r2" and "mset (lr_samples r1) = mset (lr_samples r2)"
  shows "fst (lr_print_report scale ps label r1 h) = fst (lr_print_report scale ps label r2 h)
    \<and> mset (lr_samples (lr_merge_from r1 r)) = mset (lr_samples r) + mset (lr_samples r2)
    \<and> lr_inv (lr_merge_from r1 r)"
proof -
  have "sort (lr_samples r1) = sort (lr_samples r2)" using assms(3) by (metis sorted_list_of_multiset_mset)
  then have s: "lr_samples (lr_ensure_sorted r1) = lr_samples (lr_ensure_sorted r2)"
    using assms(1,2) by (simp add: lr_ensure_sorted_samples)
  moreover have "lr_samples r1 = [] \<longleftrightarrow> lr_samples r2 = []" using assms(3) by (metis mset_zero_iff_right)
  ultimately show ?thesis
    using assms(3)
    by (simp add: lr_print_report_def Let_def lr_min_ns_def lr_max_ns_def lr_mean_ns_def lr_percentile_def
        lr_merge_from_def lr_inv_def)
qed


theorem lr_report_order_free_witness:
  "fst (lr_print_report (\<lambda>p n. p * n div 100) [50, 90] ''q'' lr_demo False)
   = fst (lr_print_report (\<lambda>p n. p * n div 100) [50, 90] ''q'' (fold lr_record [20, 30, 40, 10] lr_new) False)"
proof -
  have "lr_inv (fold lr_record [20, 30, 40, 10] lr_new)" by (simp add: lr_record_def lr_new_def lr_inv_def)
  moreover have "mset (lr_samples lr_demo) = mset (lr_samples (fold lr_record [20, 30, 40, 10] lr_new))"
    by (simp add: lr_demo_inv(2) lr_record_def lr_new_def add_mset_commute)
  ultimately show ?thesis by (rule conjunct1 [OF lr_report_order_free [OF lr_demo_inv(1)]])
qed

text \<open>
  The sum behind the mean is taken modulo \<open>2 ^ 64\<close>: it is the total of the samples exactly
  when that total is a \<open>std::uint64_t\<close>.
\<close>

lemma unat_sum_list: "unat (sum_list ws) = sum_list (map unat ws) mod 2 ^ 64" for ws :: "u64 list"
  by (induction ws) (simp_all add: unat_word_ariths mod_add_right_eq)

lemma lr_mean_sum:
  assumes "\<not> lr_empty r"
  shows "\<exists>sum. lr_mean_ns r = Some (sum, lr_count r) \<and> unat sum = sum_list (map unat (lr_samples r)) mod 2 ^ 64"
  using assms by (simp add: lr_mean_ns_def lr_empty_def lr_count_def fold_add_word unat_sum_list)

end
