(* ===== verification/Benchmark.thy ===== *)
theory Benchmark
  imports LatencyRecorder Spmc
begin

text \<open>
  \<open>run_benchmark\<close> of \<open>benchmark/BenchmarkMain.cpp\<close>: a producer that stamps and pushes
  \<open>warmup + measure\<close> items and any number of consumers that pop until the shared counter
  \<open>consumed\<close> says that all are gone, each with a latency recorder of its own, merged at the
  end. The queue is a pair of operations with the contract \<open>bounded_fifo\<close>, each call one
  step; the clock may return anything. \<open>bm_pushed\<close> and \<open>bm_popped\<close> are history, and
  \<open>bm_dropped\<close> counts the measured items whose latency was negative.
\<close>

section \<open>State and steps\<close>

record bench_item =
  enqueue_ns :: u64
  payload :: u64

datatype bm_producer =
  HP_loop nat | HP_push nat bench_item | HP_done

datatype bm_consumer =
  HC_loop | HC_pop
| HC_add bench_item            \<comment> \<open>\<open>consumed.fetch_add(1)\<close> is next\<close>
| HC_rec nat bench_item        \<comment> \<open>its result\<close>
| HC_done

record 'q bench =
  bm_queue :: 'q
  bm_consumed :: nat
  bm_prod :: bm_producer
  bm_cons :: "bm_consumer list"
  bm_recs :: "recorder list"
  bm_pushed :: "bench_item list"
  bm_popped :: "bench_item list"
  bm_dropped :: nat

definition bm_start :: "'q \<Rightarrow> nat \<Rightarrow> 'q bench" where
  "bm_start q n_consumers = \<lparr>bm_queue = q, bm_consumed = 0, bm_prod = HP_loop 0,
     bm_cons = replicate n_consumers HC_loop, bm_recs = replicate n_consumers lr_new,
     bm_pushed = [], bm_popped = [], bm_dropped = 0\<rparr>"

inductive bm_prod_step :: "(bench_item \<Rightarrow> 'q \<Rightarrow> bool \<times> 'q) \<Rightarrow> nat \<Rightarrow> 'q bench \<Rightarrow> 'q bench \<Rightarrow> bool"
  for enq tot where
  hp_stamp: "bm_prod s = HP_loop i \<Longrightarrow> i < tot \<Longrightarrow>
    bm_prod_step enq tot s (s\<lparr>bm_prod := HP_push i \<lparr>enqueue_ns = ts, payload = word_of_nat i\<rparr>\<rparr>)"
| hp_end: "bm_prod s = HP_loop i \<Longrightarrow> \<not> i < tot \<Longrightarrow>
    bm_prod_step enq tot s (s\<lparr>bm_prod := HP_done\<rparr>)"
| hp_push: "bm_prod s = HP_push i x \<Longrightarrow> enq x (bm_queue s) = (True, q) \<Longrightarrow>
    bm_prod_step enq tot s (s\<lparr>bm_queue := q, bm_pushed := bm_pushed s @ [x], bm_prod := HP_loop (Suc i)\<rparr>)"
| hp_retry: "bm_prod s = HP_push i x \<Longrightarrow> enq x (bm_queue s) = (False, q) \<Longrightarrow>
    bm_prod_step enq tot s (s\<lparr>bm_queue := q\<rparr>)"

text \<open>Consumer \<open>j\<close>; the relaxed load of \<open>consumed\<close> may return an earlier value.\<close>

inductive bm_cons_step ::
  "('q \<Rightarrow> bench_item option \<times> 'q) \<Rightarrow> nat \<Rightarrow> nat \<Rightarrow> nat \<Rightarrow> 'q bench \<Rightarrow> 'q bench \<Rightarrow> bool"
  for deq tot warmup j where
  hc_go: "j < length (bm_cons s) \<Longrightarrow> bm_cons s ! j = HC_loop \<Longrightarrow> k \<le> bm_consumed s \<Longrightarrow> k < tot \<Longrightarrow>
    bm_cons_step deq tot warmup j s (s\<lparr>bm_cons := (bm_cons s)[j := HC_pop]\<rparr>)"
| hc_stop: "j < length (bm_cons s) \<Longrightarrow> bm_cons s ! j = HC_loop \<Longrightarrow> k \<le> bm_consumed s \<Longrightarrow> \<not> k < tot \<Longrightarrow>
    bm_cons_step deq tot warmup j s (s\<lparr>bm_cons := (bm_cons s)[j := HC_done]\<rparr>)"
| hc_none: "j < length (bm_cons s) \<Longrightarrow> bm_cons s ! j = HC_pop \<Longrightarrow> deq (bm_queue s) = (None, q) \<Longrightarrow>
    bm_cons_step deq tot warmup j s (s\<lparr>bm_queue := q, bm_cons := (bm_cons s)[j := HC_loop]\<rparr>)"
| hc_item: "j < length (bm_cons s) \<Longrightarrow> bm_cons s ! j = HC_pop \<Longrightarrow> deq (bm_queue s) = (Some x, q) \<Longrightarrow>
    bm_cons_step deq tot warmup j s
      (s\<lparr>bm_queue := q, bm_popped := bm_popped s @ [x], bm_cons := (bm_cons s)[j := HC_add x]\<rparr>)"
| hc_add: "j < length (bm_cons s) \<Longrightarrow> bm_cons s ! j = HC_add x \<Longrightarrow>
    bm_cons_step deq tot warmup j s
      (s\<lparr>bm_consumed := Suc (bm_consumed s), bm_cons := (bm_cons s)[j := HC_rec (bm_consumed s) x]\<rparr>)"
| hc_warm: "j < length (bm_cons s) \<Longrightarrow> bm_cons s ! j = HC_rec n x \<Longrightarrow> \<not> n \<ge> warmup \<Longrightarrow>
    bm_cons_step deq tot warmup j s (s\<lparr>bm_cons := (bm_cons s)[j := HC_loop]\<rparr>)"
| hc_record: "j < length (bm_cons s) \<Longrightarrow> bm_cons s ! j = HC_rec n x \<Longrightarrow> n \<ge> warmup \<Longrightarrow>
    lat = now - enqueue_ns x \<Longrightarrow> sint lat \<ge> 0 \<Longrightarrow>
    bm_cons_step deq tot warmup j s
      (s\<lparr>bm_recs := (bm_recs s)[j := lr_record lat (bm_recs s ! j)], bm_cons := (bm_cons s)[j := HC_loop]\<rparr>)"
| hc_negative: "j < length (bm_cons s) \<Longrightarrow> bm_cons s ! j = HC_rec n x \<Longrightarrow> n \<ge> warmup \<Longrightarrow>
    lat = now - enqueue_ns x \<Longrightarrow> \<not> sint lat \<ge> 0 \<Longrightarrow>
    bm_cons_step deq tot warmup j s
      (s\<lparr>bm_dropped := Suc (bm_dropped s), bm_cons := (bm_cons s)[j := HC_loop]\<rparr>)"

definition bm_step ::
  "(bench_item \<Rightarrow> 'q \<Rightarrow> bool \<times> 'q) \<Rightarrow> ('q \<Rightarrow> bench_item option \<times> 'q) \<Rightarrow> nat \<Rightarrow> nat \<Rightarrow> 'q bench \<Rightarrow> 'q bench \<Rightarrow> bool" where
  "bm_step enq deq warmup tot s t \<longleftrightarrow>
     bm_prod_step enq tot s t \<or> (\<exists>j. bm_cons_step deq tot warmup j s t)"

text \<open>After the joins: the recorders merged into one.\<close>

definition bm_merged :: "'q bench \<Rightarrow> recorder" where
  "bm_merged s = fold lr_merge_from (bm_recs s) lr_new"

lemma merged_samples: "lr_samples (fold lr_merge_from rs r) = lr_samples r @ concat (map lr_samples rs)"
  by (induction rs arbitrary: r) (simp_all add: lr_merge_from_def)

lemma merged_count: "lr_count (fold lr_merge_from rs lr_new) = sum_list (map lr_count rs)"
  by (simp add: lr_count_def [abs_def] merged_samples lr_new_def length_concat comp_def)

section \<open>Invariant\<close>

fun hc_adding :: "bm_consumer \<Rightarrow> nat" where
  "hc_adding (HC_add x) = 1"
| "hc_adding _ = 0"

fun hc_pending :: "nat \<Rightarrow> bm_consumer \<Rightarrow> nat" where
  "hc_pending warmup (HC_rec n x) = (if warmup \<le> n then 1 else 0)"
| "hc_pending warmup _ = 0"

fun hp_pushed :: "nat \<Rightarrow> bm_producer \<Rightarrow> nat \<Rightarrow> bool" where
  "hp_pushed tot (HP_loop i) n \<longleftrightarrow> n = i \<and> i \<le> tot"
| "hp_pushed tot (HP_push i x) n \<longleftrightarrow> n = i \<and> i < tot \<and> payload x = word_of_nat i"
| "hp_pushed tot HP_done n \<longleftrightarrow> n = tot"

text \<open>Replacing one summand.\<close>

lemma sum_update: "j < length xs \<Longrightarrow> sum_list (map f (xs[j := y])) + f (xs ! j) = sum_list (map f xs) + (f y :: nat)"
proof (induction xs arbitrary: j)
  case (Cons x xs)
  then show ?case by (cases j) (auto simp: algebra_simps)
qed simp

lemma sum_same: "j < length xs \<Longrightarrow> f y = f (xs ! j) \<Longrightarrow> sum_list (map f (xs[j := y])) = (sum_list (map f xs) :: nat)"
  using sum_update [of j xs f y] by simp

definition bm_inv ::
  "('q \<Rightarrow> bench_item list) \<Rightarrow> ('q \<Rightarrow> bool) \<Rightarrow> nat \<Rightarrow> nat \<Rightarrow> 'q bench \<Rightarrow> bool" where
  "bm_inv view okq warmup tot s \<longleftrightarrow> okq (bm_queue s) \<and> bm_pushed s = bm_popped s @ view (bm_queue s)
     \<and> hp_pushed tot (bm_prod s) (length (bm_pushed s))
     \<and> map payload (bm_pushed s) = map word_of_nat [0..<length (bm_pushed s)]
     \<and> length (bm_recs s) = length (bm_cons s)
     \<and> bm_consumed s + sum_list (map hc_adding (bm_cons s)) = length (bm_popped s)
     \<and> sum_list (map lr_count (bm_recs s)) + bm_dropped s + sum_list (map (hc_pending warmup) (bm_cons s))
         = bm_consumed s - warmup
     \<and> (HC_done \<in> set (bm_cons s) \<longrightarrow> tot \<le> bm_consumed s)"

lemma bm_invI:
  assumes "okq (bm_queue s)" and "bm_pushed s = bm_popped s @ view (bm_queue s)"
    and "hp_pushed tot (bm_prod s) (length (bm_pushed s))"
    and "map payload (bm_pushed s) = map word_of_nat [0..<length (bm_pushed s)]"
    and "length (bm_recs s) = length (bm_cons s)"
    and "bm_consumed s + sum_list (map hc_adding (bm_cons s)) = length (bm_popped s)"
    and "sum_list (map lr_count (bm_recs s)) + bm_dropped s + sum_list (map (hc_pending warmup) (bm_cons s))
         = bm_consumed s - warmup"
    and "HC_done \<in> set (bm_cons s) \<Longrightarrow> tot \<le> bm_consumed s"
  shows "bm_inv view okq warmup tot s"
  unfolding bm_inv_def using assms by blast

lemma bm_invD:
  assumes "bm_inv view okq warmup tot s"
  shows "okq (bm_queue s)" "bm_pushed s = bm_popped s @ view (bm_queue s)"
    "hp_pushed tot (bm_prod s) (length (bm_pushed s))"
    "map payload (bm_pushed s) = map word_of_nat [0..<length (bm_pushed s)]"
    "length (bm_recs s) = length (bm_cons s)"
    "bm_consumed s + sum_list (map hc_adding (bm_cons s)) = length (bm_popped s)"
    "sum_list (map lr_count (bm_recs s)) + bm_dropped s + sum_list (map (hc_pending warmup) (bm_cons s))
         = bm_consumed s - warmup"
    "HC_done \<in> set (bm_cons s) \<Longrightarrow> tot \<le> bm_consumed s"
  using assms unfolding bm_inv_def by blast+

lemma bm_start_inv: "okq q \<Longrightarrow> view q = [] \<Longrightarrow> bm_inv view okq warmup tot (bm_start q n)"
  by (simp add: bm_inv_def bm_start_def sum_list_replicate lr_count_def lr_new_def set_replicate_conv_if)

text \<open>The queue of the benchmark: the contract of a bounded queue, for its items.\<close>

locale item_fifo = bounded_fifo enq deq view room inv
  for enq :: "bench_item \<Rightarrow> 'q \<Rightarrow> bool \<times> 'q"
    and deq :: "'q \<Rightarrow> bench_item option \<times> 'q"
    and view :: "'q \<Rightarrow> bench_item list"
    and room :: "'q \<Rightarrow> nat"
    and inv :: "'q \<Rightarrow> bool"
begin

lemma enq_cases:
  assumes "inv q" and "enq x q = (ok, q')"
  shows "inv q'" and "view q' = (if ok then view q @ [x] else view q)"
  using enq_inv [OF assms(1), of x] enq_view [OF assms(1), of x] assms(2) by (auto simp: fifo_enq_def split: if_splits)

lemma deq_cases:
  assumes "inv q" and "deq q = (r, q')"
  shows "inv q'" and "view q = (case r of None \<Rightarrow> [] | Some x \<Rightarrow> x # view q')" and "r = None \<Longrightarrow> view q' = []"
  using deq_inv [OF assms(1)] deq_view [OF assms(1)] assms(2) by (auto simp: fifo_deq_def split: list.splits)

lemma bm_prod_keeps:
  assumes step: "bm_prod_step enq tot s t" and I: "bm_inv view inv warmup tot s"
  shows "bm_inv view inv warmup tot t"
proof -
  note D = bm_invD [OF I]
  have same: "bm_cons t = bm_cons s" "bm_recs t = bm_recs s" "bm_popped t = bm_popped s"
    "bm_consumed t = bm_consumed s" "bm_dropped t = bm_dropped s"
    using step by (cases; simp)+
  have "inv (bm_queue t) \<and> bm_pushed t = bm_popped t @ view (bm_queue t)
      \<and> hp_pushed tot (bm_prod t) (length (bm_pushed t))
      \<and> map payload (bm_pushed t) = map word_of_nat [0..<length (bm_pushed t)]"
    using step
  proof cases
    case (hp_push i x q)
    have "length (bm_pushed s) = i" "payload x = word_of_nat i" using D(3) hp_push(2) by simp_all
    then have "map payload (bm_pushed s @ [x]) = map word_of_nat [0..<length (bm_pushed s @ [x])]"
      unfolding map_append D(4) by simp
    moreover have "hp_pushed tot (HP_loop (Suc i)) (length (bm_pushed s @ [x]))" using D(3) hp_push(2) by simp
    moreover have "bm_pushed s @ [x] = bm_popped s @ view q" using enq_cases(2) [OF D(1) hp_push(3)] D(2) by simp
    ultimately show ?thesis using enq_cases(1) [OF D(1) hp_push(3)] hp_push(1) by simp
  next
    case (hp_retry i x q)
    from enq_cases [OF D(1) hp_retry(3)] D(2-4) hp_retry show ?thesis by simp
  qed (use D(1-4) in simp_all)
  then show ?thesis using D(5-8) unfolding bm_inv_def same by blast
qed

lemma bm_cons_keeps:
  assumes step: "bm_cons_step deq tot warmup j s t" and I: "bm_inv view inv warmup tot s"
  shows "bm_inv view inv warmup tot t"
proof -
  note D = bm_invD [OF I]
  have j: "j < length (bm_cons s)" using step by cases simp_all
  have same: "bm_prod t = bm_prod s" "bm_pushed t = bm_pushed s" using step by (cases; simp)+
  have queue: "inv (bm_queue t) \<and> bm_pushed t = bm_popped t @ view (bm_queue t)"
    using step
  proof cases
    case (hc_none q)
    from deq_cases [OF D(1) hc_none(4)] D(2) hc_none show ?thesis by simp
  next
    case (hc_item x q)
    from deq_cases [OF D(1) hc_item(4)] D(2) hc_item show ?thesis by simp
  qed (use D(1,2) in simp_all)
  have move: "sum_list (map hc_adding ((bm_cons s)[j := c])) + hc_adding (bm_cons s ! j)
      = sum_list (map hc_adding (bm_cons s)) + hc_adding c"
    "sum_list (map (hc_pending warmup) ((bm_cons s)[j := c])) + hc_pending warmup (bm_cons s ! j)
      = sum_list (map (hc_pending warmup) (bm_cons s)) + hc_pending warmup c" for c
    using sum_update [OF j] by blast+
  have counted: "sum_list (map lr_count ((bm_recs s)[j := lr_record lat (bm_recs s ! j)]))
      = Suc (sum_list (map lr_count (bm_recs s)))" for lat
    using sum_update [of j "bm_recs s" lr_count "lr_record lat (bm_recs s ! j)"] j D(5)
    by (simp add: lr_count_def lr_record_def)
  have "length (bm_recs t) = length (bm_cons t)
      \<and> bm_consumed t + sum_list (map hc_adding (bm_cons t)) = length (bm_popped t)"
    using step
  proof cases
    case (hc_add x)
    then show ?thesis using D(5,6) move(1) [of "HC_rec (bm_consumed s) x"] by simp
  qed (use D(5,6) move in simp_all)
  moreover have "sum_list (map lr_count (bm_recs t)) + bm_dropped t + sum_list (map (hc_pending warmup) (bm_cons t))
      = bm_consumed t - warmup"
    using step
  proof cases
    case (hc_add x)
    then show ?thesis using D(7) move(2) [of "HC_rec (bm_consumed s) x"] by (simp split: if_splits)
  next
    case (hc_record n x lat now)
    then show ?thesis using D(7) move(2) [of HC_loop] counted by simp
  next
    case (hc_negative n x lat now)
    then show ?thesis using D(7) move(2) [of HC_loop] by simp
  qed (use D(7) move(2) in simp_all)
  moreover have "tot \<le> bm_consumed t" if "HC_done \<in> set (bm_cons t)"
  proof (cases "HC_done \<in> set (bm_cons s)")
    case True
    moreover have "bm_consumed s \<le> bm_consumed t" using step by cases simp_all
    ultimately show ?thesis using D(8) by linarith
  next
    case False
    then have "c = HC_done" if "HC_done \<in> set ((bm_cons s)[j := c])" for c
      using set_update_subset_insert [of "bm_cons s" j c] that by auto
    with step that show ?thesis by cases auto
  qed
  ultimately show ?thesis using queue D(3,4) unfolding bm_inv_def same by blast
qed

lemma bm_reach_inv:
  assumes "reach (\<lambda>s. s = bm_start q n) (bm_step enq deq warmup tot) s" and q: "inv q" "view q = []"
  shows "bm_inv view inv warmup tot s"
  using assms(1)
proof (induction rule: reach.induct)
  case (reach_init s)
  then show ?case using bm_start_inv [where okq = inv and view = view, OF q] by simp
next
  case (reach_step s t)
  then show ?case using bm_prod_keeps bm_cons_keeps unfolding bm_step_def by blast
qed

lemma bm_result:
  assumes "reach (\<lambda>s. s = bm_start q n) (bm_step enq deq warmup (warmup + msr)) s"
    and "inv q" and "view q = []" and stopped: "list_all (\<lambda>c. c = HC_done) (bm_cons s)" and "bm_cons s \<noteq> []"
  shows "map payload (bm_popped s) = map word_of_nat [0..<warmup + msr] \<and> bm_consumed s = warmup + msr
    \<and> view (bm_queue s) = [] \<and> lr_count (bm_merged s) + bm_dropped s = msr"
proof -
  note D = bm_invD [OF bm_reach_inv [OF assms(1-3)]]
  have "HC_done \<in> set (bm_cons s)" using assms(4,5) by (cases "bm_cons s") auto
  then have ge: "warmup + msr \<le> bm_consumed s" by (rule D(8))
  have zero: "sum_list (map hc_adding (bm_cons s)) = 0" "sum_list (map (hc_pending warmup) (bm_cons s)) = 0"
    using stopped by (auto simp: list_all_iff)
  have "length (bm_pushed s) \<le> warmup + msr" using D(3) by (cases "bm_prod s") simp_all
  moreover have "length (bm_pushed s) = length (bm_popped s) + length (view (bm_queue s))" using D(2) by simp
  ultimately have "length (view (bm_queue s)) = 0" and e: "length (bm_popped s) = warmup + msr" "bm_consumed s = warmup + msr"
    using D(6) ge zero(1) by linarith+
  then have "view (bm_queue s) = []" by simp
  moreover have "map payload (bm_popped s) = map word_of_nat [0..<warmup + msr]" using D(2,4) e calculation by simp
  ultimately show ?thesis using e D(7) zero(2) by (simp add: bm_merged_def merged_count)
qed

end
interpretation bench: item_fifo
  "spmc_enq :: bench_item \<Rightarrow> bench_item spmc \<Rightarrow> bool \<times> bench_item spmc" spmc_deq spmc_view spmc_room spmc_inv
  by unfold_locales

section \<open>A run\<close>

lemma bm_reach:
  "reach init (bm_step enq deq w n) s \<Longrightarrow> bm_prod_step enq n s t \<Longrightarrow> reach init (bm_step enq deq w n) t"
  "reach init (bm_step enq deq w n) s \<Longrightarrow> bm_cons_step deq n w j s t \<Longrightarrow> reach init (bm_step enq deq w n) t"
  by (auto simp: bm_step_def elim!: reach_step)

text \<open>One consumer, no warm-up, one item, stamped at 5 and received at 12.\<close>

definition bm_q0 :: "bench_item spmc" where
  "bm_q0 = \<lparr>q_capacity = 2, q_mask = 1,
     q_slots = [\<lparr>sl_sequence = 0, sl_storage = None\<rparr>, \<lparr>sl_sequence = 1, sl_storage = None\<rparr>], q_head = 0, q_tail = 0\<rparr>"

lemma bm_q0_ctor: "spmc_ctor 64 (\<lambda>_. True) 2 = Inr (Some bm_q0)"
  by (simp add: spmc_ctor_def allocate_slots_def replicate_2 spmc_check_and_round_capacity_def bit_ceil_values
      upt_rec bm_q0_def)

definition bm_demo :: "bench_item spmc bench" where
  "bm_demo = (bm_start (snd (spmc_deq (snd (spmc_enq \<lparr>enqueue_ns = 5, payload = 0\<rparr> bm_q0)))) 1)
     \<lparr>bm_consumed := 1, bm_prod := HP_loop 1, bm_cons := [HC_done], bm_recs := [lr_record 7 lr_new],
      bm_pushed := [\<lparr>enqueue_ns = 5, payload = 0\<rparr>], bm_popped := [\<lparr>enqueue_ns = 5, payload = 0\<rparr>]\<rparr>"

lemma bm_demo_reach: "reach (\<lambda>s. s = bm_start bm_q0 1) (bm_step spmc_enq spmc_deq 0 (0 + 1)) bm_demo"
proof -
  let ?x = "\<lparr>enqueue_ns = 5, payload = 0\<rparr>"
  define q1 where "q1 = snd (spmc_enq ?x bm_q0)"
  define q2 where "q2 = snd (spmc_deq q1)"
  have e: "spmc_enq ?x bm_q0 = (True, q1)" and d: "spmc_deq q1 = (Some ?x, q2)"
  proof -
    have inv: "spmc_inv bm_q0 \<and> spmc_view bm_q0 = [] \<and> spmc_room bm_q0 = 2"
      using spmc_ctor_ok [OF bm_q0_ctor] by (simp add: bm_q0_def)
    then have "fst (spmc_enq ?x bm_q0)" "spmc_view q1 = [?x]" "spmc_inv q1"
      using spmc_enq_spec [of bm_q0 ?x] by (simp_all add: q1_def fifo_enq_def)
    then show "spmc_enq ?x bm_q0 = (True, q1)" by (simp add: q1_def prod_eq_iff)
    show "spmc_deq q1 = (Some ?x, q2)"
      using spmc_deq_spec [OF \<open>spmc_inv q1\<close>] \<open>spmc_view q1 = [?x]\<close> by (simp add: q2_def prod_eq_iff fifo_deq_def)
  qed
  define s0 where "s0 = bm_start bm_q0 1"
  define s1 where "s1 = s0\<lparr>bm_prod := HP_push 0 ?x\<rparr>"
  define s2 where "s2 = s1\<lparr>bm_queue := q1, bm_pushed := [?x], bm_prod := HP_loop 1\<rparr>"
  define s3 where "s3 = s2\<lparr>bm_cons := [HC_pop]\<rparr>"
  define s4 where "s4 = s3\<lparr>bm_queue := q2, bm_popped := [?x], bm_cons := [HC_add ?x]\<rparr>"
  define s5 where "s5 = s4\<lparr>bm_consumed := 1, bm_cons := [HC_rec 0 ?x]\<rparr>"
  define s6 where "s6 = s5\<lparr>bm_recs := [lr_record 7 lr_new], bm_cons := [HC_loop]\<rparr>"
  note defs = s6_def s5_def s4_def s3_def s2_def s1_def s0_def bm_start_def
  have "bm_prod_step spmc_enq 1 s0 s1" by (simp add: bm_prod_step.simps defs)
  moreover have "bm_prod_step spmc_enq 1 s1 s2" by (simp add: bm_prod_step.simps defs e)
  moreover have "bm_cons_step spmc_deq 1 0 0 s2 s3" by (simp add: bm_cons_step.simps defs)
  moreover have "bm_cons_step spmc_deq 1 0 0 s3 s4" by (simp add: bm_cons_step.simps defs d)
  moreover have "bm_cons_step spmc_deq 1 0 0 s4 s5" by (simp add: bm_cons_step.simps defs)
  moreover have "bm_cons_step spmc_deq 1 0 0 s5 s6"
    using hc_record [of 0 s5 0 ?x 0 7 12 spmc_deq 1] by (simp add: defs)
  moreover have "bm_cons_step spmc_deq 1 0 0 s6 bm_demo"
    using hc_stop [of 0 s6 1 1 spmc_deq 0] by (simp add: defs bm_demo_def q2_def q1_def)
  moreover have "reach (\<lambda>s. s = bm_start bm_q0 1) (bm_step spmc_enq spmc_deq 0 1) s0"
    by (rule reach_init) (simp add: s0_def)
  ultimately have "reach (\<lambda>s. s = bm_start bm_q0 1) (bm_step spmc_enq spmc_deq 0 1) bm_demo"
    by (meson bm_reach)
  then show ?thesis by simp
qed

section \<open>Property\<close>

text \<open>
  The benchmark measures what it says: when every consumer thread has left its loop, all
  items were popped, in the order of their payloads and each once, the queue is empty, the
  counter is \<open>warmup + measure\<close>, and the merged recorder holds \<open>measure\<close> samples, less
  those with a negative latency, however the threads interleave and whatever the clock says.
\<close>

theorem bm_counts_every_item:
  assumes "spmc_ctor sz can_alloc capacity = Inr (Some q)"
    and "reach (\<lambda>s. s = bm_start q n) (bm_step spmc_enq spmc_deq warmup (warmup + msr)) s"
    and "list_all (\<lambda>c. c = HC_done) (bm_cons s)" and "bm_cons s \<noteq> []"
  shows "map payload (bm_popped s) = map word_of_nat [0..<warmup + msr] \<and> bm_consumed s = warmup + msr
    \<and> spmc_view (bm_queue s) = [] \<and> lr_count (bm_merged s) + bm_dropped s = msr"
  using bench.bm_result [OF assms(2) _ _ assms(3,4)] spmc_ctor_ok [OF assms(1)] by blast

theorem bm_counts_every_item_witness: "lr_count (bm_merged bm_demo) + bm_dropped bm_demo = 1"
  using bm_counts_every_item [OF bm_q0_ctor bm_demo_reach] by (simp add: bm_demo_def)

end
