(* ===== verification/Benchmark_Compete.thy ===== *)
theory Benchmark_Compete
  imports Benchmark Spmc_Concurrent
begin

text \<open>
  \<open>run_benchmark\<close> of \<open>benchmark/BenchmarkMain.cpp\<close> on the concurrent model of \<open>SPMCQueue\<close>: the
  threads of \<open>Benchmark\<close>, but \<open>try_emplace\<close> and \<open>try_pop\<close> are not single steps any more; inside
  them the threads move by the steps of \<open>Spmc_Concurrent\<close>, with its stale loads and failing
  compare-exchanges. What was pushed and popped is the history kept there. Copying an
  \<open>Item\<close> does not throw.
\<close>

section \<open>State and steps\<close>

record nb_bench =
  nb_sys :: "bench_item spmc_sys"
  nb_consumed :: nat
  nb_prod :: bm_producer
  nb_cons :: "bm_consumer list"
  nb_recs :: "recorder list"
  nb_dropped :: nat

definition nb_start :: "nat \<Rightarrow> bench_item spmc \<Rightarrow> nb_bench" where
  "nb_start n_consumers q = \<lparr>nb_sys = spmc_boot q, nb_consumed = 0, nb_prod = HP_loop 0,
     nb_cons = replicate n_consumers HC_loop, nb_recs = replicate n_consumers lr_new, nb_dropped = 0\<rparr>"

text \<open>In \<open>HP_push i x\<close> the producer retries \<open>try_emplace\<close>, in \<open>HC_pop\<close> a consumer is in \<open>try_pop\<close>.\<close>

inductive nb_prod_step :: "nat \<Rightarrow> nb_bench \<Rightarrow> nb_bench \<Rightarrow> bool" for tot where
  np_stamp: "nb_prod s = HP_loop i \<Longrightarrow> i < tot \<Longrightarrow>
    nb_prod_step tot s (s\<lparr>nb_prod := HP_push i \<lparr>enqueue_ns = ts, payload = word_of_nat i\<rparr>\<rparr>)"
| np_end: "nb_prod s = HP_loop i \<Longrightarrow> \<not> i < tot \<Longrightarrow> nb_prod_step tot s (s\<lparr>nb_prod := HP_done\<rparr>)"
| np_call: "nb_prod s = HP_push i x \<Longrightarrow> m_prod (nb_sys s) = MP_idle \<Longrightarrow> spmc_prod_step (nb_sys s) q \<Longrightarrow>
    m_prod q = MP_load_seq False x t \<Longrightarrow> nb_prod_step tot s (s\<lparr>nb_sys := q\<rparr>)"
| np_run: "nb_prod s = HP_push i x \<Longrightarrow> m_prod (nb_sys s) \<noteq> MP_idle \<Longrightarrow> spmc_prod_step (nb_sys s) q \<Longrightarrow>
    m_prod q \<noteq> MP_idle \<Longrightarrow> nb_prod_step tot s (s\<lparr>nb_sys := q\<rparr>)"
| np_false: "nb_prod s = HP_push i x \<Longrightarrow> m_prod (nb_sys s) = MP_check False y t seq \<Longrightarrow>
    spmc_prod_step (nb_sys s) q \<Longrightarrow> m_prod q = MP_idle \<Longrightarrow> nb_prod_step tot s (s\<lparr>nb_sys := q\<rparr>)"
| np_true: "nb_prod s = HP_push i x \<Longrightarrow> m_prod (nb_sys s) = MP_notify t \<Longrightarrow> spmc_prod_step (nb_sys s) q \<Longrightarrow>
    nb_prod_step tot s (s\<lparr>nb_sys := q, nb_prod := HP_loop (Suc i)\<rparr>)"

inductive nb_cons_step :: "nat \<Rightarrow> nat \<Rightarrow> nat \<Rightarrow> nb_bench \<Rightarrow> nb_bench \<Rightarrow> bool" for tot warmup j where
  nc_go: "j < length (nb_cons s) \<Longrightarrow> nb_cons s ! j = HC_loop \<Longrightarrow> k \<le> nb_consumed s \<Longrightarrow> k < tot \<Longrightarrow>
    nb_cons_step tot warmup j s (s\<lparr>nb_cons := (nb_cons s)[j := HC_pop]\<rparr>)"
| nc_stop: "j < length (nb_cons s) \<Longrightarrow> nb_cons s ! j = HC_loop \<Longrightarrow> k \<le> nb_consumed s \<Longrightarrow> \<not> k < tot \<Longrightarrow>
    nb_cons_step tot warmup j s (s\<lparr>nb_cons := (nb_cons s)[j := HC_done]\<rparr>)"
| nc_call: "j < length (nb_cons s) \<Longrightarrow> nb_cons s ! j = HC_pop \<Longrightarrow> m_cons (nb_sys s) j = MC_idle \<Longrightarrow>
    spmc_cons_step j (nb_sys s) q \<Longrightarrow> m_cons q j = MC_load_seq False h \<Longrightarrow>
    nb_cons_step tot warmup j s (s\<lparr>nb_sys := q\<rparr>)"
| nc_run: "j < length (nb_cons s) \<Longrightarrow> nb_cons s ! j = HC_pop \<Longrightarrow> m_cons (nb_sys s) j \<noteq> MC_idle \<Longrightarrow>
    spmc_cons_step j (nb_sys s) q \<Longrightarrow> m_cons q j \<noteq> MC_idle \<Longrightarrow>
    nb_cons_step tot warmup j s (s\<lparr>nb_sys := q\<rparr>)"
| nc_none: "j < length (nb_cons s) \<Longrightarrow> nb_cons s ! j = HC_pop \<Longrightarrow> m_cons (nb_sys s) j = MC_check False h seq \<Longrightarrow>
    spmc_cons_step j (nb_sys s) q \<Longrightarrow> m_cons q j = MC_idle \<Longrightarrow>
    nb_cons_step tot warmup j s (s\<lparr>nb_sys := q, nb_cons := (nb_cons s)[j := HC_loop]\<rparr>)"
| nc_item: "j < length (nb_cons s) \<Longrightarrow> nb_cons s ! j = HC_pop \<Longrightarrow> m_cons (nb_sys s) j = MC_notify h x \<Longrightarrow>
    spmc_cons_step j (nb_sys s) q \<Longrightarrow>
    nb_cons_step tot warmup j s (s\<lparr>nb_sys := q, nb_cons := (nb_cons s)[j := HC_add x]\<rparr>)"
| nc_add: "j < length (nb_cons s) \<Longrightarrow> nb_cons s ! j = HC_add x \<Longrightarrow>
    nb_cons_step tot warmup j s
      (s\<lparr>nb_consumed := Suc (nb_consumed s), nb_cons := (nb_cons s)[j := HC_rec (nb_consumed s) x]\<rparr>)"
| nc_warm: "j < length (nb_cons s) \<Longrightarrow> nb_cons s ! j = HC_rec n x \<Longrightarrow> \<not> n \<ge> warmup \<Longrightarrow>
    nb_cons_step tot warmup j s (s\<lparr>nb_cons := (nb_cons s)[j := HC_loop]\<rparr>)"
| nc_record: "j < length (nb_cons s) \<Longrightarrow> nb_cons s ! j = HC_rec n x \<Longrightarrow> n \<ge> warmup \<Longrightarrow>
    lat = now - enqueue_ns x \<Longrightarrow> sint lat \<ge> 0 \<Longrightarrow>
    nb_cons_step tot warmup j s
      (s\<lparr>nb_recs := (nb_recs s)[j := lr_record lat (nb_recs s ! j)], nb_cons := (nb_cons s)[j := HC_loop]\<rparr>)"
| nc_negative: "j < length (nb_cons s) \<Longrightarrow> nb_cons s ! j = HC_rec n x \<Longrightarrow> n \<ge> warmup \<Longrightarrow>
    lat = now - enqueue_ns x \<Longrightarrow> \<not> sint lat \<ge> 0 \<Longrightarrow>
    nb_cons_step tot warmup j s
      (s\<lparr>nb_dropped := Suc (nb_dropped s), nb_cons := (nb_cons s)[j := HC_loop]\<rparr>)"

definition nb_step :: "nat \<Rightarrow> nat \<Rightarrow> nb_bench \<Rightarrow> nb_bench \<Rightarrow> bool" where
  "nb_step warmup tot s t \<longleftrightarrow> nb_prod_step tot s t \<or> (\<exists>j. nb_cons_step tot warmup j s t)"

definition nb_merged :: "nb_bench \<Rightarrow> recorder" where
  "nb_merged s = fold lr_merge_from (nb_recs s) lr_new"

text \<open>What the consumers have popped, in the order in which their calls returned.\<close>

definition nb_popped :: "nb_bench \<Rightarrow> bench_item list" where
  "nb_popped s = map (snd \<circ> snd) (m_log (nb_sys s))"

section \<open>Invariant\<close>

text \<open>The item the producer carries, and whether it is visible already.\<close>

fun mprod_item :: "'a mprod \<Rightarrow> 'a option" where
  "mprod_item (MP_load_seq b x t) = Some x"
| "mprod_item (MP_check b x t seq) = Some x"
| "mprod_item (MP_wait x t seq) = Some x"
| "mprod_item (MP_parked x t seq) = Some x"
| "mprod_item (MP_construct x t) = Some x"
| "mprod_item (MP_store_seq x t) = Some x"
| "mprod_item _ = None"

fun mprod_sent :: "'a mprod \<Rightarrow> nat" where
  "mprod_sent (MP_store_tail t) = 1"
| "mprod_sent (MP_notify t) = 1"
| "mprod_sent _ = 0"

fun nb_prod_ok :: "nat \<Rightarrow> bench_item spmc_sys \<Rightarrow> bm_producer \<Rightarrow> bool" where
  "nb_prod_ok tot q (HP_loop i) \<longleftrightarrow> m_prod q = MP_idle \<and> length (m_pushed q) = i \<and> i \<le> tot"
| "nb_prod_ok tot q (HP_push i x) \<longleftrightarrow> length (m_pushed q) = i + mprod_sent (m_prod q) \<and> i < tot
     \<and> payload x = word_of_nat i \<and> (m_prod q \<noteq> MP_idle \<longrightarrow> mprod_sent (m_prod q) = 0 \<longrightarrow> mprod_item (m_prod q) = Some x)"
| "nb_prod_ok tot q HP_done \<longleftrightarrow> m_prod q = MP_idle \<and> length (m_pushed q) = tot"

definition nb_threads_ok :: "bm_consumer list \<Rightarrow> (nat \<Rightarrow> bench_item mcons) \<Rightarrow> bool" where
  "nb_threads_ok cs m \<longleftrightarrow> (\<forall>j. m j \<noteq> MC_idle \<longrightarrow> j < length cs \<and> cs ! j = HC_pop)"

definition nb_books_ok :: "nat \<Rightarrow> nat \<Rightarrow> nat \<Rightarrow> nb_bench \<Rightarrow> bool" where
  "nb_books_ok warmup tot popped s \<longleftrightarrow> length (nb_recs s) = length (nb_cons s)
     \<and> nb_consumed s + sum_list (map hc_adding (nb_cons s)) = popped
     \<and> sum_list (map lr_count (nb_recs s)) + nb_dropped s + sum_list (map (hc_pending warmup) (nb_cons s))
         = nb_consumed s - warmup
     \<and> (HC_done \<in> set (nb_cons s) \<longrightarrow> tot \<le> nb_consumed s)"

definition nb_inv :: "nat \<Rightarrow> nat \<Rightarrow> nb_bench \<Rightarrow> bool" where
  "nb_inv warmup tot s \<longleftrightarrow> spmc_sys_inv (nb_sys s) \<and> nb_prod_ok tot (nb_sys s) (nb_prod s)
     \<and> map payload (m_pushed (nb_sys s)) = map word_of_nat [0..<length (m_pushed (nb_sys s))]
     \<and> nb_threads_ok (nb_cons s) (m_cons (nb_sys s))
     \<and> nb_books_ok warmup tot (length (m_log (nb_sys s))) s"

lemma nb_invD:
  assumes "nb_inv warmup tot s"
  shows "spmc_sys_inv (nb_sys s)" "nb_prod_ok tot (nb_sys s) (nb_prod s)"
    "map payload (m_pushed (nb_sys s)) = map word_of_nat [0..<length (m_pushed (nb_sys s))]"
    "nb_threads_ok (nb_cons s) (m_cons (nb_sys s))" "nb_books_ok warmup tot (length (m_log (nb_sys s))) s"
    "length (m_pushed (nb_sys s)) \<le> tot"
proof -
  have "nb_prod_ok tot q pr \<Longrightarrow> length (m_pushed q) \<le> tot" for q pr
    by (cases pr; cases "m_prod q") simp_all
  then show "length (m_pushed (nb_sys s)) \<le> tot" using assms by (auto simp: nb_inv_def)
qed (use assms in \<open>simp_all add: nb_inv_def\<close>)

lemma nb_start_inv:
  assumes "spmc_ctor sz can_alloc capacity = Inr (Some q)"
  shows "nb_inv warmup tot (nb_start n q)"
proof -
  have "spmc_init (spmc_boot q)" unfolding spmc_init_def using assms by blast
  then have "spmc_sys_inv (spmc_boot q)" by (rule spmc_sys_inv_init)
  then show ?thesis
    by (simp add: nb_inv_def nb_start_def nb_books_ok_def nb_threads_ok_def spmc_boot_def sum_list_replicate
        lr_count_def lr_new_def set_replicate_conv_if)
qed

section \<open>The invariant holds\<close>

lemma wake_all_idle: "m_cons (wake_all k s) j = MC_idle \<longleftrightarrow> m_cons s j = MC_idle"
  by (auto simp: wake_all_def split: mcons.splits)

lemma mp_frame:
  assumes "spmc_prod_step s t"
  shows "m_log t = m_log s" "m_cons t j = MC_idle \<longleftrightarrow> m_cons s j = MC_idle"
    "m_pushed t = (case m_prod s of MP_store_seq x p \<Rightarrow> m_pushed s @ [x] | _ \<Rightarrow> m_pushed s)"
  using assms by (cases; simp add: set_seq_def set_storage_def wake_all_idle)+

lemma mp_item:
  assumes "spmc_prod_step s t" and "m_prod s \<noteq> MP_idle" and "m_prod t \<noteq> MP_idle"
  shows "length (m_pushed t) + mprod_sent (m_prod s) = length (m_pushed s) + mprod_sent (m_prod t)"
    and "mprod_sent (m_prod t) = 0 \<Longrightarrow> mprod_item (m_prod t) = mprod_item (m_prod s) \<and> mprod_sent (m_prod s) = 0"
  using assms by (cases; simp add: set_seq_def set_storage_def)+

lemma wake_one_frame:
  assumes "wake_one k s t"
  shows "m_prod t = MP_idle \<longleftrightarrow> m_prod s = MP_idle" "mprod_item (m_prod t) = mprod_item (m_prod s)"
    "mprod_sent (m_prod t) = mprod_sent (m_prod s)" "m_cons t j = MC_idle \<longleftrightarrow> m_cons s j = MC_idle"
    "m_pushed t = m_pushed s" "m_log t = m_log s"
  using assms by (cases; simp add: set_cons_def)+

lemma mc_frame:
  assumes "spmc_cons_step i s t"
  shows "m_pushed t = m_pushed s" "m_prod t = MP_idle \<longleftrightarrow> m_prod s = MP_idle"
    "mprod_item (m_prod t) = mprod_item (m_prod s)" "mprod_sent (m_prod t) = mprod_sent (m_prod s)"
    "j \<noteq> i \<Longrightarrow> m_cons t j = MC_idle \<longleftrightarrow> m_cons s j = MC_idle"
    "m_log t = (case m_cons s i of MC_notify h v \<Rightarrow> m_log s @ [(i, unat h, v)] | _ \<Rightarrow> m_log s)"
  using assms by (cases; simp add: set_cons_def set_seq_def set_storage_def wake_one_frame)+

lemma mc_notify_idle:
  assumes "spmc_cons_step i s t" and "m_cons s i = MC_notify h v"
  shows "m_cons t i = MC_idle"
  using assms by cases (simp_all add: set_cons_def)

lemma nb_prod_keeps:
  assumes step: "nb_prod_step tot s t" and I: "nb_inv warmup tot s" and bound: "tot < 2 ^ 63"
  shows "nb_inv warmup tot t"
proof -
  note D = nb_invD [OF I]
  have sys: "nb_inv warmup tot (s\<lparr>nb_sys := q, nb_prod := pr\<rparr>)"
    if q: "spmc_prod_step (nb_sys s) q" and ok: "nb_prod_ok tot q pr"
      and h: "map payload (m_pushed q) = map word_of_nat [0..<length (m_pushed q)]" for q pr
  proof -
    have "length (m_pushed q) \<le> tot" using ok by (cases pr; cases "m_prod q") simp_all
    then have "spmc_sys_inv q" using spmc_prod_keeps_inv [OF q D(1)] bound by simp
    moreover have "nb_threads_ok (nb_cons s) (m_cons q)" using D(4) mp_frame(2) [OF q] by (simp add: nb_threads_ok_def)
    ultimately show ?thesis using D(5) ok h mp_frame(1) [OF q] by (simp add: nb_inv_def nb_books_ok_def)
  qed
  have keep: "s\<lparr>nb_sys := q, nb_prod := nb_prod s\<rparr> = s\<lparr>nb_sys := q\<rparr>" for q by (cases s) simp
  from step show ?thesis
  proof cases
    case (np_call i x q t)
    have "m_pushed q = m_pushed (nb_sys s)" using mp_frame(3) [OF np_call(4)] np_call(3) by simp
    then have "nb_inv warmup tot (s\<lparr>nb_sys := q, nb_prod := nb_prod s\<rparr>)"
      using np_call(2,3,5) D(2,3) by (intro sys [OF np_call(4)]) simp_all
    then show ?thesis unfolding np_call(1) keep .
  next
    case (np_run i x q)
    note M = mp_item [OF np_run(4,3,5)]
    have P: "length (m_pushed (nb_sys s)) = i + mprod_sent (m_prod (nb_sys s))" "i < tot" "payload x = word_of_nat i"
      "mprod_sent (m_prod (nb_sys s)) = 0 \<Longrightarrow> mprod_item (m_prod (nb_sys s)) = Some x"
      using D(2) np_run(2,3) by simp_all
    have "map payload (m_pushed q) = map word_of_nat [0..<length (m_pushed q)]"
      using mp_frame(3) [OF np_run(4)] D(3) P(1,3,4) by (cases "m_prod (nb_sys s)") simp_all
    then have "nb_inv warmup tot (s\<lparr>nb_sys := q, nb_prod := nb_prod s\<rparr>)"
      using np_run(2) M P by (intro sys [OF np_run(4)]) simp_all
    then show ?thesis unfolding np_run(1) keep .
  next
    case (np_false i x y p seq q)
    have "m_pushed q = m_pushed (nb_sys s)" using mp_frame(3) [OF np_false(4)] np_false(3) by simp
    then have "nb_inv warmup tot (s\<lparr>nb_sys := q, nb_prod := nb_prod s\<rparr>)"
      using np_false(2,3,5) D(2,3) by (intro sys [OF np_false(4)]) simp_all
    then show ?thesis unfolding np_false(1) keep .
  next
    case (np_true i x p q)
    have "m_pushed q = m_pushed (nb_sys s)" using mp_frame(3) [OF np_true(4)] np_true(3) by simp
    moreover have "m_prod q = MP_idle" using np_true(4) by cases (use np_true(3) in simp_all)
    ultimately show ?thesis unfolding np_true(1)
      using np_true(2,3) D(2,3) by (intro sys [OF np_true(4)]) simp_all
  qed (use I in \<open>auto simp: nb_inv_def nb_books_ok_def\<close>)
qed

text \<open>A step of a consumer outside \<open>try_pop\<close>.\<close>

lemma nb_local:
  assumes I: "nb_inv warmup tot s" and j: "j < length (nb_cons s)" and c: "nb_cons s ! j \<noteq> HC_pop \<or> m_cons (nb_sys s) j = MC_idle"
    and books: "nb_books_ok warmup tot (length (m_log (nb_sys s))) t"
    and t: "nb_sys t = nb_sys s" "nb_prod t = nb_prod s" "nb_cons t = (nb_cons s)[j := c']"
  shows "nb_inv warmup tot t"
proof -
  note D = nb_invD [OF I]
  have "nb_threads_ok (nb_cons t) (m_cons (nb_sys t))"
    unfolding nb_threads_ok_def
  proof (intro allI impI)
    fix i assume "m_cons (nb_sys t) i \<noteq> MC_idle"
    then have "i < length (nb_cons s)" "nb_cons s ! i = HC_pop" "m_cons (nb_sys s) i \<noteq> MC_idle"
      using D(4) t(1) by (simp_all add: nb_threads_ok_def)
    then show "i < length (nb_cons t) \<and> nb_cons t ! i = HC_pop" using c t(3) by (cases "i = j") auto
  qed
  with D books t show ?thesis by (simp add: nb_inv_def)
qed

lemma nb_move:
  assumes "j < length (nb_cons s)"
  shows "sum_list (map hc_adding ((nb_cons s)[j := c])) + hc_adding (nb_cons s ! j)
      = sum_list (map hc_adding (nb_cons s)) + hc_adding c
    \<and> sum_list (map (hc_pending warmup) ((nb_cons s)[j := c])) + hc_pending warmup (nb_cons s ! j)
      = sum_list (map (hc_pending warmup) (nb_cons s)) + hc_pending warmup c
    \<and> (c \<noteq> HC_done \<longrightarrow> HC_done \<in> set ((nb_cons s)[j := c]) \<longrightarrow> HC_done \<in> set (nb_cons s))"
  using sum_update [OF assms] set_update_subset_insert [of "nb_cons s" j c] by blast

lemma nb_cons_keeps:
  assumes step: "nb_cons_step tot warmup j s t" and I: "nb_inv warmup tot s" and bound: "tot < 2 ^ 63"
  shows "nb_inv warmup tot t"
proof -
  note D = nb_invD [OF I]
  note B = D(5) [unfolded nb_books_ok_def]
  have sys: "nb_inv warmup tot (s\<lparr>nb_sys := q, nb_cons := cs\<rparr>)"
    if q: "spmc_cons_step j (nb_sys s) q" and books: "nb_books_ok warmup tot (length (m_log q)) (s\<lparr>nb_cons := cs\<rparr>)"
      and th: "nb_threads_ok cs (m_cons q)" for q cs
  proof -
    note F = mc_frame [OF q]
    have "spmc_sys_inv q" using spmc_cons_keeps_inv [OF q D(1)] D(6) F(1) bound by simp
    moreover have "nb_prod_ok tot q (nb_prod s)" using D(2) F(1-4) by (cases "nb_prod s") simp_all
    ultimately show ?thesis using D(3) F(1) books th by (simp add: nb_inv_def nb_books_ok_def)
  qed
  have th: "nb_threads_ok ((nb_cons s)[j := c]) (m_cons q)"
    if "j < length (nb_cons s)" "spmc_cons_step j (nb_sys s) q" "m_cons q j \<noteq> MC_idle \<longrightarrow> c = HC_pop" for q c
    unfolding nb_threads_ok_def
  proof (intro allI impI)
    fix i assume i: "m_cons q i \<noteq> MC_idle"
    show "i < length ((nb_cons s)[j := c]) \<and> (nb_cons s)[j := c] ! i = HC_pop"
    proof (cases "i = j")
      case False
      then show ?thesis using i D(4) mc_frame(5) [OF that(2) False] by (simp add: nb_threads_ok_def)
    qed (use that(1,3) i in simp)
  qed
  have keep: "s\<lparr>nb_sys := q, nb_cons := (nb_cons s)[j := nb_cons s ! j]\<rparr> = s\<lparr>nb_sys := q\<rparr>" for q by (cases s) simp
  have same: "nb_books_ok warmup tot (length (m_log q)) (s\<lparr>nb_cons := (nb_cons s)[j := c]\<rparr>)"
    if "j < length (nb_cons s)" "nb_cons s ! j = HC_pop" "c = HC_pop \<or> c = HC_loop" "length (m_log q) = length (m_log (nb_sys s))"
    for q :: "bench_item spmc_sys" and c
    using B nb_move [OF that(1), where c = c and warmup = warmup] that by (auto simp: nb_books_ok_def)
  from step show ?thesis
  proof cases
    case (nc_go k)
    then show ?thesis using B nb_move [OF nc_go(2), where c = HC_pop and warmup = warmup]
      by (intro nb_local [OF I nc_go(2)]) (auto simp: nb_books_ok_def)
  next
    case (nc_stop k)
    have "tot \<le> nb_consumed s" using nc_stop(4,5) by linarith
    then show ?thesis using B nb_move [OF nc_stop(2), where c = HC_done and warmup = warmup] nc_stop
      by (intro nb_local [OF I nc_stop(2)]) (simp_all add: nb_books_ok_def)
  next
    case (nc_call q h)
    have "m_log q = m_log (nb_sys s)" using mc_frame(6) [OF nc_call(5)] nc_call(4) by simp
    then have "nb_inv warmup tot (s\<lparr>nb_sys := q, nb_cons := (nb_cons s)[j := nb_cons s ! j]\<rparr>)"
      using nc_call by (intro sys [OF nc_call(5)] same th) simp_all
    then show ?thesis unfolding nc_call(1) keep .
  next
    case (nc_run q)
    have "\<nexists>h v. m_cons (nb_sys s) j = MC_notify h v" using mc_notify_idle [OF nc_run(5)] nc_run(6) by auto
    then have "m_log q = m_log (nb_sys s)" using mc_frame(6) [OF nc_run(5)] by (cases "m_cons (nb_sys s) j") auto
    then have "nb_inv warmup tot (s\<lparr>nb_sys := q, nb_cons := (nb_cons s)[j := nb_cons s ! j]\<rparr>)"
      using nc_run by (intro sys [OF nc_run(5)] same th) simp_all
    then show ?thesis unfolding nc_run(1) keep .
  next
    case (nc_none h seq q)
    have "m_log q = m_log (nb_sys s)" using mc_frame(6) [OF nc_none(5)] nc_none(4) by simp
    then show ?thesis unfolding nc_none(1) using nc_none by (intro sys [OF nc_none(5)] same th) simp_all
  next
    case (nc_item h x q)
    have "length (m_log q) = Suc (length (m_log (nb_sys s)))" using mc_frame(6) [OF nc_item(5)] nc_item(4) by simp
    moreover have "m_cons q j = MC_idle" using mc_notify_idle [OF nc_item(5,4)] .
    ultimately show ?thesis unfolding nc_item(1)
      using nc_item(2,3) B nb_move [OF nc_item(2), where c = "HC_add x" and warmup = warmup]
      by (intro sys [OF nc_item(5)] th [OF nc_item(2,5)]) (auto simp: nb_books_ok_def)
  next
    case (nc_add x)
    then show ?thesis using B nb_move [OF nc_add(2), where c = "HC_rec (nb_consumed s) x" and warmup = warmup]
      by (intro nb_local [OF I nc_add(2)]) (auto simp: nb_books_ok_def split: if_splits)
  next
    case (nc_warm n x)
    then show ?thesis using B nb_move [OF nc_warm(2), where c = HC_loop and warmup = warmup]
      by (intro nb_local [OF I nc_warm(2)]) (auto simp: nb_books_ok_def)
  next
    case (nc_record n x lat now)
    have "j < length (nb_recs s)" using B nc_record(2) by simp
    from sum_update [OF this, of lr_count "lr_record lat (nb_recs s ! j)"]
    have "sum_list (map lr_count ((nb_recs s)[j := lr_record lat (nb_recs s ! j)])) = Suc (sum_list (map lr_count (nb_recs s)))"
      by (simp add: lr_count_def lr_record_def)
    then show ?thesis using B nb_move [OF nc_record(2), where c = HC_loop and warmup = warmup] nc_record
      by (intro nb_local [OF I nc_record(2)]) (auto simp: nb_books_ok_def)
  next
    case (nc_negative n x lat now)
    then show ?thesis using B nb_move [OF nc_negative(2), where c = HC_loop and warmup = warmup]
      by (intro nb_local [OF I nc_negative(2)]) (auto simp: nb_books_ok_def)
  qed
qed

section \<open>Runs to the end\<close>

text \<open>The harness calls \<open>try_emplace\<close> and \<open>try_pop\<close> only: nobody ever blocks.\<close>

fun mp_try :: "'a mprod \<Rightarrow> bool" where
  "mp_try (MP_load_seq b x t) \<longleftrightarrow> \<not> b"
| "mp_try (MP_check b x t seq) \<longleftrightarrow> \<not> b"
| "mp_try (MP_wait x t seq) \<longleftrightarrow> False"
| "mp_try (MP_parked x t seq) \<longleftrightarrow> False"
| "mp_try _ \<longleftrightarrow> True"

fun mc_try :: "'a mcons \<Rightarrow> bool" where
  "mc_try (MC_load_seq b h) \<longleftrightarrow> \<not> b"
| "mc_try (MC_check b h seq) \<longleftrightarrow> \<not> b"
| "mc_try (MC_reload b) \<longleftrightarrow> \<not> b"
| "mc_try (MC_cas b h) \<longleftrightarrow> \<not> b"
| "mc_try (MC_wait h seq) \<longleftrightarrow> False"
| "mc_try (MC_parked h seq) \<longleftrightarrow> False"
| "mc_try _ \<longleftrightarrow> True"

definition never_blocks :: "'a spmc_sys \<Rightarrow> bool" where
  "never_blocks s \<longleftrightarrow> mp_try (m_prod s) \<and> (\<forall>i. mc_try (m_cons s i))"

lemma never_blocks_wake:
  assumes "never_blocks s"
  shows "wake_all k s = s" and "wake_one k s t \<longleftrightarrow> t = s"
proof -
  have n: "m_cons s i \<noteq> MC_parked h seq" "m_prod s \<noteq> MP_parked x p seq" for i h seq x p
    using assms unfolding never_blocks_def by (metis mc_try.simps(6)) (metis assms mp_try.simps(4) never_blocks_def)
  have "(\<lambda>i. case m_cons s i of MC_parked h seq \<Rightarrow> if slot_ix s h = k then MC_wait h seq else MC_parked h seq
      | pc \<Rightarrow> pc) = m_cons s"
    using n(1) by (auto simp: fun_eq_iff split: mcons.splits)
  then show "wake_all k s = s" by (simp add: wake_all_def)
  show "wake_one k s t \<longleftrightarrow> t = s" using n by (auto simp: wake_one.simps)
qed

lemma never_blocks_prod:
  assumes "spmc_prod_step s t" and "never_blocks s" and "m_prod s = MP_idle \<Longrightarrow> mp_try (m_prod t)"
  shows "never_blocks t"
  using assms(1)
proof cases
  case (mp_notify p)
  then show ?thesis using assms(2) never_blocks_wake(1) [OF assms(2)] by (simp add: never_blocks_def)
qed (use assms(2,3) in \<open>auto simp: never_blocks_def set_seq_def set_storage_def\<close>)

lemma never_blocks_cons:
  assumes "spmc_cons_step i s t" and "never_blocks s" and "m_cons s i = MC_idle \<Longrightarrow> mc_try (m_cons t i)"
  shows "never_blocks t"
proof -
  have old: "mp_try (m_prod s)" "mc_try (m_cons s j)" for j using assms(2) by (simp_all add: never_blocks_def)
  have "mc_try (m_cons t i) \<and> m_prod t = m_prod s \<and> (\<forall>j. j \<noteq> i \<longrightarrow> m_cons t j = m_cons s j)"
    using assms(1)
  proof cases
    case (mc_notify h v s')
    then show ?thesis using never_blocks_wake(2) [OF assms(2)] by (simp add: set_cons_def)
  qed (use old(2) [of i] assms(3) in \<open>simp_all add: set_cons_def set_seq_def set_storage_def\<close>)
  then show ?thesis using old unfolding never_blocks_def by metis
qed

lemma nb_never_blocks: "nb_step warmup tot s t \<Longrightarrow> never_blocks (nb_sys s) \<Longrightarrow> never_blocks (nb_sys t)"
  unfolding nb_step_def
  by (auto elim!: nb_prod_step.cases nb_cons_step.cases intro: never_blocks_prod never_blocks_cons)

text \<open>
  Ranks for a schedule in which loads return the latest value: a consumer is closer to its end
  the further it is in a removal that will succeed, and a stale attempt comes before that.
\<close>

fun mc_rank :: "size_t \<Rightarrow> nat \<Rightarrow> 'a mcons \<Rightarrow> nat" where
  "mc_rank hp T MC_idle = 8"
| "mc_rank hp T (MC_load_seq b h) = (if h = hp then 7 else 20)"
| "mc_rank hp T (MC_check b h seq) =
     (if h = hp \<and> (if unat hp < T then seq - (h + 1) = 0 else seq - (h + 1) \<noteq> 0 \<and> seq - (h + 1) > (- 1) div 2)
      then 6 else 19)"
| "mc_rank hp T (MC_cas b h) = (if h = hp then 5 else 18)"
| "mc_rank hp T (MC_reload b) = 18"
| "mc_rank hp T (MC_move h) = 14"
| "mc_rank hp T (MC_release h v) = 13"
| "mc_rank hp T (MC_notify h v) = 12"
| "mc_rank hp T (MC_wait h seq) = 0"
| "mc_rank hp T (MC_parked h seq) = 0"

fun nb_crank :: "size_t \<Rightarrow> nat \<Rightarrow> bench_item mcons \<Rightarrow> bm_consumer \<Rightarrow> nat" where
  "nb_crank hp T m HC_pop = mc_rank hp T m"
| "nb_crank hp T m HC_loop = (if unat hp < T then 9 else 1)"
| "nb_crank hp T m (HC_add x) = 11"
| "nb_crank hp T m (HC_rec n x) = 10"
| "nb_crank hp T m HC_done = 0"

definition nb_rank_at :: "nb_bench \<Rightarrow> nat \<Rightarrow> nat" where
  "nb_rank_at s j = nb_crank (m_head (nb_sys s)) (length (m_pushed (nb_sys s))) (m_cons (nb_sys s) j) (nb_cons s ! j)"

definition nb_closer :: "nat \<Rightarrow> nb_bench \<Rightarrow> nb_bench \<Rightarrow> bool" where
  "nb_closer j s t \<longleftrightarrow> m_pushed (nb_sys t) = m_pushed (nb_sys s) \<and> length (nb_cons t) = length (nb_cons s)
     \<and> (unat (m_head (nb_sys s)) < unat (m_head (nb_sys t))
        \<or> m_head (nb_sys t) = m_head (nb_sys s) \<and> nb_rank_at t j < nb_rank_at s j
          \<and> (\<forall>i. i \<noteq> j \<longrightarrow> nb_rank_at t i = nb_rank_at s i))"

lemma nb_try_moves:
  assumes inv: "spmc_sys_inv s" and nb: "never_blocks s" and busy: "m_cons s j \<noteq> MC_idle"
  shows "\<exists>t. spmc_cons_step j s t \<and> m_pushed t = m_pushed s \<and> (\<forall>i. i \<noteq> j \<longrightarrow> m_cons t i = m_cons s i)
    \<and> (unat (m_head s) < unat (m_head t) \<and> m_cons t j \<noteq> MC_idle \<or> m_head t = m_head s
        \<and> (m_cons t j \<noteq> MC_idle \<longrightarrow> mc_rank (m_head s) (length (m_pushed s)) (m_cons t j)
              < mc_rank (m_head s) (length (m_pushed s)) (m_cons s j))
        \<and> (m_cons t j = MC_idle \<longrightarrow> (\<exists>h v. m_cons s j = MC_notify h v) \<or>
            (\<exists>h seq. m_cons s j = MC_check False h seq)
            \<and> (unat (m_head s) < length (m_pushed s) \<longrightarrow> mc_rank (m_head s) (length (m_pushed s)) (m_cons s j) = 19)))"
proof -
  note I = spmc_sys_invD [OF inv]
  let ?H = "unat (m_head s)" and ?T = "length (m_pushed s)"
  have tries: "mc_try (m_cons s j)" using nb by (simp add: never_blocks_def)
  have here: "m_cons (set_cons j pc r) j = pc" "\<And>i. i \<noteq> j \<Longrightarrow> m_cons (set_cons j pc r) i = m_cons r i"
    "m_pushed (set_cons j pc r) = m_pushed r" "m_head (set_cons j pc r) = m_head r" for pc and r :: "'a spmc_sys"
    by (simp_all add: set_cons_def)
  show ?thesis
  proof (cases "m_cons s j")
    case (MC_load_seq b h)
    let ?v = "slot_seq s h"
    have step: "spmc_cons_step j s (set_cons j (MC_check b h ?v) s)" by (rule mc_load [OF MC_load_seq order_refl])
    have "mc_rank (m_head s) ?T (MC_check b h ?v) < mc_rank (m_head s) ?T (MC_load_seq b h)"
    proof (cases "h = m_head s")
      case True
      show ?thesis
      proof (cases "?H < ?T")
        case True
        then have "unat ?v = Suc ?H" using slots_okD(4) [OF I(5), of ?H] I(10) [of h] \<open>h = m_head s\<close> by simp
        then have "unat ?v = unat (h + 1)" using head_not_max [OF inv] \<open>h = m_head s\<close> by simp
        then have "?v = h + 1" by (simp only: word_eq_iff_unat)
        with \<open>h = m_head s\<close> True show ?thesis by simp
      next
        case False
        then have e: "?H = ?T" using I(9) by simp
        then have le: "unat ?v \<le> unat h" using slots_seq_top [OF I(5,2)] I(10) [of h] \<open>h = m_head s\<close> by simp
        then have "?v - (h + 1) > (- 1) div 2"
          using diff_behind [of h ?v] e I(4) \<open>h = m_head s\<close> by simp
        moreover have "?v - (h + 1) \<noteq> 0" using le head_not_max [OF inv] \<open>h = m_head s\<close> by auto
        ultimately show ?thesis using e \<open>h = m_head s\<close> by (simp del: word_div_no)
      qed
    qed simp
    with step MC_load_seq here show ?thesis by (intro exI [of _ "set_cons j (MC_check b h ?v) s"]) simp
  next
    case (MC_check b h seq)
    then have b: "b = False" using tries by simp
    show ?thesis
    proof (cases "seq - (h + 1) = 0")
      case True
      from mc_ready [OF MC_check True] MC_check True here show ?thesis
        by (intro exI [of _ "set_cons j (MC_cas b h) s"]) simp
    next
      case ne: False
      show ?thesis
      proof (cases "seq - (h + 1) > (- 1) div 2")
        case True
        from mc_empty [OF MC_check [unfolded b] ne True] MC_check b ne here show ?thesis
          by (intro exI [of _ "set_cons j MC_idle s"]) (simp del: word_div_no)
      next
        case False
        from mc_stale [OF MC_check ne False] MC_check ne False here show ?thesis
          by (intro exI [of _ "set_cons j (MC_reload b) s"]) (auto simp del: word_div_no)
      qed
    qed
  next
    case (MC_reload b)
    from mc_reload [OF MC_reload order_refl] MC_reload here show ?thesis
      by (intro exI [of _ "set_cons j (MC_load_seq b (m_head s)) s"]) simp
  next
    case (MC_cas b h)
    show ?thesis
    proof (cases "m_head s = h")
      case True
      from mc_cas_ok [OF MC_cas True] here head_not_max [OF inv] True show ?thesis
        by (intro exI [of _ "set_cons j (MC_move h) (s\<lparr>m_head := h + 1\<rparr>)"]) simp
    next
      case False
      from mc_cas_fail [OF MC_cas order_refl] MC_cas False here show ?thesis
        by (intro exI [of _ "set_cons j (MC_load_seq b (m_head s)) s"]) simp
    qed
  next
    case (MC_move h)
    then have "holds (m_cons s) j = Some (unat h, None)" by (simp add: holds_def)
    then have "sl_storage (m_slots s ! slot_ix s h) = Some (m_pushed s ! unat h)"
      using slots_okD(5) [OF I(5), of j "unat h" None] I(10) [of h] by simp
    from mc_move [OF MC_move this] MC_move here show ?thesis
      by (intro exI [of _ "set_cons j (MC_release h (m_pushed s ! unat h)) (set_storage h None s)"])
        (simp add: set_storage_def)
  next
    case (MC_release h v)
    from mc_release [OF this] MC_release here show ?thesis
      by (intro exI [of _ "set_cons j (MC_notify h v) (set_seq h (h + m_capacity s) s)"]) (simp add: set_seq_def)
  next
    case (MC_notify h v)
    have "wake_one (slot_ix s h) s s" using never_blocks_wake(2) [OF nb] by simp
    from mc_notify [OF MC_notify this] MC_notify here show ?thesis
      by (intro exI [of _ "set_cons j MC_idle (s\<lparr>m_log := m_log s @ [(j, unat h, v)]\<rparr>)"]) simp
  qed (use busy tries in simp_all)
qed

lemma nb_cons_moves:
  assumes I: "nb_inv warmup tot s" and nb: "never_blocks (nb_sys s)" and j: "j < length (nb_cons s)"
    and todo: "nb_cons s ! j \<noteq> HC_done"
    and free: "nb_cons s ! j = HC_loop \<Longrightarrow> tot \<le> nb_consumed s \<or> unat (m_head (nb_sys s)) < length (m_pushed (nb_sys s))"
  shows "\<exists>t. nb_cons_step tot warmup j s t \<and> nb_closer j s t"
proof -
  note D = nb_invD [OF I]
  let ?q = "nb_sys s"
  have local: "nb_closer j s t"
    if "nb_sys t = ?q" "nb_cons t = (nb_cons s)[j := c]"
      "nb_crank (m_head ?q) (length (m_pushed ?q)) (m_cons ?q j) c < nb_rank_at s j" for t c
    using that j by (simp add: nb_closer_def nb_rank_at_def)
  have sys: "nb_closer j s t"
    if "m_pushed (nb_sys t) = m_pushed ?q" "\<forall>i. i \<noteq> j \<longrightarrow> m_cons (nb_sys t) i = m_cons ?q i" "m_head (nb_sys t) = m_head ?q"
      "nb_cons t = (nb_cons s)[j := c]"
      "nb_crank (m_head ?q) (length (m_pushed ?q)) (m_cons (nb_sys t) j) c < nb_rank_at s j" for t c
    using that j by (simp add: nb_closer_def nb_rank_at_def)
  show ?thesis
  proof (cases "nb_cons s ! j")
    case HC_loop
    have idle: "m_cons ?q j = MC_idle" using D(4) HC_loop unfolding nb_threads_ok_def by fastforce
    show ?thesis
    proof (cases "tot \<le> nb_consumed s")
      case True
      then have "\<not> nb_consumed s < tot" by simp
      from nc_stop [OF j HC_loop order_refl this] local show ?thesis
        by (fastforce simp: nb_rank_at_def HC_loop)
    next
      case False
      then have "nb_consumed s < tot" by simp
      from nc_go [OF j HC_loop order_refl this] local [of "s\<lparr>nb_cons := (nb_cons s)[j := HC_pop]\<rparr>" HC_pop] free False
      show ?thesis by (auto simp: nb_rank_at_def HC_loop idle)
    qed
  next
    case HC_pop
    have keep: "(nb_cons s)[j := HC_pop] = nb_cons s" using HC_pop by (metis list_update_id)
    show ?thesis
    proof (cases "m_cons ?q j = MC_idle")
      case True
      let ?r = "set_cons j (MC_load_seq False (m_head ?q)) ?q"
      have step: "spmc_cons_step j ?q ?r" by (rule mc_call [OF True order_refl])
      have "nb_cons_step tot warmup j s (s\<lparr>nb_sys := ?r\<rparr>)"
        by (rule nc_call [OF j HC_pop True step, of "m_head ?q"]) (simp add: set_cons_def)
      moreover have "nb_closer j s (s\<lparr>nb_sys := ?r\<rparr>)"
        by (rule sys [where c = HC_pop]) (simp_all add: set_cons_def keep nb_rank_at_def HC_pop True)
      ultimately show ?thesis by blast
    next
      case False
      from nb_try_moves [OF D(1) nb False] obtain r where r: "spmc_cons_step j ?q r" "m_pushed r = m_pushed ?q"
        "\<forall>i. i \<noteq> j \<longrightarrow> m_cons r i = m_cons ?q i" and outcome: "unat (m_head ?q) < unat (m_head r) \<and> m_cons r j \<noteq> MC_idle \<or> m_head r = m_head ?q
        \<and> (m_cons r j \<noteq> MC_idle \<longrightarrow> mc_rank (m_head ?q) (length (m_pushed ?q)) (m_cons r j)
              < mc_rank (m_head ?q) (length (m_pushed ?q)) (m_cons ?q j))
        \<and> (m_cons r j = MC_idle \<longrightarrow> (\<exists>h v. m_cons ?q j = MC_notify h v) \<or>
            (\<exists>h seq. m_cons ?q j = MC_check False h seq)
            \<and> (unat (m_head ?q) < length (m_pushed ?q) \<longrightarrow> mc_rank (m_head ?q) (length (m_pushed ?q)) (m_cons ?q j) = 19))"
        by blast
      show ?thesis
      proof (cases "m_cons r j = MC_idle")
        case busy: False
        have "nb_closer j s (s\<lparr>nb_sys := r\<rparr>)"
        proof (cases "unat (m_head ?q) < unat (m_head r)")
          case True
          then show ?thesis using r by (simp add: nb_closer_def)
        next
          case False
          with outcome busy show ?thesis
            by (intro sys [where c = HC_pop]) (simp_all add: r keep nb_rank_at_def HC_pop)
        qed
        with nc_run [OF j HC_pop False r(1) busy] show ?thesis by blast
      next
        case ret: True
        then have hd: "m_head r = m_head ?q" using outcome by simp
        from outcome ret consider (item) h v where "m_cons ?q j = MC_notify h v"
          | (none) h seq where "m_cons ?q j = MC_check False h seq"
            "unat (m_head ?q) < length (m_pushed ?q) \<longrightarrow> mc_rank (m_head ?q) (length (m_pushed ?q)) (m_cons ?q j) = 19"
          by blast
        then show ?thesis
        proof cases
          case item
          have "nb_closer j s (s\<lparr>nb_sys := r, nb_cons := (nb_cons s)[j := HC_add v]\<rparr>)"
            by (rule sys [where c = "HC_add v"]) (simp_all add: r hd nb_rank_at_def HC_pop item)
          with nc_item [OF j HC_pop item r(1)] show ?thesis by blast
        next
          case none
          then have "nb_crank (m_head ?q) (length (m_pushed ?q)) (m_cons r j) HC_loop < nb_rank_at s j"
            by (auto simp: nb_rank_at_def HC_pop simp del: word_div_no)
          then have "nb_closer j s (s\<lparr>nb_sys := r, nb_cons := (nb_cons s)[j := HC_loop]\<rparr>)"
            by (intro sys [where c = HC_loop]) (simp_all add: r hd)
          with nc_none [OF j HC_pop none(1) r(1) ret] show ?thesis by blast
        qed
      qed
    qed
  next
    case (HC_add x)
    from nc_add [OF j HC_add] local show ?thesis by (fastforce simp: nb_rank_at_def HC_add)
  next
    case (HC_rec n x)
    show ?thesis
    proof (cases "n \<ge> warmup")
      case False
      from nc_warm [OF j HC_rec False] local show ?thesis by (fastforce simp: nb_rank_at_def HC_rec)
    next
      case True
      show ?thesis
      proof (cases "sint (0 - enqueue_ns x) \<ge> 0")
        case pos: True
        from nc_record [OF j HC_rec True refl pos] local show ?thesis by (fastforce simp: nb_rank_at_def HC_rec)
      next
        case neg: False
        from nc_negative [OF j HC_rec True refl neg] local show ?thesis by (fastforce simp: nb_rank_at_def HC_rec)
      qed
    qed
  qed (use todo in simp)
qed

fun mp_rank :: "'a mprod \<Rightarrow> nat" where
  "mp_rank MP_idle = 17"
| "mp_rank (MP_load_seq b x t) = 16"
| "mp_rank (MP_check b x t seq) = (if seq = t then 15 else 30)"
| "mp_rank (MP_construct x t) = 14"
| "mp_rank (MP_store_seq x t) = 13"
| "mp_rank (MP_store_tail t) = 20"
| "mp_rank (MP_notify t) = 19"
| "mp_rank (MP_wait x t seq) = 0"
| "mp_rank (MP_parked x t seq) = 0"

fun np_rank :: "bench_item mprod \<Rightarrow> bm_producer \<Rightarrow> nat" where
  "np_rank m (HP_loop i) = 18"
| "np_rank m (HP_push i x) = mp_rank m"
| "np_rank m HP_done = 0"

lemma nb_prod_moves:
  assumes I: "nb_inv warmup tot s" and nb: "never_blocks (nb_sys s)" and todo: "nb_prod s \<noteq> HP_done"
    and quiet: "\<And>i. m_cons (nb_sys s) i = MC_idle" and H: "unat (m_head (nb_sys s)) = length (m_pushed (nb_sys s))"
  shows "\<exists>t. nb_prod_step tot s t \<and> nb_cons t = nb_cons s \<and> (length (m_pushed (nb_sys t)) = Suc (length (m_pushed (nb_sys s)))
    \<or> m_pushed (nb_sys t) = m_pushed (nb_sys s) \<and> m_head (nb_sys t) = m_head (nb_sys s) \<and> m_cons (nb_sys t) = m_cons (nb_sys s)
      \<and> np_rank (m_prod (nb_sys t)) (nb_prod t) < np_rank (m_prod (nb_sys s)) (nb_prod s))"
proof -
  note D = nb_invD [OF I]
  note S = spmc_sys_invD [OF D(1)]
  let ?q = "nb_sys s"
  show ?thesis
  proof (cases "nb_prod s")
    case (HP_loop i)
    then have idle: "m_prod ?q = MP_idle" using D(2) by simp
    show ?thesis
    proof (cases "i < tot")
      case True
      from np_stamp [OF HP_loop True, of 0] HP_loop idle show ?thesis by (intro exI conjI) (assumption, simp_all)
    next
      case False
      from np_end [OF HP_loop False] HP_loop show ?thesis by (intro exI conjI) (assumption, simp_all)
    qed
  next
    case (HP_push i x)
    have run: ?thesis if "spmc_prod_step ?q r" "m_prod ?q \<noteq> MP_idle" "m_prod r \<noteq> MP_idle"
      "length (m_pushed r) = Suc (length (m_pushed ?q)) \<or> m_pushed r = m_pushed ?q \<and> m_head r = m_head ?q
        \<and> m_cons r = m_cons ?q \<and> mp_rank (m_prod r) < mp_rank (m_prod ?q)" for r
      using np_run [OF HP_push that(2,1,3)] that(4) HP_push by (intro exI [of _ "s\<lparr>nb_sys := r\<rparr>"]) simp
    show ?thesis
    proof (cases "m_prod ?q")
      case MP_idle
      let ?r = "?q\<lparr>m_prod := MP_load_seq False x (m_tail ?q)\<rparr>"
      have "nb_prod_step tot s (s\<lparr>nb_sys := ?r\<rparr>)" by (rule np_call [OF HP_push MP_idle mp_call [OF MP_idle]]) simp
      with HP_push MP_idle show ?thesis by (intro exI [of _ "s\<lparr>nb_sys := ?r\<rparr>"]) simp
    next
      case (MP_load_seq b y t)
      have t: "unat t = length (m_pushed ?q)" using S(7) MP_load_seq by simp
      have "free_pos (unat (m_capacity ?q)) (unat (m_head ?q)) (holds (m_cons ?q)) (length (m_pushed ?q))"
        using S(2) quiet by (auto simp: free_pos_def H holds_def)
      then have "unat (slot_seq ?q t) = unat t" using slots_seq_free [OF S(5,2)] S(10) [of t] t by simp
      then have "slot_seq ?q t = t" by (simp only: word_eq_iff_unat)
      then show ?thesis
        using mp_load [OF MP_load_seq order_refl] MP_load_seq
        by (intro run [of "?q\<lparr>m_prod := MP_check b y t (slot_seq ?q t)\<rparr>"]) simp_all
    next
      case (MP_check b y t seq)
      then have b: "b = False" using nb by (simp add: never_blocks_def)
      show ?thesis
      proof (cases "seq = t")
        case True
        from mp_free [OF MP_check True] show ?thesis by (rule run) (use MP_check True in simp_all)
      next
        case False
        let ?r = "?q\<lparr>m_prod := MP_idle\<rparr>"
        have "nb_prod_step tot s (s\<lparr>nb_sys := ?r\<rparr>)"
          by (rule np_false [OF HP_push MP_check [unfolded b] mp_full [OF MP_check [unfolded b] False]]) simp
        with HP_push MP_check False show ?thesis by (intro exI [of _ "s\<lparr>nb_sys := ?r\<rparr>"]) simp
      qed
    next
      case (MP_construct y t)
      from mp_construct [OF this] show ?thesis by (rule run) (use MP_construct in \<open>simp_all add: set_storage_def\<close>)
    next
      case (MP_store_seq y t)
      from mp_store_seq [OF this] show ?thesis by (rule run) (use MP_store_seq in \<open>simp_all add: set_seq_def\<close>)
    next
      case (MP_store_tail t)
      from mp_store_tail [OF this] show ?thesis by (rule run) (use MP_store_tail in simp_all)
    next
      case (MP_notify t)
      from np_true [OF HP_push MP_notify mp_notify [OF MP_notify]] never_blocks_wake(1) [OF nb] HP_push MP_notify show ?thesis
        by (intro exI conjI) (assumption, simp_all)
    qed (use nb in \<open>simp_all add: never_blocks_def\<close>)
  qed (use todo in simp)
qed

definition nb_work :: "nb_bench \<Rightarrow> nat" where
  "nb_work s = (\<Sum>j < length (nb_cons s). nb_rank_at s j)"

definition nb_measure :: "nat \<Rightarrow> nb_bench \<Rightarrow> nat \<times> nat \<times> nat \<times> nat" where
  "nb_measure tot s = (tot - length (m_pushed (nb_sys s)), tot - unat (m_head (nb_sys s)), nb_work s,
     np_rank (m_prod (nb_sys s)) (nb_prod s))"

definition nb_less :: "((nat \<times> nat \<times> nat \<times> nat) \<times> nat \<times> nat \<times> nat \<times> nat) set" where
  "nb_less = less_than <*lex*> less_than <*lex*> less_than <*lex*> less_than"

lemma wf_nb_less: "wf nb_less"
  by (simp add: nb_less_def wf_lex_prod)

lemma nb_closer_less:
  assumes "nb_closer j s t" and j: "j < length (nb_cons s)" and "nb_inv warmup tot t"
  shows "(nb_measure tot t, nb_measure tot s) \<in> nb_less"
proof (cases "unat (m_head (nb_sys s)) < unat (m_head (nb_sys t))")
  case True
  have "unat (m_head (nb_sys t)) \<le> tot"
    using spmc_sys_invD(9) [OF nb_invD(1) [OF assms(3)]] nb_invD(6) [OF assms(3)] by linarith
  with True assms(1) show ?thesis by (simp add: nb_closer_def nb_measure_def nb_less_def diff_less_mono2)
next
  case False
  then have c: "m_pushed (nb_sys t) = m_pushed (nb_sys s)" "length (nb_cons t) = length (nb_cons s)"
    "m_head (nb_sys t) = m_head (nb_sys s)" "nb_rank_at t j < nb_rank_at s j" "\<forall>i. i \<noteq> j \<longrightarrow> nb_rank_at t i = nb_rank_at s i"
    using assms(1) by (auto simp: nb_closer_def)
  have "(\<Sum>i < length (nb_cons s). nb_rank_at t i) < (\<Sum>i < length (nb_cons s). nb_rank_at s i)"
  proof (rule sum_strict_mono_ex1)
    show "\<forall>i \<in> {..<length (nb_cons s)}. nb_rank_at t i \<le> nb_rank_at s i" using c(4,5) by (metis nat_less_le order_refl)
    show "\<exists>i \<in> {..<length (nb_cons s)}. nb_rank_at t i < nb_rank_at s i" using c(4) j by (intro bexI [of _ j]) simp_all
  qed simp
  then show ?thesis using c by (simp add: nb_measure_def nb_less_def nb_work_def)
qed

text \<open>Nobody is inside \<open>try_pop\<close>: every claimed element has been returned.\<close>

lemma nb_quiet_log:
  assumes "nb_inv warmup tot s" and "\<And>i. m_cons (nb_sys s) i = MC_idle"
  shows "length (m_log (nb_sys s)) = unat (m_head (nb_sys s))"
    and "mset (nb_popped s) = mset (take (unat (m_head (nb_sys s))) (m_pushed (nb_sys s)))"
proof -
  note S = spmc_sys_invD [OF nb_invD(1) [OF assms(1)]]
  have "takes (m_cons (nb_sys s)) i = None" for i using assms(2) by (simp add: takes_def)
  then show m: "mset (nb_popped s) = mset (take (unat (m_head (nb_sys s))) (m_pushed (nb_sys s)))"
    unfolding nb_popped_def using ledger_values [OF S(6) _ S(9)] by blast
  from mset_eq_length [OF this] S(9) show "length (m_log (nb_sys s)) = unat (m_head (nb_sys s))"
    by (simp add: nb_popped_def)
qed

definition nb_all_done :: "nb_bench \<Rightarrow> bool" where
  "nb_all_done s \<longleftrightarrow> list_all (\<lambda>c. c = HC_done) (nb_cons s)"

text \<open>When no consumer can move, it waits for an item or has left its loop.\<close>

lemma nb_stalled:
  assumes I: "nb_inv warmup tot s" and ne: "nb_cons s \<noteq> []"
    and stall: "\<And>j. j < length (nb_cons s) \<Longrightarrow> nb_cons s ! j = HC_done \<or> nb_cons s ! j = HC_loop
      \<and> nb_consumed s < tot \<and> length (m_pushed (nb_sys s)) \<le> unat (m_head (nb_sys s))"
  shows "m_cons (nb_sys s) i = MC_idle" and "unat (m_head (nb_sys s)) = length (m_pushed (nb_sys s))"
    and "nb_consumed s = unat (m_head (nb_sys s))"
proof -
  note D = nb_invD [OF I]
  note B = D(5) [unfolded nb_books_ok_def]
  note S = spmc_sys_invD(9) [OF D(1)]
  show idle: "m_cons (nb_sys s) i = MC_idle" for i
    using D(4) stall [of i] unfolding nb_threads_ok_def by fastforce
  have "hc_adding c = 0" if "c \<in> set (nb_cons s)" for c
    using that stall unfolding in_set_conv_nth by fastforce
  then have "sum_list (map hc_adding (nb_cons s)) = 0" by (simp add: sum_list_eq_0_iff)
  then show e: "nb_consumed s = unat (m_head (nb_sys s))" using B nb_quiet_log(1) [OF I idle] by linarith
  from ne have "0 < length (nb_cons s)" by simp
  from stall [OF this] show "unat (m_head (nb_sys s)) = length (m_pushed (nb_sys s))"
  proof
    assume "nb_cons s ! 0 = HC_done"
    then have "HC_done \<in> set (nb_cons s)" using ne by (metis length_greater_0_conv nth_mem)
    then show ?thesis using B e D(6) S by linarith
  qed (use S in simp)
qed

lemma nb_advances:
  assumes I: "nb_inv warmup tot s" and nb: "never_blocks (nb_sys s)" and bound: "tot < 2 ^ 63" and ne: "nb_cons s \<noteq> []"
    and todo: "nb_prod s \<noteq> HP_done \<or> \<not> nb_all_done s"
  shows "\<exists>t. nb_step warmup tot s t \<and> (nb_measure tot t, nb_measure tot s) \<in> nb_less"
proof (cases "\<exists>j < length (nb_cons s). nb_cons s ! j \<noteq> HC_done \<and> (nb_cons s ! j = HC_loop \<longrightarrow>
    tot \<le> nb_consumed s \<or> unat (m_head (nb_sys s)) < length (m_pushed (nb_sys s)))")
  case True
  then obtain j where j: "j < length (nb_cons s)" "nb_cons s ! j \<noteq> HC_done"
    "nb_cons s ! j = HC_loop \<Longrightarrow> tot \<le> nb_consumed s \<or> unat (m_head (nb_sys s)) < length (m_pushed (nb_sys s))" by blast
  from nb_cons_moves [OF I nb j] obtain t where t: "nb_cons_step tot warmup j s t" "nb_closer j s t" by blast
  have "nb_step warmup tot s t" using t(1) unfolding nb_step_def by blast
  with nb_closer_less [OF t(2) j(1) nb_cons_keeps [OF t(1) I bound]] show ?thesis by blast
next
  case False
  then have stall: "nb_cons s ! j = HC_done \<or> nb_cons s ! j = HC_loop
      \<and> nb_consumed s < tot \<and> length (m_pushed (nb_sys s)) \<le> unat (m_head (nb_sys s))" if "j < length (nb_cons s)" for j
    using that by (meson not_le)
  note Q = nb_stalled [OF I ne stall]
  show ?thesis
  proof (cases "nb_prod s = HP_done")
    case True
    then have "nb_consumed s = tot" using nb_invD(2) [OF I] Q(2,3) by simp
    then have "nb_all_done s" using stall by (fastforce simp: nb_all_done_def list_all_length)
    with True todo show ?thesis by blast
  next
    case False
    from nb_prod_moves [OF I nb False Q(1,2)] obtain t where t: "nb_prod_step tot s t" "nb_cons t = nb_cons s"
      "length (m_pushed (nb_sys t)) = Suc (length (m_pushed (nb_sys s)))
        \<or> m_pushed (nb_sys t) = m_pushed (nb_sys s) \<and> m_head (nb_sys t) = m_head (nb_sys s) \<and> m_cons (nb_sys t) = m_cons (nb_sys s)
          \<and> np_rank (m_prod (nb_sys t)) (nb_prod t) < np_rank (m_prod (nb_sys s)) (nb_prod s)" by blast
    have le: "length (m_pushed (nb_sys t)) \<le> tot" using nb_invD(6) [OF nb_prod_keeps [OF t(1) I bound]] .
    from t(3) have "(nb_measure tot t, nb_measure tot s) \<in> nb_less"
    proof
      assume "m_pushed (nb_sys t) = m_pushed (nb_sys s) \<and> m_head (nb_sys t) = m_head (nb_sys s) \<and> m_cons (nb_sys t) = m_cons (nb_sys s)
          \<and> np_rank (m_prod (nb_sys t)) (nb_prod t) < np_rank (m_prod (nb_sys s)) (nb_prod s)"
      moreover from this have "nb_work t = nb_work s" using t(2) by (simp add: nb_work_def nb_rank_at_def)
      ultimately show ?thesis by (simp add: nb_measure_def nb_less_def)
    qed (use le in \<open>simp add: nb_measure_def nb_less_def diff_less_mono2\<close>)
    moreover have "nb_step warmup tot s t" using t(1) by (simp add: nb_step_def)
    ultimately show ?thesis by blast
  qed
qed

definition nb_booted :: "nb_bench \<Rightarrow> bool" where
  "nb_booted s \<longleftrightarrow> (\<exists>sz can_alloc capacity n q. spmc_ctor sz can_alloc capacity = Inr (Some q) \<and> s = nb_start n q)"

lemma nb_step_keeps:
  assumes "nb_step warmup tot s t" and "nb_inv warmup tot s" and "tot < 2 ^ 63"
  shows "nb_inv warmup tot t" and "length (nb_cons t) = length (nb_cons s)"
proof -
  show "nb_inv warmup tot t" using assms nb_prod_keeps nb_cons_keeps unfolding nb_step_def by blast
  show "length (nb_cons t) = length (nb_cons s)"
    using assms(1) unfolding nb_step_def by (auto elim!: nb_prod_step.cases nb_cons_step.cases)
qed

interpretation nb_machine: guarded_machine nb_booted "nb_step warmup tot"
  "\<lambda>s. nb_inv warmup tot s \<and> never_blocks (nb_sys s)" "\<lambda>_. tot" "2 ^ 63" for warmup tot
proof unfold_locales
  show "nb_inv warmup tot s \<and> never_blocks (nb_sys s)" if "nb_booted s" for s
    using that nb_start_inv unfolding nb_booted_def by (fastforce simp: nb_start_def never_blocks_def spmc_boot_def)
  show "nb_inv warmup tot t \<and> never_blocks (nb_sys t)"
    if "nb_inv warmup tot s \<and> never_blocks (nb_sys s)" "nb_step warmup tot s t" "tot < 2 ^ 63" for s t
    using that nb_step_keeps(1) nb_never_blocks by blast
qed simp

lemma nb_finish_run:
  assumes "nb_inv warmup tot s \<and> never_blocks (nb_sys s)" and bound: "tot < 2 ^ 63" and "nb_cons s \<noteq> []"
  shows "\<exists>t. (nb_step warmup tot)\<^sup>*\<^sup>* s t \<and> nb_prod t = HP_done \<and> nb_all_done t"
  using assms(1,3)
proof (induction "nb_measure tot s" arbitrary: s rule: wf_induct_rule [OF wf_nb_less])
  case (1 s)
  show ?case
  proof (cases "nb_prod s = HP_done \<and> nb_all_done s")
    case True
    then show ?thesis by blast
  next
    case False
    with nb_advances [OF _ _ bound] 1(2,3) obtain r where
      r: "nb_step warmup tot s r" "(nb_measure tot r, nb_measure tot s) \<in> nb_less" by blast
    have "nb_cons r \<noteq> []" using nb_step_keeps(2) [OF r(1) _ bound] 1(2,3) by (metis length_0_conv)
    with nb_machine.inv_step [OF 1(2) r(1) bound] 1(1) [OF r(2)] obtain t where
      "(nb_step warmup tot)\<^sup>*\<^sup>* r t" "nb_prod t = HP_done" "nb_all_done t" by blast
    then show ?thesis using converse_rtranclp_into_rtranclp [of "nb_step warmup tot", OF r(1)] by blast
  qed
qed

lemma nb_steps_reach: "(nb_step warmup tot)\<^sup>*\<^sup>* s t \<Longrightarrow> reach init (nb_step warmup tot) s \<Longrightarrow> reach init (nb_step warmup tot) t"
  by (induction rule: rtranclp_induct) (auto intro: reach_step)

section \<open>What the benchmark reports\<close>

lemma nb_reach_inv:
  assumes "reach (\<lambda>s. s = nb_start n q) (nb_step warmup tot) s" and "spmc_ctor sz can_alloc capacity = Inr (Some q)"
    and "tot < 2 ^ 63"
  shows "nb_inv warmup tot s \<and> never_blocks (nb_sys s) \<and> length (nb_cons s) = n"
  using assms(1)
proof (induction rule: reach.induct)
  case (reach_init s)
  then have "nb_booted s" unfolding nb_booted_def using assms(2) by blast
  then have "nb_inv warmup tot s \<and> never_blocks (nb_sys s)" by (rule nb_machine.inv_init)
  then show ?case using reach_init by (simp add: nb_start_def)
next
  case (reach_step s t)
  then show ?case using nb_machine.inv_step [of warmup tot s t] nb_step_keeps(2) assms(3) by simp
qed

lemma nb_books:
  assumes I: "nb_inv warmup tot s" and all: "nb_all_done s" and ne: "nb_cons s \<noteq> []"
  shows "mset (map payload (nb_popped s)) = mset (map word_of_nat [0..<tot])" and "nb_consumed s = tot"
    and "list_all (\<lambda>(i, p, x). payload x = word_of_nat p) (m_log (nb_sys s))"
    and "sorted_wrt (<) (map (fst \<circ> snd) (filter (\<lambda>e. fst e = j) (m_log (nb_sys s))))"
    and "lr_count (nb_merged s) + nb_dropped s = tot - warmup"
proof -
  note D = nb_invD [OF I]
  note S = spmc_sys_invD [OF D(1)]
  note B = D(5) [unfolded nb_books_ok_def]
  have stopped: "c = HC_done" if "c \<in> set (nb_cons s)" for c using all that by (simp add: nb_all_done_def list_all_iff)
  have idle: "m_cons (nb_sys s) i = MC_idle" for i
  proof (rule ccontr)
    assume "m_cons (nb_sys s) i \<noteq> MC_idle"
    then have "i < length (nb_cons s)" "nb_cons s ! i = HC_pop" using D(4) unfolding nb_threads_ok_def by blast+
    with stopped [OF nth_mem] show False by fastforce
  qed
  have "HC_done \<in> set (nb_cons s)" using ne stopped by (cases "nb_cons s") auto
  moreover have zero: "sum_list (map hc_adding (nb_cons s)) = 0" "sum_list (map (hc_pending warmup) (nb_cons s)) = 0"
    using stopped by (fastforce simp: sum_list_eq_0_iff)+
  ultimately show c: "nb_consumed s = tot"
    using B nb_quiet_log(1) [OF I idle] D(6) S(9) by linarith
  then have H: "unat (m_head (nb_sys s)) = tot" "length (m_pushed (nb_sys s)) = tot"
    using B zero nb_quiet_log(1) [OF I idle] D(6) S(9) by linarith+
  then have "mset (nb_popped s) = mset (m_pushed (nb_sys s))" using nb_quiet_log(2) [OF I idle] by simp
  then have "mset (map payload (nb_popped s)) = mset (map payload (m_pushed (nb_sys s)))" by (simp only: mset_map)
  then show "mset (map payload (nb_popped s)) = mset (map word_of_nat [0..<tot])" using D(3) H(2) by simp
  have "payload x = word_of_nat p" if "(i, p, x) \<in> set (m_log (nb_sys s))" for i p x
  proof -
    have "p < tot" "x = m_pushed (nb_sys s) ! p" using S(6) that H(1) unfolding ledger_ok_def by auto
    then have "map payload (m_pushed (nb_sys s)) ! p = payload x" using H(2) by simp
    then show ?thesis unfolding D(3) using \<open>p < tot\<close> H(2) by simp
  qed
  then show "list_all (\<lambda>(i, p, x). payload x = word_of_nat p) (m_log (nb_sys s))" by (auto simp: list_all_iff)
  show "sorted_wrt (<) (map (fst \<circ> snd) (filter (\<lambda>e. fst e = j) (m_log (nb_sys s))))"
    using S(6) by (simp only: ledger_ok_def)
  show "lr_count (nb_merged s) + nb_dropped s = tot - warmup" using B zero(2) c by (simp add: nb_merged_def merged_count)
qed

text \<open>
  C17. \<open>run_benchmark\<close> measures what it says on the real queue: when every consumer thread has left
  its loop, each item was popped exactly once, each consumer got its items in the order of
  their payloads, the counter is \<open>warmup + measure\<close>, and the merged recorder holds \<open>measure\<close>
  samples, less those with a negative latency, however the accesses of the threads
  interleave, whatever stale values they load and whatever the clock says. From every
  state the benchmark can reach some run leads to such an end.
\<close>

theorem nb_pops_once_and_finishes:
  assumes "spmc_ctor sz can_alloc capacity = Inr (Some q)" and "0 < n" and "warmup + msr < 2 ^ 63"
    and "reach (\<lambda>s. s = nb_start n q) (nb_step warmup (warmup + msr)) s"
  shows "(nb_all_done s \<longrightarrow>
      mset (map payload (nb_popped s)) = mset (map word_of_nat [0..<warmup + msr])
      \<and> list_all (\<lambda>(i, p, x). payload x = word_of_nat p) (m_log (nb_sys s))
      \<and> sorted_wrt (<) (map (fst \<circ> snd) (filter (\<lambda>e. fst e = j) (m_log (nb_sys s))))
      \<and> nb_consumed s = warmup + msr \<and> lr_count (nb_merged s) + nb_dropped s = msr)
    \<and> (\<exists>t. (nb_step warmup (warmup + msr))\<^sup>*\<^sup>* s t \<and> nb_prod t = HP_done \<and> nb_all_done t)"
proof -
  have I: "nb_inv warmup (warmup + msr) s" "never_blocks (nb_sys s)" "nb_cons s \<noteq> []"
    using nb_reach_inv [OF assms(4,1,3)] assms(2) by auto
  have "\<exists>t. (nb_step warmup (warmup + msr))\<^sup>*\<^sup>* s t \<and> nb_prod t = HP_done \<and> nb_all_done t"
    using nb_finish_run [OF _ assms(3) I(3)] I(1,2) by blast
  then show ?thesis using nb_books [OF I(1) _ I(3)] by simp
qed

theorem nb_pops_once_and_finishes_witness:
  "\<exists>s. reach (\<lambda>s. s = nb_start 3 bm_q0) (nb_step 2 9) s \<and> nb_all_done s \<and> lr_count (nb_merged s) + nb_dropped s = 7"
proof -
  have r: "reach (\<lambda>s. s = nb_start 3 bm_q0) (nb_step 2 (2 + 7)) (nb_start 3 bm_q0)" by (simp add: reach_init)
  from nb_pops_once_and_finishes [OF bm_q0_ctor _ _ r] obtain s where
    s: "(nb_step 2 (2 + 7))\<^sup>*\<^sup>* (nb_start 3 bm_q0) s" "nb_all_done s" by auto
  note rs = nb_steps_reach [OF s(1) r]
  from nb_pops_once_and_finishes [OF bm_q0_ctor _ _ rs] rs s(2) show ?thesis by auto
qed

end
