(* ===== verification/Benchmark_Broadcast.thy ===== *)
theory Benchmark_Broadcast
  imports Benchmark Broadcast_Concurrent
begin

text \<open>
  \<open>run_broadcast_benchmark\<close> of \<open>benchmark/BenchmarkMain.cpp\<close> on the concurrent model of
  \<open>SPMCBroadcastQueue\<close>: the producer stamps an item and retries \<open>try_publish\<close> until it is
  accepted; every consumer calls \<open>try_consume\<close> until it has seen \<open>warmup + measure\<close> items and
  takes the latency inside the callback. Inside the calls the threads move by the steps of
  \<open>Broadcast_Concurrent\<close>; the clock may return anything. Copying an \<open>Item\<close> and the callback do
  not throw. \<open>cb_dropped\<close> counts the measured items whose latency was negative.
\<close>

section \<open>State and steps\<close>

datatype bb_producer =
  BB_loop nat                             \<comment> \<open>the test of \<open>i < total\<close> is next\<close>
| BB_item nat bench_item                  \<comment> \<open>\<open>try_publish(item)\<close> is called next\<close>
| BB_try nat bench_item                   \<comment> \<open>inside \<open>try_publish\<close>\<close>
| BB_done

datatype bb_pc = CB_loop | CB_in | CB_done

record bb_consumer =
  cb_pc :: bb_pc
  cb_n :: nat
  cb_rec :: recorder
  cb_dropped :: nat

record bb_bench =
  bb_sys :: "bench_item bc_sys"
  bb_prod :: bb_producer
  bb_cons :: "bb_consumer list"

definition bb_start :: "nat \<Rightarrow> bench_item bcast \<Rightarrow> bb_bench" where
  "bb_start n q = \<lparr>bb_sys = bc_boot q, bb_prod = BB_loop 0,
     bb_cons = replicate n \<lparr>cb_pc = CB_loop, cb_n = 0, cb_rec = lr_new, cb_dropped = 0\<rparr>\<rparr>"

inductive bb_prod_step :: "nat \<Rightarrow> bb_bench \<Rightarrow> bb_bench \<Rightarrow> bool" for tot where
  pb_stamp: "bb_prod s = BB_loop i \<Longrightarrow> i < tot \<Longrightarrow> x = \<lparr>enqueue_ns = ts, payload = word_of_nat i\<rparr> \<Longrightarrow>
    bb_prod_step tot s (s\<lparr>bb_prod := BB_item i x\<rparr>)"
| pb_call: "bb_prod s = BB_item i x \<Longrightarrow> bc_prod_step (bb_sys s) q \<Longrightarrow> bs_prod q = BP_gate x \<Longrightarrow>
    bb_prod_step tot s (s\<lparr>bb_sys := q, bb_prod := BB_try i x\<rparr>)"
| pb_run: "bb_prod s = BB_try i x \<Longrightarrow> bc_prod_step (bb_sys s) q \<Longrightarrow> bs_prod q \<noteq> BP_idle \<Longrightarrow>
    bb_prod_step tot s (s\<lparr>bb_sys := q\<rparr>)"
| pb_true: "bb_prod s = BB_try i x \<Longrightarrow> bs_prod (bb_sys s) = BP_store y \<Longrightarrow> bc_prod_step (bb_sys s) q \<Longrightarrow>
    bb_prod_step tot s (s\<lparr>bb_sys := q, bb_prod := BB_loop (Suc i)\<rparr>)"
| pb_false: "bb_prod s = BB_try i x \<Longrightarrow> bs_prod (bb_sys s) = BP_recheck y \<Longrightarrow> bc_prod_step (bb_sys s) q \<Longrightarrow>
    bs_prod q = BP_idle \<Longrightarrow> bb_prod_step tot s (s\<lparr>bb_sys := q, bb_prod := BB_item i x\<rparr>)"
| pb_done: "bb_prod s = BB_loop i \<Longrightarrow> \<not> i < tot \<Longrightarrow> bb_prod_step tot s (s\<lparr>bb_prod := BB_done\<rparr>)"

text \<open>The callback: \<open>n\<close> is incremented only after \<open>try_consume\<close> has returned.\<close>

definition bb_callback :: "nat \<Rightarrow> u64 \<Rightarrow> bench_item \<Rightarrow> bb_consumer \<Rightarrow> bb_consumer" where
  "bb_callback warmup now item c =
     (if cb_n c \<ge> warmup
      then (let lat = now - enqueue_ns item in
        if sint lat \<ge> 0 then c\<lparr>cb_rec := lr_record lat (cb_rec c)\<rparr> else c\<lparr>cb_dropped := Suc (cb_dropped c)\<rparr>)
      else c)"

inductive bb_cons_step :: "nat \<Rightarrow> nat \<Rightarrow> nat \<Rightarrow> bb_bench \<Rightarrow> bb_bench \<Rightarrow> bool" for warmup tot j where
  cb_call: "j < length (bb_cons s) \<Longrightarrow> c = bb_cons s ! j \<Longrightarrow> cb_pc c = CB_loop \<Longrightarrow> cb_n c < tot \<Longrightarrow>
    bs_cons (bb_sys s) j = BC_idle \<Longrightarrow> bc_cons_step j (bb_sys s) q \<Longrightarrow>
    bb_cons_step warmup tot j s (s\<lparr>bb_sys := q, bb_cons := (bb_cons s)[j := c\<lparr>cb_pc := CB_in\<rparr>]\<rparr>)"
| cb_none: "j < length (bb_cons s) \<Longrightarrow> c = bb_cons s ! j \<Longrightarrow> bs_cons (bb_sys s) j = BC_load pos \<Longrightarrow>
    bc_cons_step j (bb_sys s) q \<Longrightarrow> bs_cons q j = BC_idle \<Longrightarrow>
    bb_cons_step warmup tot j s (s\<lparr>bb_sys := q, bb_cons := (bb_cons s)[j := c\<lparr>cb_pc := CB_loop\<rparr>]\<rparr>)"
| cb_some: "j < length (bb_cons s) \<Longrightarrow> bs_cons (bb_sys s) j = BC_load pos \<Longrightarrow>
    bc_cons_step j (bb_sys s) q \<Longrightarrow> bs_cons q j = BC_in pos \<Longrightarrow>
    bb_cons_step warmup tot j s (s\<lparr>bb_sys := q\<rparr>)"
| cb_read: "j < length (bb_cons s) \<Longrightarrow> c = bb_cons s ! j \<Longrightarrow> bs_cons (bb_sys s) j = BC_in pos \<Longrightarrow>
    bc_cons_step j (bb_sys s) q \<Longrightarrow> bs_cons q j = BC_read pos item \<Longrightarrow>
    bb_cons_step warmup tot j s (s\<lparr>bb_sys := q, bb_cons := (bb_cons s)[j := bb_callback warmup now item c]\<rparr>)"
| cb_got: "j < length (bb_cons s) \<Longrightarrow> c = bb_cons s ! j \<Longrightarrow> bs_cons (bb_sys s) j = BC_read pos item \<Longrightarrow>
    bc_cons_step j (bb_sys s) q \<Longrightarrow> bs_got q j = bs_got (bb_sys s) j @ [item] \<Longrightarrow>
    bb_cons_step warmup tot j s
      (s\<lparr>bb_sys := q, bb_cons := (bb_cons s)[j := c\<lparr>cb_n := Suc (cb_n c), cb_pc := CB_loop\<rparr>]\<rparr>)"
| cb_stop: "j < length (bb_cons s) \<Longrightarrow> c = bb_cons s ! j \<Longrightarrow> cb_pc c = CB_loop \<Longrightarrow> \<not> cb_n c < tot \<Longrightarrow>
    bb_cons_step warmup tot j s (s\<lparr>bb_cons := (bb_cons s)[j := c\<lparr>cb_pc := CB_done\<rparr>]\<rparr>)"

definition bb_step :: "nat \<Rightarrow> nat \<Rightarrow> bb_bench \<Rightarrow> bb_bench \<Rightarrow> bool" where
  "bb_step warmup tot s t \<longleftrightarrow> bb_prod_step tot s t \<or> (\<exists>j. bb_cons_step warmup tot j s t)"

definition bb_merged :: "bb_bench \<Rightarrow> recorder" where
  "bb_merged s = fold lr_merge_from (map cb_rec (bb_cons s)) lr_new"

section \<open>Invariant\<close>

fun bprod_item :: "'a bprod \<Rightarrow> 'a option" where
  "bprod_item BP_idle = None"
| "bprod_item (BP_gate x) = Some x"
| "bprod_item (BP_first x) = Some x"
| "bprod_item (BP_scan x k m) = Some x"
| "bprod_item (BP_recheck x) = Some x"
| "bprod_item (BP_write x) = Some x"
| "bprod_item (BP_store x) = Some x"

fun bb_prod_ok :: "nat \<Rightarrow> bench_item bc_sys \<Rightarrow> bb_producer \<Rightarrow> bool" where
  "bb_prod_ok tot q (BB_loop i) \<longleftrightarrow> bs_prod q = BP_idle \<and> length (bs_hist q) = i \<and> i \<le> tot"
| "bb_prod_ok tot q (BB_item i x) \<longleftrightarrow>
     bs_prod q = BP_idle \<and> length (bs_hist q) = i \<and> i < tot \<and> payload x = word_of_nat i"
| "bb_prod_ok tot q (BB_try i x) \<longleftrightarrow>
     bprod_item (bs_prod q) = Some x \<and> length (bs_hist q) = i \<and> i < tot \<and> payload x = word_of_nat i"
| "bb_prod_ok tot q BB_done \<longleftrightarrow> bs_prod q = BP_idle \<and> length (bs_hist q) = tot"

fun has_read :: "'a bcons \<Rightarrow> nat" where
  "has_read (BC_read pos x) = 1"
| "has_read _ = 0"

definition bb_cons_ok :: "nat \<Rightarrow> nat \<Rightarrow> bench_item bc_sys \<Rightarrow> bb_consumer \<Rightarrow> nat \<Rightarrow> bool" where
  "bb_cons_ok warmup tot q c j \<longleftrightarrow> cb_n c = unat (bs_cursors q ! j)
     \<and> (cb_pc c = CB_in \<longleftrightarrow> bs_cons q j \<noteq> BC_idle) \<and> (cb_pc c = CB_done \<longrightarrow> tot \<le> cb_n c)
     \<and> (cb_pc c = CB_in \<longrightarrow> cb_n c < tot)
     \<and> lr_count (cb_rec c) + cb_dropped c = cb_n c + has_read (bs_cons q j) - warmup"

definition bb_inv :: "nat \<Rightarrow> nat \<Rightarrow> bb_bench \<Rightarrow> bool" where
  "bb_inv warmup tot s \<longleftrightarrow> bc_sys_inv (bb_sys s) \<and> bb_prod_ok tot (bb_sys s) (bb_prod s)
     \<and> map payload (bs_hist (bb_sys s)) = map word_of_nat [0..<length (bs_hist (bb_sys s))]
     \<and> length (bb_cons s) = length (bs_cursors (bb_sys s))
     \<and> (\<forall>j < length (bb_cons s). bb_cons_ok warmup tot (bb_sys s) (bb_cons s ! j) j)"

lemma bb_invD:
  assumes "bb_inv warmup tot s"
  shows "bc_sys_inv (bb_sys s)" "bb_prod_ok tot (bb_sys s) (bb_prod s)"
    "map payload (bs_hist (bb_sys s)) = map word_of_nat [0..<length (bs_hist (bb_sys s))]"
    "length (bb_cons s) = length (bs_cursors (bb_sys s))"
    "j < length (bb_cons s) \<Longrightarrow> bb_cons_ok warmup tot (bb_sys s) (bb_cons s ! j) j"
    "length (bs_hist (bb_sys s)) \<le> tot"
  using assms unfolding bb_inv_def by (cases "bb_prod s"; simp)+

lemma bb_start_inv:
  assumes "bc_ctor alloc dflt n capacity = Inr q" and "0 < n"
  shows "bb_inv warmup tot (bb_start n q)"
proof -
  have "bc_init (bc_boot q)" unfolding bc_init_def using assms by metis
  then have "bc_sys_inv (bc_boot q)" by (rule bc_sys_inv_init)
  moreover have "b_cursors q = replicate n 0"
    using assms(1) by (auto simp: bc_ctor_def split: sum.splits option.splits)
  ultimately show ?thesis
    by (simp add: bb_inv_def bb_start_def bb_cons_ok_def bc_boot_def lr_count_def lr_new_def)
qed

lemma bc_prod_frame:
  assumes "bc_prod_step s t"
  shows "bs_cons t = bs_cons s" "bs_cursors t = bs_cursors s" "bs_got t = bs_got s"
    "bs_hist t = (case bs_prod s of BP_store x \<Rightarrow> bs_hist s @ [x] | _ \<Rightarrow> bs_hist s)"
  using assms by (cases; simp)+

lemma bc_prod_item:
  assumes "bc_prod_step s t" and "bs_prod s \<noteq> BP_idle" and "bs_prod t \<noteq> BP_idle"
  shows "bprod_item (bs_prod t) = bprod_item (bs_prod s)" "bs_hist t = bs_hist s"
  using assms by (cases; simp)+

lemma bc_cons_frame:
  assumes "bc_cons_step i s t"
  shows "bs_hist t = bs_hist s" "bs_prod t = bs_prod s" "length (bs_cursors t) = length (bs_cursors s)"
    "j \<noteq> i \<Longrightarrow> bs_cons t j = bs_cons s j \<and> bs_cursors t ! j = bs_cursors s ! j \<and> bs_got t j = bs_got s j"
  using assms by (cases; simp)+

lemma bb_prod_keeps:
  assumes step: "bb_prod_step tot s t" and I: "bb_inv warmup tot s" and bound: "tot < 2 ^ 64"
  shows "bb_inv warmup tot t"
proof -
  note D = bb_invD [OF I]
  have sys: "bb_inv warmup tot (s\<lparr>bb_sys := q, bb_prod := pr\<rparr>)"
    if q: "bc_prod_step (bb_sys s) q" and ok: "bb_prod_ok tot q pr"
      and h: "map payload (bs_hist q) = map word_of_nat [0..<length (bs_hist q)]" for q pr
  proof -
    have "length (bs_hist q) \<le> tot" using ok by (cases pr) simp_all
    then have "bc_sys_inv q" using bc_step_keeps_inv [OF D(1)] q bound unfolding bc_step_def by force
    moreover have "bb_cons_ok warmup tot q c j" if "bb_cons_ok warmup tot (bb_sys s) c j" for c j
      using that bc_prod_frame(1-3) [OF q] by (auto simp: bb_cons_ok_def)
    ultimately show ?thesis using D(4,5) ok h bc_prod_frame(2) [OF q] by (simp add: bb_inv_def)
  qed
  from step show ?thesis
  proof cases
    case (pb_call i x q)
    have "bs_hist q = bs_hist (bb_sys s)" using bc_prod_frame(4) [OF pb_call(3)] D(2) pb_call(2) by simp
    then show ?thesis unfolding pb_call(1) using pb_call(2,4) D(2,3) by (intro sys [OF pb_call(3)]) simp_all
  next
    case (pb_run i x q)
    have busy: "bs_prod (bb_sys s) \<noteq> BP_idle" using D(2) pb_run(2) by auto
    note P = bc_prod_item [OF pb_run(3) busy pb_run(4)]
    have "bb_inv warmup tot (s\<lparr>bb_sys := q, bb_prod := BB_try i x\<rparr>)"
      using pb_run(2) D(2,3) P by (intro sys [OF pb_run(3)]) simp_all
    then show ?thesis using pb_run(1,2) by (cases s) simp
  next
    case (pb_true i x y q)
    have "y = x" "length (bs_hist (bb_sys s)) = i" "payload x = word_of_nat i" "i < tot"
      using D(2) pb_true(2,3) by simp_all
    moreover have "bs_hist q = bs_hist (bb_sys s) @ [y]" "bs_prod q = BP_idle"
      using pb_true(4) by (cases; use pb_true(3) in simp)+
    ultimately show ?thesis unfolding pb_true(1) using D(3) by (intro sys [OF pb_true(4)]) simp_all
  next
    case (pb_false i x y q)
    have "bs_hist q = bs_hist (bb_sys s)" using bc_prod_frame(4) [OF pb_false(4)] pb_false(3) by simp
    then show ?thesis unfolding pb_false(1)
      using pb_false(2,3,5) D(2,3) by (intro sys [OF pb_false(4)]) simp_all
  qed (use I in \<open>auto simp: bb_inv_def bb_cons_ok_def\<close>)
qed

lemma bb_callback_fields:
  "cb_n (bb_callback warmup now x c) = cb_n c" "cb_pc (bb_callback warmup now x c) = cb_pc c"
  "lr_count (cb_rec c) + cb_dropped c = cb_n c - warmup \<Longrightarrow>
    lr_count (cb_rec (bb_callback warmup now x c)) + cb_dropped (bb_callback warmup now x c) = Suc (cb_n c) - warmup"
  by (auto simp: bb_callback_def Let_def lr_count_def lr_record_def)

lemma bb_cons_keeps:
  assumes step: "bb_cons_step warmup tot j s t" and I: "bb_inv warmup tot s" and bound: "tot < 2 ^ 64"
  shows "bb_inv warmup tot t"
proof -
  note D = bb_invD [OF I]
  have local: "bb_inv warmup tot (s\<lparr>bb_sys := q, bb_cons := (bb_cons s)[j := c]\<rparr>)"
    if j: "j < length (bb_cons s)" and q: "bc_cons_step j (bb_sys s) q" and c: "bb_cons_ok warmup tot q c j" for q c
  proof -
    note F = bc_cons_frame [OF q]
    have "length (bs_hist q) < 2 ^ 64" using D(6) bound F(1) by simp
    then have "bc_sys_inv q" using bc_step_keeps_inv [OF D(1)] q unfolding bc_step_def by blast
    moreover have "bb_prod_ok tot q (bb_prod s)" using D(2) F(1,2) by (cases "bb_prod s") simp_all
    moreover have "bb_cons_ok warmup tot q c' i" if "bb_cons_ok warmup tot (bb_sys s) c' i" "i \<noteq> j" for c' i
      using that(1) F(4) [OF that(2)] by (auto simp: bb_cons_ok_def)
    then have "bb_cons_ok warmup tot q ((bb_cons s)[j := c] ! i) i" if "i < length (bb_cons s)" for i
      using D(5) [OF that] c j by (cases "i = j") simp_all
    ultimately show ?thesis using D(3,4) F(1,3) by (simp add: bb_inv_def)
  qed
  from step show ?thesis
  proof cases
    case (cb_call c q)
    have "bs_cons q j = BC_load (bs_cursors q ! j)" "bs_cursors q = bs_cursors (bb_sys s)"
      using cb_call(7) by (cases; use cb_call(6) in simp)+
    then show ?thesis unfolding cb_call(1)
      using cb_call(2-6) D(5) [OF cb_call(2)] by (intro local [OF cb_call(2,7)]) (auto simp: bb_cons_ok_def)
  next
    case (cb_none c pos q)
    have "bs_cursors q = bs_cursors (bb_sys s)" using cb_none(5) by (cases; use cb_none(4) in simp)
    then show ?thesis unfolding cb_none(1)
      using cb_none(2-4,6) D(5) [OF cb_none(2)] by (intro local [OF cb_none(2,5)]) (auto simp: bb_cons_ok_def)
  next
    case (cb_some pos q)
    have "bs_cursors q = bs_cursors (bb_sys s)" using cb_some(4) by (cases; use cb_some(3) in simp)
    then have "bb_inv warmup tot (s\<lparr>bb_sys := q, bb_cons := (bb_cons s)[j := bb_cons s ! j]\<rparr>)"
      using cb_some(2,3,5) D(5) [OF cb_some(2)] by (intro local [OF cb_some(2,4)]) (auto simp: bb_cons_ok_def)
    then show ?thesis unfolding cb_some(1) by simp
  next
    case (cb_read c pos q item now)
    have "bs_cursors q = bs_cursors (bb_sys s)" using cb_read(5) by (cases; use cb_read(4) in simp)
    then show ?thesis unfolding cb_read(1)
      using cb_read(2-4,6) D(5) [OF cb_read(2)] bb_callback_fields(1,2) [of warmup now item c]
        bb_callback_fields(3) [of c warmup now item]
      by (intro local [OF cb_read(2,5)]) (auto simp: bb_cons_ok_def)
  next
    case (cb_got c pos item q)
    have j: "j < length (bs_cursors (bb_sys s))" using cb_got(2) D(4) by simp
    have "pos = bs_cursors (bb_sys s) ! j" "unat pos < unat (bs_tail_seen (bb_sys s) j)"
      using bc_sys_invD(9) [OF D(1), of j] unfolding cb_got(4) bcons_ok.simps by blast+
    moreover from this(2) have "unat (pos + 1) = Suc (unat pos)"
      using le_less_trans [OF Suc_leI unat_lt_2p64] by (subst unat_plus1) simp_all
    moreover have "bs_cursors q = (bs_cursors (bb_sys s))[j := pos + 1]" "bs_cons q j = BC_idle"
      using cb_got(5) by (cases; use cb_got(4,6) in simp)+
    ultimately show ?thesis unfolding cb_got(1)
      using cb_got(2-4) D(5) [OF cb_got(2)] j by (intro local [OF cb_got(2,5)]) (auto simp: bb_cons_ok_def)
  next
    case (cb_stop c)
    then show ?thesis using I by (auto simp: bb_inv_def bb_cons_ok_def nth_list_update)
  qed
qed

definition bb_booted :: "bb_bench \<Rightarrow> bool" where
  "bb_booted s \<longleftrightarrow> (\<exists>alloc dflt n capacity q. 0 < n \<and> bc_ctor alloc dflt n capacity = Inr q \<and> s = bb_start n q)"

interpretation bb_machine: guarded_machine bb_booted "bb_step warmup tot" "bb_inv warmup tot" "\<lambda>_. tot" "2 ^ 64" for warmup tot
proof unfold_locales
  show "bb_inv warmup tot s" if "bb_booted s" for s using that bb_start_inv unfolding bb_booted_def by blast
  show "bb_inv warmup tot t" if "bb_inv warmup tot s" "bb_step warmup tot s t" "tot < 2 ^ 64" for s t
    using that bb_prod_keeps bb_cons_keeps unfolding bb_step_def by blast
qed simp

lemma bb_cons_length: "bb_step warmup tot s t \<Longrightarrow> length (bb_cons t) = length (bb_cons s)"
  unfolding bb_step_def by (auto elim!: bb_prod_step.cases bb_cons_step.cases)

definition bb_all_done :: "bb_bench \<Rightarrow> bool" where
  "bb_all_done s \<longleftrightarrow> list_all (\<lambda>c. cb_pc c = CB_done) (bb_cons s)"

lemma bb_reach_inv:
  assumes "reach (\<lambda>s. s = bb_start n q) (bb_step warmup tot) s" and "bc_ctor alloc dflt n capacity = Inr q"
    and "0 < n" and "tot < 2 ^ 64"
  shows "bb_inv warmup tot s \<and> length (bb_cons s) = n"
  using assms(1)
proof (induction rule: reach.induct)
  case (reach_init s)
  then show ?case using bb_start_inv [OF assms(2,3)] by (simp add: bb_start_def)
next
  case (reach_step s t)
  then show ?case using bb_machine.inv_step [of warmup tot s t] assms(4) bb_cons_length by simp
qed

text \<open>What a consumer has seen when its loop has ended.\<close>

lemma bb_books:
  assumes I: "bb_inv warmup tot s" and "bb_all_done s" and j: "j < length (bb_cons s)"
  shows "cb_n (bb_cons s ! j) = tot" and "map payload (bs_got (bb_sys s) j) = map word_of_nat [0..<tot]"
    and "bs_got (bb_sys s) j = bs_hist (bb_sys s)"
    and "lr_count (cb_rec (bb_cons s ! j)) + cb_dropped (bb_cons s ! j) = tot - warmup"
proof -
  note D = bb_invD [OF I]
  have pc: "cb_pc (bb_cons s ! j) = CB_done" using assms(2) j by (simp add: bb_all_done_def list_all_length)
  note C = D(5) [OF j, unfolded bb_cons_ok_def pc]
  have K: "unat (bs_cursors (bb_sys s) ! j) \<le> length (bs_hist (bb_sys s))"
    "bs_got (bb_sys s) j = take (unat (bs_cursors (bb_sys s) ! j)) (bs_hist (bb_sys s))"
    using bc_sys_invD(7) [OF D(1)] j D(4) by (simp_all add: cursors_ok_def)
  then have e: "unat (bs_cursors (bb_sys s) ! j) = tot" "length (bs_hist (bb_sys s)) = tot" using C D(6) by simp_all
  show "cb_n (bb_cons s ! j) = tot" "lr_count (cb_rec (bb_cons s ! j)) + cb_dropped (bb_cons s ! j) = tot - warmup"
    using C e by simp_all
  show "bs_got (bb_sys s) j = bs_hist (bb_sys s)" using K(2) e by simp
  then show "map payload (bs_got (bb_sys s) j) = map word_of_nat [0..<tot]" using D(3) e by simp
qed

section \<open>Runs to the end\<close>

text \<open>
  A schedule that ends the benchmark: consumers that have something to do go first, and loads
  return the latest value; a producer that has found the queue full by a stale scan retries.
  \<open>cb_rank\<close> and \<open>pb_rank\<close> count the steps that are left until a consumer waits for the next item
  and until the producer has published one.
\<close>

fun cb_rank :: "nat \<Rightarrow> nat \<Rightarrow> 'a bcons \<Rightarrow> bb_consumer \<Rightarrow> nat" where
  "cb_rank tot T b c = (case cb_pc c of
     CB_done \<Rightarrow> 0
   | CB_loop \<Rightarrow> if cb_n c < T \<or> tot \<le> cb_n c then 4 else 0
   | CB_in \<Rightarrow> bcons_rank b)"

definition cb_work :: "nat \<Rightarrow> bench_item bc_sys \<Rightarrow> bb_consumer \<Rightarrow> nat \<Rightarrow> nat" where
  "cb_work tot q c j = 5 * (tot - cb_n c) + cb_rank tot (length (bs_hist q)) (bs_cons q j) c"

definition bb_room :: "bench_item bc_sys \<Rightarrow> size_t \<Rightarrow> bool" where
  "bb_room q m \<longleftrightarrow> \<not> bs_tail q - m \<ge> bs_capacity q"

fun bp_rank :: "nat \<Rightarrow> (size_t \<Rightarrow> bool) \<Rightarrow> size_t \<Rightarrow> 'a bprod \<Rightarrow> nat" where
  "bp_rank n room c BP_idle = 0"
| "bp_rank n room c (BP_gate x) = n + 9"
| "bp_rank n room c (BP_first x) = n + 8"
| "bp_rank n room c (BP_scan x k m) = (n - k) + 5 + (if room m then 0 else n + 20)"
| "bp_rank n room c (BP_recheck x) = 4 + (if room c then 0 else n + 20)"
| "bp_rank n room c (BP_write x) = 2"
| "bp_rank n room c (BP_store x) = 1"

fun pb_rank :: "bench_item bc_sys \<Rightarrow> bb_producer \<Rightarrow> nat" where
  "pb_rank q (BB_loop i) = length (bs_cursors q) + 12"
| "pb_rank q (BB_item i x) = length (bs_cursors q) + 10"
| "pb_rank q (BB_try i x) = bp_rank (length (bs_cursors q)) (bb_room q) (bs_cached_min q) (bs_prod q)"
| "pb_rank q BB_done = 0"

lemma bb_cons_moves:
  assumes I: "bb_inv warmup tot s" and j: "j < length (bb_cons s)"
    and todo: "cb_rank tot (length (bs_hist (bb_sys s))) (bs_cons (bb_sys s) j) (bb_cons s ! j) \<noteq> 0"
  shows "\<exists>q c. bb_cons_step warmup tot j s (s\<lparr>bb_sys := q, bb_cons := (bb_cons s)[j := c]\<rparr>)
    \<and> bs_hist q = bs_hist (bb_sys s) \<and> (\<forall>i. i \<noteq> j \<longrightarrow> bs_cons q i = bs_cons (bb_sys s) i)
    \<and> cb_work tot q c j < cb_work tot (bb_sys s) (bb_cons s ! j) j"
proof -
  note D = bb_invD [OF I]
  note B = bc_sys_invD [OF D(1)]
  define c where "c = bb_cons s ! j"
  note C = D(5) [OF j, folded c_def, unfolded bb_cons_ok_def]
  have frame: "\<forall>i. i \<noteq> j \<longrightarrow> bs_cons q i = bs_cons (bb_sys s) i" "bs_hist q = bs_hist (bb_sys s)"
    if "bc_cons_step j (bb_sys s) q" for q using bc_cons_frame(1,4) [OF that] by auto
  have le: "unat (bs_cursors (bb_sys s) ! j) \<le> length (bs_hist (bb_sys s))"
    using B(7) j D(4) by (simp add: cursors_ok_def)
  have same: "s\<lparr>bb_sys := q, bb_cons := (bb_cons s)[j := c]\<rparr> = s\<lparr>bb_sys := q\<rparr>" for q
    by (cases s) (simp add: c_def)
  have tail: "bs_tail_seen (bb_sys s) j \<le> bs_tail (bb_sys s)" using B(4,8) by (simp add: word_le_nat_alt)
  show ?thesis
  proof (cases "cb_pc c")
    case CB_loop
    then have idle: "bs_cons (bb_sys s) j = BC_idle" using C by simp
    show ?thesis
    proof (cases "cb_n c < tot")
      case True
      let ?q = "(bb_sys s)\<lparr>bs_cons := (bs_cons (bb_sys s))(j := BC_load (bs_cursors (bb_sys s) ! j))\<rparr>"
      have q: "bc_cons_step j (bb_sys s) ?q" using bc_call [OF _ idle] j D(4) by simp
      from cb_call [OF j c_def CB_loop True idle q] show ?thesis
        by (intro exI [of _ ?q] exI [of _ "c\<lparr>cb_pc := CB_in\<rparr>"])
          (use frame [OF q] todo CB_loop True in \<open>simp add: cb_work_def flip: c_def split: if_splits\<close>)
    next
      case False
      from cb_stop [OF j c_def CB_loop False] show ?thesis
        by (intro exI [of _ "bb_sys s"] exI [of _ "c\<lparr>cb_pc := CB_done\<rparr>"])
          (use CB_loop False in \<open>simp add: cb_work_def flip: c_def\<close>)
    qed
  next
    case CB_in
    show ?thesis
    proof (cases "bs_cons (bb_sys s) j")
      case (BC_load pos)
      have pos: "unat pos = cb_n c" using B(9) [of j] BC_load C by simp
      show ?thesis
      proof (cases "pos \<ge> bs_tail (bb_sys s)")
        case True
        let ?q = "(bb_sys s)\<lparr>bs_tail_seen := (bs_tail_seen (bb_sys s))(j := bs_tail (bb_sys s)),
          bs_cons := (bs_cons (bb_sys s))(j := BC_idle)\<rparr>"
        have q: "bc_cons_step j (bb_sys s) ?q" using bc_none [OF BC_load tail order_refl True] .
        have "length (bs_hist (bb_sys s)) \<le> cb_n c" using True pos B(4) by (simp add: word_le_nat_alt)
        then have "cb_work tot ?q (c\<lparr>cb_pc := CB_loop\<rparr>) j < cb_work tot (bb_sys s) c j"
          using CB_in BC_load C by (auto simp: cb_work_def)
        then show ?thesis using cb_none [OF j c_def BC_load q]
          by (intro exI [of _ ?q] exI [of _ "c\<lparr>cb_pc := CB_loop\<rparr>"])
            (use frame [OF q] in \<open>simp flip: c_def\<close>)
      next
        case False
        let ?q = "(bb_sys s)\<lparr>bs_tail_seen := (bs_tail_seen (bb_sys s))(j := bs_tail (bb_sys s)),
          bs_cons := (bs_cons (bb_sys s))(j := BC_in pos)\<rparr>"
        have q: "bc_cons_step j (bb_sys s) ?q" using bc_some [OF BC_load tail order_refl False] .
        from cb_some [OF j BC_load q] show ?thesis
          by (intro exI [of _ ?q] exI [of _ c])
            (use frame [OF q] CB_in BC_load in \<open>simp add: cb_work_def same flip: c_def\<close>)
      qed
    next
      case (BC_in pos)
      let ?x = "bs_slots (bb_sys s) ! unat (pos AND bs_mask (bb_sys s))"
      let ?q = "(bb_sys s)\<lparr>bs_cons := (bs_cons (bb_sys s))(j := BC_read pos ?x)\<rparr>"
      have q: "bc_cons_step j (bb_sys s) ?q" using bc_read [OF BC_in refl] .
      from cb_read [OF j c_def BC_in q, where item = ?x and now = 0] show ?thesis
        by (intro exI [of _ ?q] exI [of _ "bb_callback warmup 0 ?x c"])
          (use frame [OF q] CB_in BC_in in \<open>simp add: cb_work_def bb_callback_fields flip: c_def\<close>)
    next
      case (BC_read pos x)
      let ?q = "(bb_sys s)\<lparr>bs_cursors := (bs_cursors (bb_sys s))[j := pos + 1],
        bs_got := (bs_got (bb_sys s))(j := bs_got (bb_sys s) j @ [x]), bs_cons := (bs_cons (bb_sys s))(j := BC_idle)\<rparr>"
      have q: "bc_cons_step j (bb_sys s) ?q" using bc_store [OF BC_read] .
      have "cb_n c < tot" using C CB_in by blast
      then have "tot - cb_n c = Suc (tot - Suc (cb_n c))" by (simp add: Suc_diff_Suc)
      with cb_got [OF j c_def BC_read q] show ?thesis
        by (intro exI [of _ ?q] exI [of _ "c\<lparr>cb_n := Suc (cb_n c), cb_pc := CB_loop\<rparr>"])
          (use frame [OF q] CB_in BC_read in \<open>simp add: cb_work_def flip: c_def\<close>)
    qed (use CB_in C in simp)
  qed (use todo c_def in simp)
qed


lemma bb_prod_moves:
  assumes I: "bb_inv warmup tot s" and "bb_prod s \<noteq> BB_done"
    and waiting: "\<And>j. j < length (bb_cons s) \<Longrightarrow> unat (bs_cursors (bb_sys s) ! j) = length (bs_hist (bb_sys s))"
  shows "\<exists>q pr. bb_prod_step tot s (s\<lparr>bb_sys := q, bb_prod := pr\<rparr>)
    \<and> (length (bs_hist q) = Suc (length (bs_hist (bb_sys s))) \<or>
        bs_hist q = bs_hist (bb_sys s) \<and> bs_cons q = bs_cons (bb_sys s) \<and> pb_rank q pr < pb_rank (bb_sys s) (bb_prod s))"
proof -
  note D = bb_invD [OF I]
  note B = bc_sys_invD [OF D(1)]
  let ?q = "bb_sys s" and ?n = "length (bs_cursors (bb_sys s))"
  have n: "0 < ?n" using B(7) by (simp add: cursors_ok_def)
  have cur: "bs_cursors ?q ! k = bs_tail ?q" if "k < ?n" for k
    using waiting [of k] that B(4) D(4) by (simp add: word_eq_iff_unat)
  have seen: "bs_cur_seen ?q ! k \<le> bs_cursors ?q ! k" if "k < ?n" for k
    using B(7) that by (simp add: cursors_ok_def word_le_nat_alt)
  have room: "bb_room ?q (bs_tail ?q)" using B(2) by (simp add: bb_room_def word_le_nat_alt)
  show ?thesis
  proof (cases "bb_prod s")
    case (BB_loop i)
    show ?thesis
    proof (cases "i < tot")
      case True
      from pb_stamp [OF BB_loop True refl, of 0] show ?thesis
        by (intro exI [of _ ?q] exI [of _ "BB_item i \<lparr>enqueue_ns = 0, payload = word_of_nat i\<rparr>"]) (use BB_loop in simp)
    next
      case False
      from pb_done [OF BB_loop False] show ?thesis
        by (intro exI [of _ ?q] exI [of _ BB_done]) (use BB_loop in simp)
    qed
  next
    case (BB_item i x)
    then have "bs_prod ?q = BP_idle" using D(2) by simp
    from pb_call [OF BB_item bp_call [OF this, of x]] show ?thesis
      by (intro exI [of _ "?q\<lparr>bs_prod := BP_gate x\<rparr>"] exI [of _ "BB_try i x"]) (use BB_item in simp)
  next
    case (BB_try i x)
    have run: ?thesis if "bc_prod_step ?q q" "bs_prod q \<noteq> BP_idle" "bs_hist q = bs_hist ?q" "bs_cons q = bs_cons ?q"
      "pb_rank q (BB_try i x) < pb_rank ?q (BB_try i x)" for q
      using pb_run [OF BB_try that(1,2)] that BB_try
      by (intro exI [of _ q] exI [of _ "BB_try i x"]) (cases s, simp)
    have r: "bb_room (?q\<lparr>bs_prod := pc\<rparr>) = bb_room ?q" "bb_room (?q\<lparr>bs_cur_seen := cs, bs_prod := pc\<rparr>) = bb_room ?q"
      "bb_room (?q\<lparr>bs_cached_min := m, bs_prod := pc\<rparr>) = bb_room ?q" for pc cs m by (simp_all add: bb_room_def fun_eq_iff)
    show ?thesis
    proof (cases "bs_prod ?q")
      case BP_idle
      then show ?thesis using D(2) BB_try by simp
    next
      case (BP_gate y)
      show ?thesis
      proof (cases "bs_tail ?q - bs_cached_min ?q \<ge> bs_capacity ?q")
        case True
        from bp_rescan [OF BP_gate True] show ?thesis by (rule run) (use BP_gate in simp_all)
      next
        case False
        from bp_cached [OF BP_gate False] show ?thesis by (rule run) (use BP_gate in simp_all)
      qed
    next
      case (BP_first y)
      from bp_first [OF BP_first seen [OF n] order_refl] show ?thesis
        by (rule run) (use BP_first n room cur [OF n] in \<open>simp_all add: r\<close>)
    next
      case (BP_scan y k m)
      show ?thesis
      proof (cases "k < ?n")
        case True
        from bp_next [OF BP_scan True seen [OF True] order_refl] show ?thesis
        proof (rule run)
          have "(?n - Suc k) + 5 < (?n - k) + 5" using True by linarith
          then show "pb_rank (?q\<lparr>bs_cur_seen := (bs_cur_seen ?q)[k := bs_cursors ?q ! k],
              bs_prod := BP_scan y (Suc k) (if bs_cursors ?q ! k < m then bs_cursors ?q ! k else m)\<rparr>) (BB_try i x)
            < pb_rank ?q (BB_try i x)"
            using BP_scan room cur [OF True] by (simp add: r del: add_diff_assoc2 diff_Suc_eq_diff_pred)
        qed simp_all
      next
        case False
        from bp_cache [OF BP_scan False] show ?thesis by (rule run) (use BP_scan False in \<open>simp_all add: r\<close>)
      qed
    next
      case (BP_recheck y)
      show ?thesis
      proof (cases "bs_tail ?q - bs_cached_min ?q \<ge> bs_capacity ?q")
        case True
        from pb_false [OF BB_try BP_recheck bp_full [OF BP_recheck True]] show ?thesis
          by (intro exI [of _ "?q\<lparr>bs_prod := BP_idle\<rparr>"] exI [of _ "BB_item i x"])
            (use BB_try BP_recheck True in \<open>simp add: bb_room_def\<close>)
      next
        case False
        from bp_space [OF BP_recheck False] show ?thesis by (rule run) (use BP_recheck in simp_all)
      qed
    next
      case (BP_write y)
      from bp_write [OF this] show ?thesis by (rule run) (use BP_write in simp_all)
    next
      case (BP_store y)
      from pb_true [OF BB_try BP_store bp_store [OF BP_store]] show ?thesis by (intro exI) (auto intro: exI)
    qed
  qed (use assms in simp)
qed

definition bb_work :: "nat \<Rightarrow> bb_bench \<Rightarrow> nat" where
  "bb_work tot s = (\<Sum>j < length (bb_cons s). cb_work tot (bb_sys s) (bb_cons s ! j) j)"

definition bb_measure :: "nat \<Rightarrow> bb_bench \<Rightarrow> nat \<times> nat \<times> nat" where
  "bb_measure tot s = (tot - length (bs_hist (bb_sys s)), bb_work tot s, pb_rank (bb_sys s) (bb_prod s))"

definition bb_less :: "((nat \<times> nat \<times> nat) \<times> nat \<times> nat \<times> nat) set" where
  "bb_less = less_than <*lex*> less_than <*lex*> less_than"

lemma wf_bb_less: "wf bb_less"
  by (simp add: bb_less_def wf_lex_prod)

lemma bb_work_less:
  assumes j: "j < length (bb_cons s)" and same: "bs_hist q = bs_hist (bb_sys s)"
    "\<forall>i. i \<noteq> j \<longrightarrow> bs_cons q i = bs_cons (bb_sys s) i"
    and less: "cb_work tot q c j < cb_work tot (bb_sys s) (bb_cons s ! j) j"
  shows "bb_work tot (s\<lparr>bb_sys := q, bb_cons := (bb_cons s)[j := c]\<rparr>) < bb_work tot s"
proof -
  have other: "cb_work tot q c' i = cb_work tot (bb_sys s) c' i" if "i \<noteq> j" for c' i
    using that same by (simp add: cb_work_def)
  have "(\<Sum>i < length (bb_cons s). cb_work tot q ((bb_cons s)[j := c] ! i) i)
      < (\<Sum>i < length (bb_cons s). cb_work tot (bb_sys s) (bb_cons s ! i) i)"
  proof (rule sum_strict_mono_ex1)
    show "\<forall>i \<in> {..<length (bb_cons s)}. cb_work tot q ((bb_cons s)[j := c] ! i) i \<le> cb_work tot (bb_sys s) (bb_cons s ! i) i"
      using less other j by (metis lessThan_iff nat_less_le nth_list_update_eq nth_list_update_neq order_refl)
    show "\<exists>i \<in> {..<length (bb_cons s)}. cb_work tot q ((bb_cons s)[j := c] ! i) i < cb_work tot (bb_sys s) (bb_cons s ! i) i"
      using less j by (intro bexI [of _ j]) simp_all
  qed simp
  then show ?thesis by (simp add: bb_work_def)
qed

lemma bb_advances:
  assumes I: "bb_inv warmup tot s" and bound: "tot < 2 ^ 64" and open_end: "bb_prod s \<noteq> BB_done \<or> \<not> bb_all_done s"
  shows "\<exists>t. bb_step warmup tot s t \<and> (bb_measure tot t, bb_measure tot s) \<in> bb_less"
proof (cases "\<exists>j < length (bb_cons s). cb_rank tot (length (bs_hist (bb_sys s))) (bs_cons (bb_sys s) j) (bb_cons s ! j) \<noteq> 0")
  case True
  then obtain j where j: "j < length (bb_cons s)"
    "cb_rank tot (length (bs_hist (bb_sys s))) (bs_cons (bb_sys s) j) (bb_cons s ! j) \<noteq> 0" by blast
  from bb_cons_moves [OF I j] obtain q c where q: "bb_cons_step warmup tot j s (s\<lparr>bb_sys := q, bb_cons := (bb_cons s)[j := c]\<rparr>)"
    "bs_hist q = bs_hist (bb_sys s)" "\<forall>i. i \<noteq> j \<longrightarrow> bs_cons q i = bs_cons (bb_sys s) i"
    "cb_work tot q c j < cb_work tot (bb_sys s) (bb_cons s ! j) j" by blast
  let ?t = "s\<lparr>bb_sys := q, bb_cons := (bb_cons s)[j := c]\<rparr>"
  have "bb_step warmup tot s ?t" using q(1) unfolding bb_step_def by blast
  moreover have "(bb_measure tot ?t, bb_measure tot s) \<in> bb_less"
    using bb_work_less [OF j(1) q(2-4)] q(2) by (simp add: bb_measure_def bb_less_def)
  ultimately show ?thesis by blast
next
  case False
  note D = bb_invD [OF I]
  have wait: "cb_pc (bb_cons s ! j) = CB_done \<or> length (bs_hist (bb_sys s)) \<le> cb_n (bb_cons s ! j) \<and> cb_n (bb_cons s ! j) < tot"
    if "j < length (bb_cons s)" for j
  proof (cases "cb_pc (bb_cons s ! j)")
    case CB_in
    then have "bs_cons (bb_sys s) j \<noteq> BC_idle" using D(5) [OF that] by (simp add: bb_cons_ok_def)
    then have "bcons_rank (bs_cons (bb_sys s) j) \<noteq> 0" by (cases "bs_cons (bb_sys s) j") simp_all
    with False that CB_in show ?thesis by fastforce
  qed (use False that in \<open>auto split: if_splits\<close>)
  have cur: "unat (bs_cursors (bb_sys s) ! j) = length (bs_hist (bb_sys s))" if "j < length (bb_cons s)" for j
  proof -
    have "unat (bs_cursors (bb_sys s) ! j) \<le> length (bs_hist (bb_sys s))"
      using bc_sys_invD(7) [OF D(1)] that D(4) by (simp add: cursors_ok_def)
    then show ?thesis using wait [OF that] D(5) [OF that] D(6) by (auto simp: bb_cons_ok_def)
  qed
  show ?thesis
  proof (cases "bb_prod s = BB_done")
    case True
    then have "length (bs_hist (bb_sys s)) = tot" using D(2) by simp
    then have "bb_all_done s" using wait by (fastforce simp: bb_all_done_def list_all_length)
    with True open_end show ?thesis by blast
  next
    case False
    from bb_prod_moves [OF I False cur] obtain q pr where q: "bb_prod_step tot s (s\<lparr>bb_sys := q, bb_prod := pr\<rparr>)"
      and r: "length (bs_hist q) = Suc (length (bs_hist (bb_sys s))) \<or>
        bs_hist q = bs_hist (bb_sys s) \<and> bs_cons q = bs_cons (bb_sys s) \<and> pb_rank q pr < pb_rank (bb_sys s) (bb_prod s)"
      by blast
    let ?t = "s\<lparr>bb_sys := q, bb_prod := pr\<rparr>"
    have le: "length (bs_hist q) \<le> tot" using bb_invD(6) [OF bb_prod_keeps [OF q I bound]] by simp
    from r have "(bb_measure tot ?t, bb_measure tot s) \<in> bb_less"
    proof
      assume same: "bs_hist q = bs_hist (bb_sys s) \<and> bs_cons q = bs_cons (bb_sys s) \<and> pb_rank q pr < pb_rank (bb_sys s) (bb_prod s)"
      then have "bb_work tot ?t = bb_work tot s" by (simp add: bb_work_def cb_work_def)
      with same show ?thesis by (simp add: bb_measure_def bb_less_def)
    qed (use le in \<open>simp add: bb_measure_def bb_less_def diff_less_mono2\<close>)
    moreover have "bb_step warmup tot s ?t" using q by (simp add: bb_step_def)
    ultimately show ?thesis by blast
  qed
qed

lemma bb_finish_run:
  assumes "bb_inv warmup tot s" and bound: "tot < 2 ^ 64"
  shows "\<exists>t. (bb_step warmup tot)\<^sup>*\<^sup>* s t \<and> bb_prod t = BB_done \<and> bb_all_done t"
  using assms(1)
proof (induction "bb_measure tot s" arbitrary: s rule: wf_induct_rule [OF wf_bb_less])
  case (1 s)
  show ?case
  proof (cases "bb_prod s = BB_done \<and> bb_all_done s")
    case True
    then show ?thesis by blast
  next
    case False
    with bb_advances [OF 1(2) bound] obtain r where
      r: "bb_step warmup tot s r" "(bb_measure tot r, bb_measure tot s) \<in> bb_less" by blast
    from bb_machine.inv_step [OF 1(2) r(1) bound] 1(1) [OF r(2)] obtain t where
      "(bb_step warmup tot)\<^sup>*\<^sup>* r t" "bb_prod t = BB_done" "bb_all_done t" by blast
    then show ?thesis using converse_rtranclp_into_rtranclp [of "bb_step warmup tot", OF r(1)] by blast
  qed
qed

lemma bb_steps_reach: "(bb_step warmup tot)\<^sup>*\<^sup>* s t \<Longrightarrow> reach init (bb_step warmup tot) s \<Longrightarrow> reach init (bb_step warmup tot) t"
  by (induction rule: rtranclp_induct) (auto intro: reach_step)

section \<open>What the benchmark reports\<close>

text \<open>
  C20. What \<open>run_broadcast_benchmark\<close> measures is complete, and it can always finish: when all
  consumer threads have left their loops, each of them has received the whole stream of
  \<open>warmup + measure\<close> items in order and unchanged, and the merged recorder holds \<open>measure\<close>
  samples for each consumer, less those with a negative latency; and from every state the
  benchmark can reach some run leads to such an end, so that no interleaving of the
  retrying producer and the polling consumers is a dead end.
\<close>

theorem bb_delivers_and_finishes:
  assumes "bc_ctor alloc dflt n capacity = Inr q" and "0 < n" and "warmup + msr < 2 ^ 64"
    and "reach (\<lambda>s. s = bb_start n q) (bb_step warmup (warmup + msr)) s"
  shows "(bb_all_done s \<longrightarrow> length (bb_cons s) = n
      \<and> list_all (\<lambda>j. cb_n (bb_cons s ! j) = warmup + msr \<and> bs_got (bb_sys s) j = bs_hist (bb_sys s)
          \<and> map payload (bs_got (bb_sys s) j) = map word_of_nat [0..<warmup + msr]) [0..<n]
      \<and> lr_count (bb_merged s) + sum_list (map cb_dropped (bb_cons s)) = n * msr)
    \<and> (\<exists>t. (bb_step warmup (warmup + msr))\<^sup>*\<^sup>* s t \<and> bb_prod t = BB_done \<and> bb_all_done t)"
proof -
  have I: "bb_inv warmup (warmup + msr) s" and n: "length (bb_cons s) = n" using bb_reach_inv [OF assms(4,1-3)] by simp_all
  have "lr_count (bb_merged s) + sum_list (map cb_dropped (bb_cons s)) = n * msr" if "bb_all_done s"
  proof -
    have "map (\<lambda>c. lr_count (cb_rec c) + cb_dropped c) (bb_cons s) = replicate n msr"
      using bb_books(4) [OF I that] n by (simp add: list_eq_iff_nth_eq)
    then have "sum_list (map (\<lambda>c. lr_count (cb_rec c) + cb_dropped c) (bb_cons s)) = n * msr"
      by (simp add: sum_list_replicate)
    then show ?thesis by (simp add: bb_merged_def merged_count sum_list_addf comp_def)
  qed
  then show ?thesis using bb_books(1-3) [OF I] n bb_finish_run [OF I assms(3)] by (simp add: list_all_iff)
qed

text \<open>Three consumers, two of five items being measured, in a ring of two.\<close>

definition bb_q0 :: "bench_item bcast" where
  "bb_q0 = \<lparr>b_capacity = 2, b_mask = 1, b_slots = replicate 2 \<lparr>enqueue_ns = 0, payload = 0\<rparr>, b_tail = 0,
     b_cached_min = 0, b_cursors = replicate 3 0\<rparr>"

theorem bb_delivers_and_finishes_witness:
  "\<exists>s. reach (\<lambda>s. s = bb_start 3 bb_q0) (bb_step 3 5) s \<and> bb_all_done s
    \<and> lr_count (bb_merged s) + sum_list (map cb_dropped (bb_cons s)) = 6"
proof -
  have c: "bc_ctor (\<lambda>_. None) \<lparr>enqueue_ns = 0, payload = 0\<rparr> 3 2 = Inr bb_q0"
    by (simp add: bc_ctor_def bc_check_and_round_capacity_def bit_ceil_values bb_q0_def)
  have r: "reach (\<lambda>s. s = bb_start 3 bb_q0) (bb_step 3 (3 + 2)) (bb_start 3 bb_q0)" by (simp add: reach_init)
  from bb_delivers_and_finishes [OF c _ _ r] obtain s where
    s: "(bb_step 3 (3 + 2))\<^sup>*\<^sup>* (bb_start 3 bb_q0) s" "bb_all_done s" by auto
  note rs = bb_steps_reach [OF s(1) r]
  from bb_delivers_and_finishes [OF c _ _ rs] rs s(2) show ?thesis by auto
qed

end
