(* ===== verification/Benchmark_Overwrite.thy ===== *)
theory Benchmark_Overwrite
  imports Benchmark Overwrite_Concurrent
begin

text \<open>
  \<open>run_overwrite_benchmark\<close> of \<open>benchmark/BenchmarkMain.cpp\<close> on the concurrent model of
  \<open>SPMCOverwriteQueue\<close>: the producer publishes \<open>warmup + measure\<close> items and then sets the flag
  \<open>done\<close>; the consumers, whose handles were made before, read until the producer is done and
  the ring has drained, which they decide by an Empty after having seen the flag. Inside
  \<open>publish\<close> and \<open>try_read\<close> the threads move by the steps of \<open>Overwrite_Concurrent\<close>, so all its
  interleavings and stale loads are there; the clock may return anything. \<open>oq_dropped\<close>
  counts the measured items whose latency was negative.
\<close>

section \<open>Items as bytes\<close>

text \<open>An \<open>Item\<close> is two 64-bit fields, laid out with the low byte first and no padding.\<close>

type_synonym byte = "8 word"

definition word_bytes :: "nat \<Rightarrow> u64 \<Rightarrow> byte list" where
  "word_bytes n w = map (\<lambda>k. ucast (drop_bit (8 * k) w)) [0..<n]"

fun bytes_word :: "byte list \<Rightarrow> u64" where
  "bytes_word [] = 0"
| "bytes_word (b # bs) = ucast b OR push_bit 8 (bytes_word bs)"

definition item_bytes :: "bench_item \<Rightarrow> byte list" where
  "item_bytes x = word_bytes 8 (enqueue_ns x) @ word_bytes 8 (payload x)"

definition bytes_item :: "byte list \<Rightarrow> bench_item" where
  "bytes_item bs = \<lparr>enqueue_ns = bytes_word (take 8 bs), payload = bytes_word (drop 8 bs)\<rparr>"

lemma bytes_word_bytes: "bytes_word (word_bytes n w) = take_bit (8 * n) w"
proof (induction n arbitrary: w)
  case (Suc n)
  have "word_bytes (Suc n) w = ucast w # word_bytes n (drop_bit 8 w)"
    unfolding word_bytes_def by (subst upt_conv_Cons) (simp_all add: map_Suc_upt [symmetric] drop_bit_drop_bit add.commute del: upt_Suc)
  then have "bytes_word (word_bytes (Suc n) w) = ucast (ucast w :: byte) OR push_bit 8 (take_bit (8 * n) (drop_bit 8 w))"
    using Suc by simp
  also have "\<dots> = take_bit (8 * Suc n) w"
    by (rule bit_word_eqI) (auto simp: bit_simps)
  finally show ?case .
qed (simp add: word_bytes_def)

lemma length_item_bytes [simp]: "length (item_bytes x) = 16"
  by (simp add: item_bytes_def word_bytes_def)

lemma bytes_item_bytes [simp]: "bytes_item (item_bytes x) = x"
proof -
  have "take_bit 64 w = w" for w :: u64 by (rule bit_word_eqI) (auto simp: bit_simps)
  then have "bytes_word (word_bytes 8 w) = w" for w by (simp add: bytes_word_bytes)
  moreover have "length (word_bytes 8 w) = 8" for w by (simp add: word_bytes_def)
  ultimately show ?thesis by (simp add: bytes_item_def item_bytes_def)
qed

section \<open>State and steps\<close>

datatype ob_producer =
  QP_loop nat | QP_run nat                \<comment> \<open>inside \<open>publish\<close> of item \<open>i\<close>\<close>
| QP_done

datatype ob_pc =
  QC_loop | QC_read                       \<comment> \<open>inside \<open>try_read\<close>\<close>
| QC_ret status | QC_done

record ob_consumer =
  oq_pc :: ob_pc
  oq_n :: nat
  oq_draining :: bool
  oq_rec :: recorder
  oq_dropped :: nat

record ob_bench =
  ob_sys :: "byte ow_sys"
  ob_prod :: ob_producer
  ob_done :: "nat option"                 \<comment> \<open>\<open>done\<close>: the stores of the producer before it was set\<close>
  ob_cons :: "ob_consumer list"

text \<open>\<open>make_consumer\<close>, called by the main thread before the others start.\<close>

definition ob_make :: "nat \<Rightarrow> 'b ow_sys \<Rightarrow> 'b ow_sys" where
  "ob_make i s = s\<lparr>w_cur := (w_cur s)(i := \<lparr>oc_pos = 0 + 1, oc_missed = 0\<rparr>),
     w_view := (w_view s)(i := saw_relaxed (w_log s) L_published 0 (w_view s i)),
     w_start := (w_start s)(i := unat (0 + 1 :: size_t)), w_cons := (w_cons s)(i := OC_idle)\<rparr>"

definition ob_start :: "nat \<Rightarrow> byte list owq \<Rightarrow> ob_bench" where
  "ob_start n_consumers q = \<lparr>ob_sys = fold ob_make [0..<n_consumers] (ow_boot 16 q), ob_prod = QP_loop 0, ob_done = None,
     ob_cons = replicate n_consumers \<lparr>oq_pc = QC_loop, oq_n = 0, oq_draining = False, oq_rec = lr_new, oq_dropped = 0\<rparr>\<rparr>"

text \<open>The constructor of \<open>Item\<close> does not throw.\<close>

inductive ob_prod_step :: "nat \<Rightarrow> ob_bench \<Rightarrow> ob_bench \<Rightarrow> bool" for tot where
  qp_stamp: "ob_prod s = QP_loop i \<Longrightarrow> i < tot \<Longrightarrow> x = \<lparr>enqueue_ns = ts, payload = word_of_nat i\<rparr> \<Longrightarrow>
    ow_prod_step (ob_sys s) q \<Longrightarrow> w_prod q = OP_mark (item_bytes x) pos \<Longrightarrow>
    ob_prod_step tot s (s\<lparr>ob_sys := q, ob_prod := QP_run i\<rparr>)"
| qp_run: "ob_prod s = QP_run i \<Longrightarrow> w_prod (ob_sys s) \<noteq> OP_idle \<Longrightarrow>
    ow_prod_step (ob_sys s) q \<Longrightarrow> None \<notin> set (w_hist q) \<Longrightarrow>
    ob_prod_step tot s (s\<lparr>ob_sys := q\<rparr>)"
| qp_return: "ob_prod s = QP_run i \<Longrightarrow> w_prod (ob_sys s) = OP_idle \<Longrightarrow>
    ob_prod_step tot s (s\<lparr>ob_prod := QP_loop (Suc i)\<rparr>)"
| qp_done: "ob_prod s = QP_loop i \<Longrightarrow> \<not> i < tot \<Longrightarrow>
    ob_prod_step tot s (s\<lparr>ob_done := Some (length (w_log (ob_sys s))), ob_prod := QP_done\<rparr>)"

text \<open>What \<open>try_read\<close> returns, seen from its last program point.\<close>

fun ow_status :: "'b ocon \<Rightarrow> status" where
  "ow_status OC_load = Empty_status"
| "ow_status (OC_copy s1 D out) = Ok"
| "ow_status _ = Lapped"

definition ob_measure :: "nat \<Rightarrow> u64 \<Rightarrow> bench_item \<Rightarrow> ob_consumer \<Rightarrow> ob_consumer" where
  "ob_measure warmup now x c =
     (let c' = (if oq_n c \<ge> warmup
        then (let lat = now - enqueue_ns x in
          if sint lat \<ge> 0 then c\<lparr>oq_rec := lr_record lat (oq_rec c)\<rparr> else c\<lparr>oq_dropped := Suc (oq_dropped c)\<rparr>)
        else c) in
      c'\<lparr>oq_n := Suc (oq_n c), oq_pc := QC_loop\<rparr>)"

text \<open>
  Consumer \<open>j\<close>. The acquire load of \<open>done\<close> may return the old value at any time; when it returns
  the new one, everything the producer did before setting it happened before.
\<close>

inductive ob_cons_step :: "nat \<Rightarrow> nat \<Rightarrow> ob_bench \<Rightarrow> ob_bench \<Rightarrow> bool" for warmup j where
  qc_call: "j < length (ob_cons s) \<Longrightarrow> c = ob_cons s ! j \<Longrightarrow> oq_pc c = QC_loop \<Longrightarrow>
    ow_cons_step j (ob_sys s) q \<Longrightarrow> w_cons (ob_sys s) j = OC_idle \<Longrightarrow>
    ob_cons_step warmup j s (s\<lparr>ob_sys := q, ob_cons := (ob_cons s)[j := c\<lparr>oq_pc := QC_read\<rparr>]\<rparr>)"
| qc_run: "j < length (ob_cons s) \<Longrightarrow> oq_pc (ob_cons s ! j) = QC_read \<Longrightarrow>
    ow_cons_step j (ob_sys s) q \<Longrightarrow> w_cons q j \<noteq> OC_idle \<Longrightarrow>
    ob_cons_step warmup j s (s\<lparr>ob_sys := q\<rparr>)"
| qc_return: "j < length (ob_cons s) \<Longrightarrow> c = ob_cons s ! j \<Longrightarrow> oq_pc c = QC_read \<Longrightarrow>
    ow_cons_step j (ob_sys s) q \<Longrightarrow> w_cons q j = OC_idle \<Longrightarrow>
    ob_cons_step warmup j s (s\<lparr>ob_sys := q,
      ob_cons := (ob_cons s)[j := c\<lparr>oq_pc := QC_ret (ow_status (w_cons (ob_sys s) j))\<rparr>]\<rparr>)"
| qc_ok: "j < length (ob_cons s) \<Longrightarrow> c = ob_cons s ! j \<Longrightarrow> oq_pc c = QC_ret Ok \<Longrightarrow>
    x = bytes_item (snd (last (w_got (ob_sys s) j))) \<Longrightarrow>
    ob_cons_step warmup j s (s\<lparr>ob_cons := (ob_cons s)[j := ob_measure warmup now x c]\<rparr>)"
| qc_lapped: "j < length (ob_cons s) \<Longrightarrow> c = ob_cons s ! j \<Longrightarrow> oq_pc c = QC_ret Lapped \<Longrightarrow>
    ob_cons_step warmup j s (s\<lparr>ob_cons := (ob_cons s)[j := c\<lparr>oq_pc := QC_loop\<rparr>]\<rparr>)"
| qc_break: "j < length (ob_cons s) \<Longrightarrow> c = ob_cons s ! j \<Longrightarrow> oq_pc c = QC_ret Empty_status \<Longrightarrow> oq_draining c \<Longrightarrow>
    ob_cons_step warmup j s (s\<lparr>ob_cons := (ob_cons s)[j := c\<lparr>oq_pc := QC_done\<rparr>]\<rparr>)"
| qc_drain: "j < length (ob_cons s) \<Longrightarrow> c = ob_cons s ! j \<Longrightarrow> oq_pc c = QC_ret Empty_status \<Longrightarrow> \<not> oq_draining c \<Longrightarrow>
    ob_done s = Some k \<Longrightarrow> vw = synced k (w_view (ob_sys s) j) \<Longrightarrow>
    ob_cons_step warmup j s (s\<lparr>ob_sys := (ob_sys s)\<lparr>w_view := (w_view (ob_sys s))(j := vw)\<rparr>,
      ob_cons := (ob_cons s)[j := c\<lparr>oq_pc := QC_loop, oq_draining := True\<rparr>]\<rparr>)"
| qc_poll: "j < length (ob_cons s) \<Longrightarrow> c = ob_cons s ! j \<Longrightarrow> oq_pc c = QC_ret Empty_status \<Longrightarrow> \<not> oq_draining c \<Longrightarrow>
    ob_cons_step warmup j s (s\<lparr>ob_cons := (ob_cons s)[j := c\<lparr>oq_pc := QC_loop\<rparr>]\<rparr>)"

definition ob_step :: "nat \<Rightarrow> nat \<Rightarrow> ob_bench \<Rightarrow> ob_bench \<Rightarrow> bool" where
  "ob_step warmup tot s t \<longleftrightarrow> ob_prod_step tot s t \<or> (\<exists>j. ob_cons_step warmup j s t)"

text \<open>After the joins: the totals behind the loss percentage, and the merged recorder.\<close>

definition ob_totals :: "ob_bench \<Rightarrow> size_t \<times> size_t" where
  "ob_totals s = (sum_list (map (\<lambda>ci. ow_missed (w_cur (ob_sys s) ci)) [0..<length (ob_cons s)]),
     sum_list (map (\<lambda>c. word_of_nat (oq_n c)) (ob_cons s)))"

definition ob_merged :: "ob_bench \<Rightarrow> recorder" where
  "ob_merged s = fold lr_merge_from (map oq_rec (ob_cons s)) lr_new"

section \<open>Invariant\<close>

text \<open>The producer's progress, against the element it is publishing in the machine.\<close>

fun writes_item :: "nat \<Rightarrow> nat \<Rightarrow> byte oprod \<Rightarrow> bool" where
  "writes_item i T (OP_mark x pos) \<longleftrightarrow> T = i \<and> (\<exists>ts. x = item_bytes \<lparr>enqueue_ns = ts, payload = word_of_nat i\<rparr>)"
| "writes_item i T (OP_copy x pos D) \<longleftrightarrow> T = i \<and> (\<exists>ts. x = item_bytes \<lparr>enqueue_ns = ts, payload = word_of_nat i\<rparr>)"
| "writes_item i T _ \<longleftrightarrow> T = Suc i"

fun qp_ok :: "nat \<Rightarrow> byte ow_sys \<Rightarrow> ob_producer \<Rightarrow> bool" where
  "qp_ok tot q (QP_loop i) \<longleftrightarrow> w_prod q = OP_idle \<and> length (w_hist q) = i \<and> i \<le> tot"
| "qp_ok tot q (QP_run i) \<longleftrightarrow> i < tot \<and> writes_item i (length (w_hist q)) (w_prod q)"
| "qp_ok tot q QP_done \<longleftrightarrow> w_prod q = OP_idle \<and> length (w_hist q) = tot"

definition items_ok :: "byte list option list \<Rightarrow> bool" where
  "items_ok hist \<longleftrightarrow>
     (\<forall>p < length hist. \<exists>ts. hist ! p = Some (item_bytes \<lparr>enqueue_ns = ts, payload = word_of_nat p\<rparr>))"

definition ob_main_ok :: "nat \<Rightarrow> ob_bench \<Rightarrow> bool" where
  "ob_main_ok tot s \<longleftrightarrow> reach ow_init ow_step (ob_sys s) \<and> qp_ok tot (ob_sys s) (ob_prod s) \<and> items_ok (w_hist (ob_sys s))
     \<and> (\<forall>k. ob_done s = Some k \<longrightarrow> ob_prod s = QP_done \<and> k = length (w_log (ob_sys s)))
     \<and> (ob_prod s = QP_done \<longrightarrow> ob_done s \<noteq> None)"

definition qc_ok_inv :: "nat \<Rightarrow> nat \<Rightarrow> bool \<Rightarrow> byte ow_sys \<Rightarrow> ob_consumer \<Rightarrow> nat \<Rightarrow> bool" where
  "qc_ok_inv warmup tot stopped q c j \<longleftrightarrow> w_cons q j \<noteq> OC_none \<and> w_start q j = 1
     \<and> (oq_pc c = QC_read \<longleftrightarrow> w_cons q j \<noteq> OC_idle)
     \<and> length (w_got q j) = oq_n c + (if oq_pc c = QC_ret Ok then 1 else 0)
     \<and> lr_count (oq_rec c) + oq_dropped c = oq_n c - warmup
     \<and> (oq_draining c \<longrightarrow> stopped \<and> vw_hb (w_view q j) = length (w_log q))
     \<and> (oq_pc c = QC_done \<or> oq_pc c = QC_ret Empty_status \<and> oq_draining c \<longrightarrow>
          length (w_got q j) + unat (oc_missed (w_cur q j)) = tot)"

definition ob_inv :: "nat \<Rightarrow> nat \<Rightarrow> ob_bench \<Rightarrow> bool" where
  "ob_inv warmup tot s \<longleftrightarrow> ob_main_ok tot s
     \<and> (\<forall>j < length (ob_cons s). qc_ok_inv warmup tot (ob_done s \<noteq> None) (ob_sys s) (ob_cons s ! j) j)"

lemma ob_invD:
  assumes "ob_inv warmup tot s"
  shows "reach ow_init ow_step (ob_sys s)" "qp_ok tot (ob_sys s) (ob_prod s)" "items_ok (w_hist (ob_sys s))"
    "ob_done s = Some k \<Longrightarrow> ob_prod s = QP_done" "ob_done s = Some k \<Longrightarrow> k = length (w_log (ob_sys s))"
    "j < length (ob_cons s) \<Longrightarrow> qc_ok_inv warmup tot (ob_done s \<noteq> None) (ob_sys s) (ob_cons s ! j) j"
    "ob_prod s = QP_done \<Longrightarrow> ob_done s \<noteq> None"
  using assms unfolding ob_inv_def ob_main_ok_def by blast+

lemma items_none: "items_ok hist \<Longrightarrow> None \<notin> set hist"
  by (auto simp: items_ok_def in_set_conv_nth)

lemma ob_bound:
  assumes "ob_inv warmup tot s" and "tot < 2 ^ 63 - 1"
  shows "ow_sys_inv (ob_sys s)" and "length (w_hist (ob_sys s)) \<le> tot"
proof -
  have "writes_item i T pr \<Longrightarrow> T \<le> Suc i" for i T pr by (cases pr) simp_all
  then show le: "length (w_hist (ob_sys s)) \<le> tot"
    using ob_invD(2) [OF assms(1)] by (cases "ob_prod s") fastforce+
  with assms(2) show "ow_sys_inv (ob_sys s)" by (intro ow_sys.reach_inv [OF ob_invD(1) [OF assms(1)]]) linarith
qed

section \<open>The invariant holds\<close>

lemma ob_make_fields [simp]:
  "w_log (fold ob_make is s) = w_log s" "w_hist (fold ob_make is s) = w_hist s" "w_prod (fold ob_make is s) = w_prod s"
  "w_slots (fold ob_make is s) = w_slots s" "w_got (fold ob_make is s) = w_got s"
  by (induction "is" arbitrary: s) (simp_all add: ob_make_def)

lemma ob_make_reach:
  assumes "reach ow_init ow_step s" and "distinct is" and "w_log s = []"
    and "\<And>i. i \<in> set is \<Longrightarrow> w_cons s i = OC_none \<and> w_view s i = fresh_view"
  shows "reach ow_init ow_step (fold ob_make is s)"
  using assms
proof (induction "is" arbitrary: s)
  case (Cons i "is")
  have "w_reads s (w_view s i) L_published 0 (V_word 0)"
    using Cons.prems by (simp add: w_reads_def can_read_def read_val_def fresh_view_def)
  then have "ow_cons_step i s (ob_make i s)" unfolding ob_make_def using Cons.prems by (intro ow_make) simp_all
  then have r: "reach ow_init ow_step (ob_make i s)" using Cons.prems(1) by (rule ow_reach(2) [rotated])
  have "w_log (ob_make i s) = []" "distinct is" using Cons.prems by (simp_all add: ob_make_def)
  moreover have "w_cons (ob_make i s) k = OC_none \<and> w_view (ob_make i s) k = fresh_view" if "k \<in> set is" for k
    using Cons.prems(2) Cons.prems(4) [of k] that by (auto simp: ob_make_def)
  ultimately show ?case using Cons.IH [OF r] by simp
qed simp

lemma ob_make_cons:
  "distinct is \<Longrightarrow> i \<in> set is \<Longrightarrow> w_cons (fold ob_make is s) i = OC_idle \<and> w_start (fold ob_make is s) i = 1"
proof (induction "is" arbitrary: s rule: rev_induct)
  case (snoc j "is")
  then show ?case by (cases "i = j") (auto simp: ob_make_def)
qed simp

lemma ob_start_inv:
  assumes "ow_ctor alloc (item_bytes x) capacity = Inr q"
  shows "ob_inv warmup tot (ob_start n q)"
proof -
  have "ow_init (ow_boot 16 q)" unfolding ow_init_def using assms length_item_bytes by metis
  then have "reach ow_init ow_step (fold ob_make [0..<n] (ow_boot 16 q))"
    by (intro ob_make_reach reach_init) (simp_all add: ow_boot_def)
  then show ?thesis
    using ob_make_cons [of "[0..<n]"]
    by (auto simp: ob_inv_def ob_main_ok_def ob_start_def qc_ok_inv_def ow_boot_def items_ok_def lr_count_def lr_new_def)
qed

lemma item_run:
  assumes step: "ow_prod_step q r" and ok: "writes_item i (length (w_hist q)) (w_prod q)" and run: "w_prod q \<noteq> OP_idle"
    and items: "items_ok (w_hist q)" "None \<notin> set (w_hist r)"
  shows "writes_item i (length (w_hist r)) (w_prod r) \<and> items_ok (w_hist r)"
  using step
proof cases
  case (op_stable x pos D)
  then have "length (w_hist q) = i" "\<exists>ts. x = item_bytes \<lparr>enqueue_ns = ts, payload = word_of_nat i\<rparr>" using ok by simp_all
  then show ?thesis using op_stable items(1) by (auto simp: items_ok_def nth_append less_Suc_eq w_store_def w_release_def)
qed (use ok run items in \<open>auto simp: w_store_def w_release_def\<close>)

lemma ob_prod_keeps:
  assumes step: "ob_prod_step tot s t" and I: "ob_inv warmup tot s"
  shows "ob_inv warmup tot t"
proof -
  note D = ob_invD [OF I]
  have cons: "qc_ok_inv warmup tot st r c j"
    if "ow_prod_step (ob_sys s) r" "qc_ok_inv warmup tot False (ob_sys s) c j" for r c j st
    using that(2) ow_prod_frame [OF that(1)] by (auto simp: qc_ok_inv_def)
  have more: "qc_ok_inv warmup tot True q c j" if "qc_ok_inv warmup tot b q c j" for q c j b
    using that by (auto simp: qc_ok_inv_def)
  from step show ?thesis
  proof cases
    case (qp_stamp i x ts q pos)
    have "ob_done s = None" using D(4) qp_stamp(2) by (cases "ob_done s") auto
    moreover have "w_hist q = w_hist (ob_sys s)"
      using qp_stamp(5) by cases (use D(2) qp_stamp(2) in simp_all)
    moreover have "reach ow_init ow_step q" using ow_reach(1) [OF D(1) qp_stamp(5)] .
    ultimately show ?thesis
      using qp_stamp D(2,3,6) cons [OF qp_stamp(5)] by (auto simp: ob_inv_def ob_main_ok_def)
  next
    case (qp_run i q)
    have "ob_done s = None" using D(4) qp_run(2) by (cases "ob_done s") auto
    moreover have "reach ow_init ow_step q" using ow_reach(1) [OF D(1) qp_run(4)] .
    moreover have "writes_item i (length (w_hist q)) (w_prod q) \<and> items_ok (w_hist q)"
      using item_run [OF qp_run(4) _ qp_run(3) D(3) qp_run(5), of i] D(2) qp_run(2) by simp
    ultimately show ?thesis
      using qp_run D(2,6) cons [OF qp_run(4)] by (auto simp: ob_inv_def ob_main_ok_def)
  next
    case (qp_return i)
    then have "ob_done s = None" using D(4) by (cases "ob_done s") auto
    with qp_return show ?thesis using D by (auto simp: ob_inv_def ob_main_ok_def)
  next
    case (qp_done i)
    moreover have "qc_ok_inv warmup tot True (ob_sys s) (ob_cons s ! j) j" if "j < length (ob_cons s)" for j
      using more [OF D(6) [OF that]] .
    ultimately show ?thesis using D(1-3) by (simp add: ob_inv_def ob_main_ok_def)
  qed
qed

text \<open>A step inside \<open>try_read\<close>: an element is received exactly when it returns \<open>Ok\<close>.\<close>

lemma ow_cons_got:
  assumes "ow_cons_step i s t" and "w_cons s i \<noteq> OC_none"
  shows "length (w_got t i) = length (w_got s i) + (if w_cons t i = OC_idle \<and> ow_status (w_cons s i) = Ok then 1 else 0)"
    and "w_cons s i = OC_idle \<Longrightarrow> w_cons t i = OC_load"
    and "ow_status (w_cons s i) = Empty_status \<Longrightarrow> w_cons s i = OC_load"
  using assms by (cases; simp)+

lemma qc_ok_other:
  assumes "qc_ok_inv warmup tot b q c j" and "ow_cons_step i q r" and "j \<noteq> i"
  shows "qc_ok_inv warmup tot b r c j"
  using assms(1) ow_cons_frame(1) [OF assms(2)] ow_cons_frame(5) [OF assms(2,3)] by (auto simp: qc_ok_inv_def)

lemma qc_ok_step:
  assumes ok: "qc_ok_inv warmup tot b q c j" and step: "ow_cons_step j q r" and inv: "ow_sys_inv q"
    and stop: "b \<Longrightarrow> w_prod q = OP_idle \<and> length (w_hist q) = tot \<and> None \<notin> set (w_hist q)"
    and pc: "oq_pc c = (if w_cons q j = OC_idle then QC_loop else QC_read)"
    and pc': "pc' = (if w_cons r j = OC_idle then QC_ret (ow_status (w_cons q j)) else QC_read)"
  shows "qc_ok_inv warmup tot b r (c\<lparr>oq_pc := pc'\<rparr>) j"
proof -
  note Q = ok [unfolded qc_ok_inv_def]
  have "ow_sys_inv r" using ow_cons_keeps_inv [OF step inv] .
  then have "vw_hb (w_view r j) \<le> length (w_log q)"
    using ow_sys_invD(12) [of r j] ow_cons_frame(1) [OF step] by (simp add: view_ok_def)
  then have hb: "oq_draining c \<longrightarrow> b \<and> vw_hb (w_view r j) = length (w_log r)"
    using Q ow_cons_frame(1) [OF step] ow_cons_frame(7) [OF step] by auto
  have final: "length (w_got r j) + unat (oc_missed (w_cur r j)) = tot"
    if "pc' = QC_ret Empty_status" "oq_draining c"
  proof -
    have bk: "w_cons r j = OC_idle" "w_cons q j = OC_load"
      using that(1) pc' ow_cons_got(3) [OF step] Q by (auto split: if_splits)
    have "w_start r j = 1" using Q ow_cons_frame(6) [OF step] by simp
    then show ?thesis
      using ow_end_of_stream [OF inv _ _ _ bk(2) step bk(1)] stop Q that(2) by simp
  qed
  have "length (w_got r j) = oq_n c + (if pc' = QC_ret Ok then 1 else 0)"
    using ow_cons_got(1) [OF step] Q pc pc' by (auto split: if_splits)
  then show ?thesis
    using Q hb final pc' ow_cons_frame(4) [OF step] ow_cons_frame(6) [OF step] ow_cons_got(2) [OF step]
    by (auto simp: qc_ok_inv_def split: if_splits)
qed

lemma ob_measure_count:
  "oq_n (ob_measure warmup now x c) = Suc (oq_n c)" "oq_pc (ob_measure warmup now x c) = QC_loop"
  "oq_draining (ob_measure warmup now x c) = oq_draining c"
  "lr_count (oq_rec c) + oq_dropped c = oq_n c - warmup \<Longrightarrow>
    lr_count (oq_rec (ob_measure warmup now x c)) + oq_dropped (ob_measure warmup now x c) = Suc (oq_n c) - warmup"
  by (auto simp: ob_measure_def Let_def lr_count_def lr_record_def)

lemma ob_inv_cons:
  assumes I: "ob_inv warmup tot s" and j: "j < length (ob_cons s)"
    and sys: "reach ow_init ow_step q" "w_log q = w_log (ob_sys s)" "w_hist q = w_hist (ob_sys s)" "w_prod q = w_prod (ob_sys s)"
    and others: "\<And>i c. i \<noteq> j \<Longrightarrow> qc_ok_inv warmup tot (ob_done s \<noteq> None) (ob_sys s) c i \<Longrightarrow>
      qc_ok_inv warmup tot (ob_done s \<noteq> None) q c i"
    and own: "qc_ok_inv warmup tot (ob_done s \<noteq> None) q c j"
  shows "ob_inv warmup tot (s\<lparr>ob_sys := q, ob_cons := (ob_cons s)[j := c]\<rparr>)"
proof -
  note D = ob_invD [OF I]
  have "qp_ok tot q (ob_prod s)" using D(2) sys(3,4) by (cases "ob_prod s") simp_all
  then show ?thesis
    using D sys others own j by (auto simp: ob_inv_def ob_main_ok_def nth_list_update)
qed

lemma ob_cons_keeps:
  assumes step: "ob_cons_step warmup j s t" and I: "ob_inv warmup tot s" and bound: "tot < 2 ^ 63 - 1"
  shows "ob_inv warmup tot t"
proof -
  note D = ob_invD [OF I]
  note inv = ob_bound(1) [OF I bound]
  have stop: "ob_done s \<noteq> None \<Longrightarrow> w_prod (ob_sys s) = OP_idle \<and> length (w_hist (ob_sys s)) = tot
      \<and> None \<notin> set (w_hist (ob_sys s))"
    using D(2,4) items_none [OF D(3)] by fastforce
  have machine: "ob_inv warmup tot (s\<lparr>ob_sys := q, ob_cons := (ob_cons s)[j := (ob_cons s ! j)\<lparr>oq_pc := pc\<rparr>]\<rparr>)"
    if "j < length (ob_cons s)" "ow_cons_step j (ob_sys s) q"
      "oq_pc (ob_cons s ! j) = (if w_cons (ob_sys s) j = OC_idle then QC_loop else QC_read)"
      "pc = (if w_cons q j = OC_idle then QC_ret (ow_status (w_cons (ob_sys s) j)) else QC_read)" for q pc
    by (rule ob_inv_cons [OF I that(1) ow_reach(2) [OF D(1) that(2)] ow_cons_frame(1-3) [OF that(2)]
        qc_ok_other [OF _ that(2)] qc_ok_step [OF D(6) [OF that(1)] that(2) inv stop that(3,4)]])
  have local: "ob_inv warmup tot (s\<lparr>ob_cons := (ob_cons s)[j := c]\<rparr>)"
    if "j < length (ob_cons s)" "qc_ok_inv warmup tot (ob_done s \<noteq> None) (ob_sys s) c j" for c
    using ob_inv_cons [OF I that(1) D(1) refl refl refl _ that(2)] by simp
  from step show ?thesis
  proof cases
    case (qc_call c q)
    have "w_cons q j = OC_load"
      using ow_cons_got(2) [OF qc_call(5)] D(6) [OF qc_call(2)] qc_call(6) by (simp add: qc_ok_inv_def)
    then show ?thesis using machine [OF qc_call(2,5), of QC_read] qc_call by simp
  next
    case (qc_run q)
    have "(ob_cons s ! j)\<lparr>oq_pc := QC_read\<rparr> = ob_cons s ! j" using qc_run(3) by (cases "ob_cons s ! j") simp
    then have e: "(ob_cons s)[j := (ob_cons s ! j)\<lparr>oq_pc := QC_read\<rparr>] = ob_cons s" by simp
    show ?thesis
      using machine [OF qc_run(2,4), of QC_read, unfolded e] qc_run D(6) [OF qc_run(2)] by (simp add: qc_ok_inv_def)
  next
    case (qc_return c q)
    then show ?thesis using machine [OF qc_return(2,5)] D(6) [OF qc_return(2)] by (auto simp: qc_ok_inv_def)
  next
    case (qc_ok c x now)
    have "qc_ok_inv warmup tot (ob_done s \<noteq> None) (ob_sys s) (ob_measure warmup now x c) j"
      using D(6) [OF qc_ok(2)] qc_ok(3,4) ob_measure_count(1-3) [of warmup now x c] ob_measure_count(4) [of c warmup now x]
      by (simp add: qc_ok_inv_def)
    then show ?thesis using local [OF qc_ok(2)] qc_ok(1) by simp
  next
    case (qc_drain c k vw)
    let ?q = "(ob_sys s)\<lparr>w_view := (w_view (ob_sys s))(j := vw)\<rparr>"
    have k: "k = length (w_log (ob_sys s))" using D(5) qc_drain(6) by simp
    have v: "view_ok (w_log (ob_sys s)) (w_view (ob_sys s) j)" by (rule ow_sys_invD(12) [OF inv])
    have hb: "vw_hb vw = length (w_log (ob_sys s))" using v qc_drain(7) k by (simp add: synced_def view_ok_def)
    have "ow_sync j (ob_sys s) ?q" unfolding ow_sync_def using qc_drain(7) k by blast
    then have r: "reach ow_init ow_step ?q" using ow_reach(3) [OF D(1)] by blast
    show ?thesis unfolding qc_drain(1)
      by (rule ob_inv_cons [OF I qc_drain(2) r])
        (use D(6) [OF qc_drain(2)] qc_drain(3-6) hb in \<open>auto simp: qc_ok_inv_def\<close>)
  qed (use D(6) in \<open>fastforce intro!: local simp: qc_ok_inv_def\<close>)+
qed

interpretation ob_machine: guarded_machine "\<lambda>s. \<exists>alloc x capacity n q. ow_ctor alloc (item_bytes x) capacity = Inr q \<and> s = ob_start n q"
  "ob_step warmup tot" "ob_inv warmup tot" "\<lambda>_. tot" "2 ^ 63 - 1" for warmup tot
proof unfold_locales
  show "ob_inv warmup tot s" if "\<exists>alloc x capacity n q. ow_ctor alloc (item_bytes x) capacity = Inr q \<and> s = ob_start n q" for s
    using that ob_start_inv by blast
  show "ob_inv warmup tot t" if "ob_inv warmup tot s" "ob_step warmup tot s t" "tot < 2 ^ 63 - 1" for s t
    using that ob_prod_keeps ob_cons_keeps unfolding ob_step_def by blast
qed simp

section \<open>The benchmark can always finish\<close>

lemma ob_cons_length: "ob_step warmup tot s t \<Longrightarrow> length (ob_cons t) = length (ob_cons s)"
  unfolding ob_step_def by (auto elim!: ob_prod_step.cases ob_cons_step.cases)

text \<open>A measure of what the producer still has to do.\<close>

fun qp_rank :: "nat \<Rightarrow> nat \<Rightarrow> ob_producer \<Rightarrow> byte oprod \<Rightarrow> nat \<times> nat" where
  "qp_rank tot n (QP_loop i) pr = (Suc tot - i, n + 5)"
| "qp_rank tot n (QP_run i) pr = (Suc tot - i, Suc (oprod_rank n pr))"
| "qp_rank tot n QP_done pr = (0, 0)"

lemma oprod_no_throw:
  assumes "w_prod q \<noteq> OP_idle" and "None \<notin> set (w_hist q)"
  shows "\<exists>r. ow_prod_step q r \<and> None \<notin> set (w_hist r)"
proof (cases "w_prod q")
  case (OP_mark x pos)
  from op_mark [OF this] show ?thesis using assms(2) by (fastforce simp: w_store_def w_release_def)
next
  case (OP_copy x pos D)
  show ?thesis
  proof (cases "{..<w_size q} \<subseteq> D")
    case True
    from op_stable [OF OP_copy this] show ?thesis using assms(2) by (fastforce simp: w_store_def w_release_def)
  next
    case False
    then obtain k where "k < w_size q" "k \<notin> D" by auto
    from op_copy [OF OP_copy this] show ?thesis using assms(2) by (fastforce simp: w_store_def)
  qed
next
  case (OP_publish pos)
  from op_publish [OF this] show ?thesis using assms(2) by (fastforce simp: w_store_def)
qed (use assms in simp)

lemma ob_prod_advances:
  assumes I: "ob_inv warmup tot s" and "ob_prod s \<noteq> QP_done" and n: "w_size (ob_sys s) = 16"
  shows "\<exists>t. ob_prod_step tot s t \<and> w_size (ob_sys t) = 16
    \<and> (qp_rank tot 16 (ob_prod t) (w_prod (ob_sys t)), qp_rank tot 16 (ob_prod s) (w_prod (ob_sys s)))
      \<in> less_than <*lex*> less_than"
proof (cases "ob_prod s")
  case (QP_loop i)
  note D = ob_invD [OF I]
  have idle: "w_prod (ob_sys s) = OP_idle" "i \<le> tot" using D(2) QP_loop by simp_all
  show ?thesis
  proof (cases "i < tot")
    case True
    let ?x = "\<lparr>enqueue_ns = 0, payload = word_of_nat i\<rparr>"
    from op_call [OF idle(1), of "item_bytes ?x"] n obtain q pos where
      q: "ow_prod_step (ob_sys s) q" "w_prod q = OP_mark (item_bytes ?x) pos" "w_size q = 16" by fastforce
    from qp_stamp [OF QP_loop True refl q(1,2)] q(2,3) QP_loop show ?thesis by fastforce
  next
    case False
    from qp_done [OF QP_loop False] idle(2) QP_loop n show ?thesis by fastforce
  qed
next
  case (QP_run i)
  note D = ob_invD [OF I]
  have i: "i < tot" using D(2) QP_run by simp
  show ?thesis
  proof (cases "w_prod (ob_sys s) = OP_idle")
    case True
    from qp_return [OF QP_run True] i QP_run n show ?thesis by fastforce
  next
    case False
    from oprod_no_throw [OF False items_none [OF D(3)]] obtain q where
      q: "ow_prod_step (ob_sys s) q" "None \<notin> set (w_hist q)" by blast
    from qp_run [OF QP_run False q] oprod_progress [OF q(1)] False QP_run n show ?thesis by fastforce
  qed
qed (use assms in simp)

text \<open>And a measure for a consumer, once the producer is done.\<close>

fun qc_rank :: "byte ocon \<Rightarrow> ob_pc \<Rightarrow> nat" where
  "qc_rank oc QC_loop = 21"
| "qc_rank oc QC_read = Suc (ocon_rank 16 oc)"
| "qc_rank oc (QC_ret st) = (if st = Empty_status then 0 else 22)"
| "qc_rank oc QC_done = 0"

definition qc_measure :: "nat \<Rightarrow> byte ow_sys \<Rightarrow> ob_consumer \<Rightarrow> nat \<Rightarrow> nat \<times> nat \<times> nat" where
  "qc_measure tot q c j = (if oq_draining c then 0 else 1, Suc (Suc tot) - unat (oc_pos (w_cur q j)), qc_rank (w_cons q j) (oq_pc c))"

definition qc_less :: "((nat \<times> nat \<times> nat) \<times> nat \<times> nat \<times> nat) set" where
  "qc_less = less_than <*lex*> less_than <*lex*> less_than"

lemma wf_qc_less: "wf qc_less"
  by (simp add: qc_less_def wf_lex_prod)

lemma ow_ok_moves:
  assumes "ow_cons_step i s t" and "w_cons s i = OC_copy s1 D out" and "w_cons t i = OC_idle"
  shows "w_cur t i = (w_cur s i)\<lparr>oc_pos := oc_pos (w_cur s i) + 1\<rparr>"
    and "length (w_got t i) = Suc (length (w_got s i))"
  using assms by (cases; simp)+

lemma ow_return_moves:
  assumes inv: "ow_sys_inv s" and step: "ow_cons_step i s t" and c: "w_cons s i \<noteq> OC_none" "w_cons s i \<noteq> OC_idle"
    and ret: "w_cons t i = OC_idle" "ow_status (w_cons s i) \<noteq> Empty_status"
  shows "unat (oc_pos (w_cur s i)) < unat (oc_pos (w_cur t i))"
proof (cases "w_cons s i")
  case (OC_copy s1 D out)
  note same = ow_ok_moves [OF step OC_copy ret(1)]
  have inv': "ow_sys_inv t" using ow_cons_keeps_inv [OF step inv] .
  note K = ow_sys_invD(9) [OF inv c(1), unfolded ocon_cur_ok_def]
    ow_sys_invD(9) [OF inv' ow_cons_frame(4) [OF step], unfolded ocon_cur_ok_def]
  show ?thesis using K same ow_cons_frame(6) [OF step c(1)] by simp
next
  case (OC_lapped newest)
  from ow_lap_moves [OF inv this step] show ?thesis by simp
qed (use c ret in simp_all)

lemma ow_run_stays:
  assumes "ow_cons_step i s t" and "w_cons s i \<noteq> OC_none" and "w_cons t i \<noteq> OC_idle"
  shows "w_cur t i = w_cur s i"
  using assms by cases simp_all

lemma ow_back_stays:
  assumes "ow_cons_step i s t" and "ow_status (w_cons s i) = Empty_status" and "w_cons s i = OC_load"
  shows "w_cur t i = w_cur s i"
  using assms(1,3) by cases simp_all

lemma ob_cons_advances:
  assumes I: "ob_inv warmup tot s" and bound: "tot < 2 ^ 63 - 1" and j: "j < length (ob_cons s)"
    and "ob_prod s = QP_done" and "ob_done s \<noteq> None" and n: "w_size (ob_sys s) = 16" and nd: "oq_pc (ob_cons s ! j) \<noteq> QC_done"
  shows "\<exists>t. ob_cons_step warmup j s t \<and> ob_prod t = ob_prod s \<and> ob_done t = ob_done s \<and> w_size (ob_sys t) = 16
    \<and> (\<forall>i. i \<noteq> j \<longrightarrow> ob_cons t ! i = ob_cons s ! i)
    \<and> (oq_pc (ob_cons t ! j) = QC_done \<or>
        (qc_measure tot (ob_sys t) (ob_cons t ! j) j, qc_measure tot (ob_sys s) (ob_cons s ! j) j) \<in> qc_less)"
proof -
  note inv = ob_bound [OF I bound]
  define c where "c = ob_cons s ! j"
  note Q = ob_invD(6) [OF I j, folded c_def, unfolded qc_ok_inv_def]
  have some: "w_cons (ob_sys s) j \<noteq> OC_none" using Q by simp
  show ?thesis
  proof (cases "oq_pc c")
    case QC_loop
    then have idle: "w_cons (ob_sys s) j = OC_idle" using Q by simp
    from ow_call [OF idle] obtain q where q: "ow_cons_step j (ob_sys s) q" "w_cons q j = OC_load" "w_cur q = w_cur (ob_sys s)"
      "w_size q = 16" using n by fastforce
    from qc_call [OF j c_def QC_loop q(1) idle] show ?thesis
      by (intro exI [of _ "s\<lparr>ob_sys := q, ob_cons := (ob_cons s)[j := c\<lparr>oq_pc := QC_read\<rparr>]\<rparr>"])
        (use q j QC_loop in \<open>simp add: qc_measure_def qc_less_def flip: c_def\<close>)
  next
    case QC_read
    then have run: "w_cons (ob_sys s) j \<noteq> OC_idle" using Q by simp
    obtain q where q: "ow_cons_step j (ob_sys s) q" using ocon_enabled [OF inv(1)] by blast
    note P = ocon_progress [OF q]
    show ?thesis
    proof (cases "w_cons q j = OC_idle")
      case False
      from qc_run [OF j _ q False] QC_read show ?thesis
        by (intro exI [of _ "s\<lparr>ob_sys := q\<rparr>"])
          (use P n run some ow_run_stays [OF q some False] in
            \<open>simp add: qc_measure_def qc_less_def flip: c_def\<close>)
    next
      case True
      let ?c = "c\<lparr>oq_pc := QC_ret (ow_status (w_cons (ob_sys s) j))\<rparr>"
      have "unat (oc_pos (w_cur (ob_sys s) j)) < Suc (Suc tot)"
        using ow_sys_invD(9) [OF inv(1) some] inv(2) ob_invD(2) [OF I] assms(4)
        by (auto simp: ocon_cur_ok_def w_marked_def)
      moreover have "oc_pos (w_cur q j) = oc_pos (w_cur (ob_sys s) j)"
        if "ow_status (w_cons (ob_sys s) j) = Empty_status"
        using ow_back_stays [OF q that ow_cons_got(3) [OF q some that]] by simp
      ultimately have "(qc_measure tot q ?c j, qc_measure tot (ob_sys s) c j) \<in> qc_less"
        using ow_return_moves [OF inv(1) q some run True] QC_read True
        by (cases "ow_status (w_cons (ob_sys s) j) = Empty_status") (auto simp: qc_measure_def qc_less_def)
      with qc_return [OF j c_def QC_read q True] show ?thesis
        by (intro exI [of _ "s\<lparr>ob_sys := q, ob_cons := (ob_cons s)[j := ?c]\<rparr>"])
          (use P n j in \<open>simp flip: c_def\<close>)
    qed
  next
    case (QC_ret st)
    show ?thesis
    proof (cases st)
      case Ok
      let ?x = "bytes_item (snd (last (w_got (ob_sys s) j)))"
      from qc_ok [OF j c_def QC_ret [unfolded Ok] refl, of warmup 0] show ?thesis
        by (intro exI [of _ "s\<lparr>ob_cons := (ob_cons s)[j := ob_measure warmup 0 ?x c]\<rparr>"]) (use n j QC_ret Ok in \<open>simp add: qc_measure_def qc_less_def ob_measure_count flip: c_def\<close>)
    next
      case Lapped
      from qc_lapped [OF j c_def QC_ret [unfolded Lapped]] show ?thesis
        by (intro exI [of _ "s\<lparr>ob_cons := (ob_cons s)[j := c\<lparr>oq_pc := QC_loop\<rparr>]\<rparr>"])
          (use n j QC_ret Lapped in \<open>simp add: qc_measure_def qc_less_def flip: c_def\<close>)
    next
      case Empty_status
      show ?thesis
      proof (cases "oq_draining c")
        case True
        from qc_break [OF j c_def QC_ret [unfolded Empty_status] True] show ?thesis
          by (intro exI [of _ "s\<lparr>ob_cons := (ob_cons s)[j := c\<lparr>oq_pc := QC_done\<rparr>]\<rparr>"]) (use n j in simp)
      next
        case False
        from assms(5) obtain k where "ob_done s = Some k" by blast
        from qc_drain [OF j c_def QC_ret [unfolded Empty_status] False this refl] show ?thesis
          by (intro exI [of _ "s\<lparr>ob_sys := (ob_sys s)\<lparr>w_view := (w_view (ob_sys s))(j := synced k (w_view (ob_sys s) j))\<rparr>,
              ob_cons := (ob_cons s)[j := c\<lparr>oq_pc := QC_loop, oq_draining := True\<rparr>]\<rparr>"]) (use n j False QC_ret Empty_status in \<open>simp add: qc_measure_def qc_less_def flip: c_def\<close>)
      qed
    qed
  qed (use nd c_def in simp)
qed

section \<open>Runs to the end\<close>

lemma ob_steps_reach: "(ob_step warmup tot)\<^sup>*\<^sup>* s t \<Longrightarrow> reach init (ob_step warmup tot) s \<Longrightarrow> reach init (ob_step warmup tot) t"
  by (induction rule: rtranclp_induct) (auto intro: reach_step)

text \<open>What the runs below keep: the invariant and the length of an element.\<close>

definition ob_live :: "nat \<Rightarrow> nat \<Rightarrow> ob_bench \<Rightarrow> bool" where
  "ob_live warmup tot s \<longleftrightarrow> ob_inv warmup tot s \<and> w_size (ob_sys s) = 16"

lemma ob_prod_finishes:
  assumes "ob_live warmup tot s" and "tot < 2 ^ 63 - 1"
  shows "\<exists>t. (ob_step warmup tot)\<^sup>*\<^sup>* s t \<and> ob_live warmup tot t \<and> ob_prod t = QP_done \<and> length (ob_cons t) = length (ob_cons s)"
  using assms(1)
proof (induction "(qp_rank tot 16 (ob_prod s) (w_prod (ob_sys s)))" arbitrary: s
    rule: wf_induct_rule [OF wf_lex_prod [OF wf_less_than wf_less_than]])
  case (1 s)
  show ?case
  proof (cases "ob_prod s = QP_done")
    case True
    then show ?thesis using 1(2) by blast
  next
    case False
    from ob_prod_advances [OF _ False] 1(2) obtain r where
      r: "ob_prod_step tot s r" "w_size (ob_sys r) = 16"
        "(qp_rank tot 16 (ob_prod r) (w_prod (ob_sys r)), qp_rank tot 16 (ob_prod s) (w_prod (ob_sys s))) \<in> less_than <*lex*> less_than"
      unfolding ob_live_def by blast
    have st: "ob_step warmup tot s r" using r(1) by (simp add: ob_step_def)
    have "ob_live warmup tot r" using ob_prod_keeps [OF r(1)] 1(2) r(2) by (simp add: ob_live_def)
    from 1(1) [OF r(3) this] obtain t where "(ob_step warmup tot)\<^sup>*\<^sup>* r t" "ob_live warmup tot t" "ob_prod t = QP_done"
      "length (ob_cons t) = length (ob_cons r)" by blast
    then show ?thesis using converse_rtranclp_into_rtranclp [of "ob_step warmup tot", OF st] ob_cons_length [OF st] by metis
  qed
qed

lemma ob_con_finishes:
  assumes "ob_live warmup tot s" and bound: "tot < 2 ^ 63 - 1" and "j < length (ob_cons s)" and "ob_prod s = QP_done"
  shows "\<exists>t. (ob_step warmup tot)\<^sup>*\<^sup>* s t \<and> ob_live warmup tot t \<and> ob_prod t = QP_done \<and> length (ob_cons t) = length (ob_cons s)
    \<and> (\<forall>i. i \<noteq> j \<longrightarrow> ob_cons t ! i = ob_cons s ! i) \<and> oq_pc (ob_cons t ! j) = QC_done"
  using assms(1,3,4)
proof (induction "qc_measure tot (ob_sys s) (ob_cons s ! j) j" arbitrary: s rule: wf_induct_rule [OF wf_qc_less])
  case (1 s)
  show ?case
  proof (cases "oq_pc (ob_cons s ! j) = QC_done")
    case True
    then show ?thesis using 1 by blast
  next
    case False
    have I: "ob_inv warmup tot s" "w_size (ob_sys s) = 16" using 1(2) by (simp_all add: ob_live_def)
    from ob_cons_advances [OF I(1) bound 1(3,4) ob_invD(7) [OF I(1) 1(4)] I(2) False] obtain r where
      r: "ob_cons_step warmup j s r" "ob_prod r = ob_prod s" "w_size (ob_sys r) = 16"
        "\<forall>i. i \<noteq> j \<longrightarrow> ob_cons r ! i = ob_cons s ! i"
        "oq_pc (ob_cons r ! j) = QC_done \<or>
          (qc_measure tot (ob_sys r) (ob_cons r ! j) j, qc_measure tot (ob_sys s) (ob_cons s ! j) j) \<in> qc_less"
      by blast
    have st: "ob_step warmup tot s r" using r(1) by (auto simp: ob_step_def)
    have live: "ob_live warmup tot r" using ob_cons_keeps [OF r(1) I(1) bound] r(3) by (simp add: ob_live_def)
    note len = ob_cons_length [OF st]
    show ?thesis
    proof (cases "oq_pc (ob_cons r ! j) = QC_done")
      case True
      then show ?thesis using st live r(2,4) len 1(4) by (intro exI [of _ r]) auto
    next
      case False
      with r(5) have "(qc_measure tot (ob_sys r) (ob_cons r ! j) j, qc_measure tot (ob_sys s) (ob_cons s ! j) j) \<in> qc_less" by blast
      from 1(1) [OF this live] r(2) 1(3,4) len obtain t where "(ob_step warmup tot)\<^sup>*\<^sup>* r t" "ob_live warmup tot t" "ob_prod t = QP_done"
        "length (ob_cons t) = length (ob_cons r)" "\<forall>i. i \<noteq> j \<longrightarrow> ob_cons t ! i = ob_cons r ! i" "oq_pc (ob_cons t ! j) = QC_done"
        by auto
      then show ?thesis
        using converse_rtranclp_into_rtranclp [of "ob_step warmup tot", OF st] len r(4)
        by (intro exI [of _ t]) simp
    qed
  qed
qed

definition ob_all_done :: "ob_bench \<Rightarrow> bool" where
  "ob_all_done s \<longleftrightarrow> list_all (\<lambda>c. oq_pc c = QC_done) (ob_cons s)"

lemma ob_all_finish:
  assumes "ob_live warmup tot s" and bound: "tot < 2 ^ 63 - 1" and "ob_prod s = QP_done" and "n \<le> length (ob_cons s)"
  shows "\<exists>t. (ob_step warmup tot)\<^sup>*\<^sup>* s t \<and> ob_live warmup tot t \<and> ob_prod t = QP_done \<and> length (ob_cons t) = length (ob_cons s)
    \<and> (\<forall>i < n. oq_pc (ob_cons t ! i) = QC_done)"
  using assms(4)
proof (induction n)
  case 0
  then show ?case using assms(1,3) by blast
next
  case (Suc n)
  then obtain r where r: "(ob_step warmup tot)\<^sup>*\<^sup>* s r" "ob_live warmup tot r" "ob_prod r = QP_done"
    "length (ob_cons r) = length (ob_cons s)" "\<forall>i < n. oq_pc (ob_cons r ! i) = QC_done" by auto
  from ob_con_finishes [OF r(2) bound _ r(3), of n] Suc.prems r(4) obtain t where
    "(ob_step warmup tot)\<^sup>*\<^sup>* r t" "ob_live warmup tot t" "ob_prod t = QP_done" "length (ob_cons t) = length (ob_cons r)"
    "\<forall>i. i \<noteq> n \<longrightarrow> ob_cons t ! i = ob_cons r ! i" "oq_pc (ob_cons t ! n) = QC_done" by auto
  with r show ?case by (intro exI [of _ t]) (auto simp: less_Suc_eq)
qed

lemma ob_finish_run:
  assumes "ob_live warmup tot s" and "tot < 2 ^ 63 - 1"
  shows "\<exists>t. (ob_step warmup tot)\<^sup>*\<^sup>* s t \<and> ob_prod t = QP_done \<and> ob_all_done t \<and> length (ob_cons t) = length (ob_cons s)"
proof -
  from ob_prod_finishes [OF assms] obtain r where r: "(ob_step warmup tot)\<^sup>*\<^sup>* s r" "ob_live warmup tot r" "ob_prod r = QP_done"
    "length (ob_cons r) = length (ob_cons s)" by blast
  from ob_all_finish [OF r(2) assms(2) r(3) order_refl] obtain t where
    "(ob_step warmup tot)\<^sup>*\<^sup>* r t" "ob_prod t = QP_done" "length (ob_cons t) = length (ob_cons r)"
    "\<forall>i < length (ob_cons r). oq_pc (ob_cons t ! i) = QC_done" by blast
  with r show ?thesis by (intro exI [of _ t]) (auto simp: ob_all_done_def list_all_length)
qed

section \<open>What the benchmark reports\<close>

lemma ob_reach_live:
  assumes "reach (\<lambda>s. s = ob_start n q) (ob_step warmup tot) s" and "ow_ctor alloc (item_bytes x) capacity = Inr q"
    and "tot < 2 ^ 63 - 1"
  shows "ob_live warmup tot s \<and> length (ob_cons s) = n"
  using assms(1)
proof (induction rule: reach.induct)
  case (reach_init s)
  have w: "w_size (fold ob_make is r) = w_size r" for "is" and r :: "byte ow_sys"
    by (induction "is" arbitrary: r) (simp_all add: ob_make_def)
  have "w_size (ob_sys (ob_start n q)) = 16" unfolding ob_start_def by (simp add: w) (simp add: ow_boot_def)
  then show ?case using ob_start_inv [OF assms(2)] reach_init by (simp add: ob_live_def ob_start_def)
next
  case (reach_step s t)
  then have I: "ob_inv warmup tot s" "w_size (ob_sys s) = 16" by (simp_all add: ob_live_def)
  have "ob_inv warmup tot t" using ob_machine.inv_step [OF I(1) reach_step.hyps(2)] assms(3) by simp
  moreover have "w_size (ob_sys t) = w_size (ob_sys s)"
    using reach_step.hyps(2) unfolding ob_step_def
    by (auto elim!: ob_prod_step.cases ob_cons_step.cases dest!: oprod_progress ocon_progress)
  ultimately show ?case using reach_step.IH I ob_cons_length [OF reach_step.hyps(2)] by (simp add: ob_live_def)
qed

lemma ob_books:
  assumes I: "ob_inv warmup tot s" and bound: "tot < 2 ^ 63 - 1" and "ob_all_done s" and j: "j < length (ob_cons s)"
  defines "c \<equiv> ob_cons s ! j" and "got \<equiv> w_got (ob_sys s) j"
  shows "oq_n c + unat (ow_missed (w_cur (ob_sys s) j)) = tot" and "length got = oq_n c"
    and "map (\<lambda>(p, v). payload (bytes_item v)) got = map (\<lambda>(p, v). word_of_nat (p - 1)) got"
    and "sorted_wrt (<) (map fst got)" and "lr_count (oq_rec c) + oq_dropped c = oq_n c - warmup"
proof -
  have "oq_pc c = QC_done" using assms(3) j by (auto simp: ob_all_done_def c_def list_all_length)
  then show "oq_n c + unat (ow_missed (w_cur (ob_sys s) j)) = tot" "length got = oq_n c"
      "lr_count (oq_rec c) + oq_dropped c = oq_n c - warmup"
    using ob_invD(6) [OF I j] by (simp_all add: qc_ok_inv_def c_def got_def ow_missed_def)
  have "w_cons (ob_sys s) j \<noteq> OC_none" using ob_invD(6) [OF I j] by (simp add: qc_ok_inv_def)
  note K = ow_sys_invD(9) [OF ob_bound(1) [OF I bound] this, unfolded ocon_cur_ok_def, folded got_def]
  then show "sorted_wrt (<) (map fst got)" by blast
  have "payload (bytes_item v) = word_of_nat (p - 1)" if "(p, v) \<in> set got" for p v
  proof -
    have "1 \<le> p" "p \<le> length (w_hist (ob_sys s))" and v: "w_hist (ob_sys s) ! (p - 1) = Some v" using K that by blast+
    then have "p - 1 < length (w_hist (ob_sys s))" by linarith
    with v
    show ?thesis using ob_invD(3) [OF I] unfolding items_ok_def by fastforce
  qed
  then show "map (\<lambda>(p, v). payload (bytes_item v)) got = map (\<lambda>(p, v). word_of_nat (p - 1)) got" by auto
qed

lemma ob_totals_sum:
  assumes "\<And>j. j < length cs \<Longrightarrow> oq_n (cs ! j) + unat (f j) = tot"
  shows "sum_list (map f [0..<length cs]) + sum_list (map (\<lambda>c. word_of_nat (oq_n c)) cs)
    = (word_of_nat (length cs * tot) :: size_t)"
  using assms
proof (induction cs rule: rev_induct)
  case (snoc c cs)
  have "oq_n (cs ! j) + unat (f j) = tot" if "j < length cs" for j using snoc.prems [of j] that by (simp add: nth_append)
  note IH = snoc.IH [OF this]
  have "word_of_nat (oq_n c) + f (length cs) = (word_of_nat (oq_n c + unat (f (length cs))) :: size_t)" by simp
  then have "word_of_nat (oq_n c) + f (length cs) = (word_of_nat tot :: size_t)"
    using snoc.prems [of "length cs"] by (simp only: nth_append_length length_append_singleton lessI)
  moreover have "sum_list (map f [0..<length (cs @ [c])]) + sum_list (map (\<lambda>c. word_of_nat (oq_n c)) (cs @ [c]))
      = (sum_list (map f [0..<length cs]) + sum_list (map (\<lambda>c. word_of_nat (oq_n c)) cs)) + (word_of_nat (oq_n c) + f (length cs))"
    by (simp add: ac_simps)
  ultimately show ?case using IH by (simp add: distrib_right add.commute)
qed simp

text \<open>
  C18. What \<open>run_overwrite_benchmark\<close> reports is the truth: when the consumer threads have left
  their loops, each of them has received intact items only, in the order of publication, and
  what it received plus its \<open>missed()\<close> is every item published, so the denominator of the loss
  percentage is the number of consumers times \<open>warmup + measure\<close>; the merged recorder holds
  one sample for each item a consumer received after its warm-up, less those whose latency was
  negative, whatever the interleaving, the stale loads and the clock.
\<close>

theorem ob_loss_accounts:
  assumes "ow_ctor alloc (item_bytes x) capacity = Inr q" and "warmup + msr < 2 ^ 63 - 1"
    and "reach (\<lambda>s. s = ob_start n q) (ob_step warmup (warmup + msr)) s" and "ob_all_done s"
  shows "length (ob_cons s) = n
    \<and> list_all (\<lambda>j. oq_n (ob_cons s ! j) + unat (ow_missed (w_cur (ob_sys s) j)) = warmup + msr
         \<and> length (w_got (ob_sys s) j) = oq_n (ob_cons s ! j)
         \<and> map (\<lambda>(p, v). payload (bytes_item v)) (w_got (ob_sys s) j)
             = map (\<lambda>(p, v). word_of_nat (p - 1)) (w_got (ob_sys s) j)
         \<and> sorted_wrt (<) (map fst (w_got (ob_sys s) j))) [0..<n]
    \<and> fst (ob_totals s) + snd (ob_totals s) = word_of_nat (n * (warmup + msr))
    \<and> lr_count (ob_merged s) + sum_list (map oq_dropped (ob_cons s))
        = sum_list (map (\<lambda>c. oq_n c - warmup) (ob_cons s))"
proof -
  have I: "ob_inv warmup (warmup + msr) s" and n: "length (ob_cons s) = n"
    using ob_reach_live [OF assms(3,1,2)] by (simp_all add: ob_live_def)
  note B = ob_books [OF I assms(2,4)]
  have "map (\<lambda>c. lr_count (oq_rec c) + oq_dropped c) (ob_cons s) = map (\<lambda>c. oq_n c - warmup) (ob_cons s)"
    using B(5) by (simp add: list_eq_iff_nth_eq)
  then have "lr_count (ob_merged s) + sum_list (map oq_dropped (ob_cons s)) = sum_list (map (\<lambda>c. oq_n c - warmup) (ob_cons s))"
    by (metis (no_types, lifting) ob_merged_def merged_count map_map comp_apply map_eq_conv sum_list_addf)
  moreover have "fst (ob_totals s) + snd (ob_totals s) = word_of_nat (n * (warmup + msr))"
    unfolding ob_totals_def fst_conv snd_conv n [symmetric] by (rule ob_totals_sum) (rule B(1))
  ultimately show ?thesis using B(1-4) n by (simp add: list_all_iff)
qed

text \<open>Two consumers, one item.\<close>

definition ob_q0 :: "byte list owq" where
  "ob_q0 = \<lparr>o_capacity = 2, o_mask = 1, o_slots = replicate 2 \<lparr>os_seq = 0, os_data = item_bytes \<lparr>enqueue_ns = 0, payload = 0\<rparr>\<rparr>,
     o_write_pos = 0, o_published = 0\<rparr>"

lemma ob_q0_ctor: "ow_ctor (\<lambda>_. None) (item_bytes \<lparr>enqueue_ns = 0, payload = 0\<rparr>) 2 = Inr ob_q0"
  unfolding ob_q0_def ow_ctor_2 by (simp add: replicate_2)

theorem ob_loss_accounts_witness:
  "\<exists>s. reach (\<lambda>s. s = ob_start 2 ob_q0) (ob_step 0 (0 + 1)) s \<and> ob_all_done s
    \<and> fst (ob_totals s) + snd (ob_totals s) = word_of_nat 2"
proof -
  have r: "reach (\<lambda>s. s = ob_start 2 ob_q0) (ob_step 0 (0 + 1)) (ob_start 2 ob_q0)" by (simp add: reach_init)
  have b: "(0::nat) + 1 < 2 ^ 63 - 1" by simp
  from ob_finish_run [OF conjunct1 [OF ob_reach_live [OF r ob_q0_ctor b]] b] obtain s where
    s: "(ob_step 0 (0 + 1))\<^sup>*\<^sup>* (ob_start 2 ob_q0) s" "ob_all_done s" by blast
  note rs = ob_steps_reach [OF s(1) r]
  from ob_loss_accounts [OF ob_q0_ctor b rs s(2)] rs s(2) show ?thesis by auto
qed

text \<open>
  C19. The overwrite benchmark can always finish: from every state it can reach, some run lets
  the producer publish its remaining items and every consumer thread drain the ring and leave
  its loop; no interleaving leads into a dead end.
\<close>

theorem ob_can_finish:
  assumes "ow_ctor alloc (item_bytes x) capacity = Inr q" and "tot < 2 ^ 63 - 1"
    and "reach (\<lambda>s. s = ob_start n q) (ob_step warmup tot) s"
  shows "\<exists>t. (ob_step warmup tot)\<^sup>*\<^sup>* s t \<and> ob_prod t = QP_done \<and> ob_all_done t \<and> length (ob_cons t) = n"
  using ob_finish_run [OF _ assms(2)] ob_reach_live [OF assms(3,1,2)] by metis

theorem ob_can_finish_witness: "\<exists>t. (ob_step 3 10)\<^sup>*\<^sup>* (ob_start 4 ob_q0) t \<and> ob_all_done t"
proof -
  have "reach (\<lambda>s. s = ob_start 4 ob_q0) (ob_step 3 10) (ob_start 4 ob_q0)" by (simp add: reach_init)
  from ob_can_finish [OF ob_q0_ctor _ this] show ?thesis by auto
qed

end
