(* ===== verification/Benchmark_Tsc.thy ===== *)
theory Benchmark_Tsc
  imports Benchmark_Compete TscClock
begin

text \<open>
  \<open>run_benchmark\<close> of \<open>benchmark/TscBenchmarkMain.cpp\<close> on the concurrent model of \<open>SPMCQueue\<close>:
  the threads of \<open>Benchmark_Compete\<close>, but time stamps come from the time-stamp counter through
  \<open>TscClock\<close>, the producer paces itself when a rate limit is given, and a consumer reads the
  clock right after \<open>try_pop\<close> returned, before it counts the item. \<open>tb_cycles\<close> is how far the
  counter is from the epoch; it may advance at any time and is the same on all cores, as
  TscClock.hpp requires.
\<close>

section \<open>State and steps\<close>

record tb_bench =
  tb_run :: nb_bench
  tb_cycles :: nat
  tb_next_ns :: "u64 option"        \<comment> \<open>\<open>None\<close> until the paced producer has read the clock\<close>
  tb_now :: "nat \<Rightarrow> u64 option"     \<comment> \<open>the reading a consumer has taken for its item\<close>

definition tb_start :: "nat \<Rightarrow> nat \<Rightarrow> bench_item spmc \<Rightarrow> tb_bench" where
  "tb_start cycles n_consumers q = \<lparr>tb_run = nb_start n_consumers q, tb_cycles = cycles, tb_next_ns = None,
     tb_now = (\<lambda>_. None)\<rparr>"

text \<open>\<open>produce_ts\<close> and \<open>consume_ts\<close>: \<open>epoch_ns\<close> of a reading of the counter.\<close>

definition tb_ns_at :: "tsc_clock \<Rightarrow> nat \<Rightarrow> u64 option" where
  "tb_ns_at c cycles = tsc_epoch_ns c (g_epoch_cycles c + word_of_nat cycles)"

abbreviation tb_set_prod :: "bm_producer \<Rightarrow> nb_bench \<Rightarrow> nb_bench" where
  "tb_set_prod pr r \<equiv> r\<lparr>nb_prod := pr\<rparr>"

inductive tb_prod_step :: "tsc_clock \<Rightarrow> u64 \<Rightarrow> nat \<Rightarrow> tb_bench \<Rightarrow> tb_bench \<Rightarrow> bool" for c rate_limit_ns tot where
  tp_first: "sint rate_limit_ns > 0 \<Longrightarrow> tb_next_ns s = None \<Longrightarrow> tb_ns_at c (tb_cycles s) = Some ts \<Longrightarrow>
    tb_prod_step c rate_limit_ns tot s (s\<lparr>tb_next_ns := Some ts\<rparr>)"
| tp_spin: "sint rate_limit_ns > 0 \<Longrightarrow> tb_next_ns s = Some next_ns \<Longrightarrow> nb_prod (tb_run s) = HP_loop i \<Longrightarrow> i < tot \<Longrightarrow>
    tb_ns_at c (tb_cycles s) = Some ts \<Longrightarrow> sint ts < sint next_ns \<Longrightarrow> tb_prod_step c rate_limit_ns tot s s"
| tp_paced: "sint rate_limit_ns > 0 \<Longrightarrow> tb_next_ns s = Some next_ns \<Longrightarrow> nb_prod (tb_run s) = HP_loop i \<Longrightarrow> i < tot \<Longrightarrow>
    tb_ns_at c (tb_cycles s) = Some ts \<Longrightarrow> \<not> sint ts < sint next_ns \<Longrightarrow>
    tb_prod_step c rate_limit_ns tot s
      (s\<lparr>tb_run := tb_set_prod (HP_push i \<lparr>enqueue_ns = ts, payload = word_of_nat i\<rparr>) (tb_run s),
         tb_next_ns := Some (next_ns + rate_limit_ns)\<rparr>)"
| tp_free: "\<not> sint rate_limit_ns > 0 \<Longrightarrow> nb_prod (tb_run s) = HP_loop i \<Longrightarrow> i < tot \<Longrightarrow>
    tb_ns_at c (tb_cycles s) = Some ts \<Longrightarrow>
    tb_prod_step c rate_limit_ns tot s
      (s\<lparr>tb_run := tb_set_prod (HP_push i \<lparr>enqueue_ns = ts, payload = word_of_nat i\<rparr>) (tb_run s)\<rparr>)"
| tp_end: "(sint rate_limit_ns > 0 \<longrightarrow> tb_next_ns s \<noteq> None) \<Longrightarrow> nb_prod (tb_run s) = HP_loop i \<Longrightarrow> \<not> i < tot \<Longrightarrow>
    tb_prod_step c rate_limit_ns tot s (s\<lparr>tb_run := tb_set_prod HP_done (tb_run s)\<rparr>)"
| tp_emplace: "nb_prod (tb_run s) = HP_push i x \<Longrightarrow> nb_prod_step tot (tb_run s) r \<Longrightarrow>
    tb_prod_step c rate_limit_ns tot s (s\<lparr>tb_run := r\<rparr>)"

text \<open>Consumer \<open>j\<close>: the loop head and \<open>try_pop\<close>, the clock, the counter, the recorder.\<close>

inductive tb_cons_step :: "tsc_clock \<Rightarrow> nat \<Rightarrow> nat \<Rightarrow> nat \<Rightarrow> tb_bench \<Rightarrow> tb_bench \<Rightarrow> bool" for c tot warmup j where
  tc_pop: "j < length (nb_cons (tb_run s)) \<Longrightarrow> nb_cons (tb_run s) ! j = HC_loop \<or> nb_cons (tb_run s) ! j = HC_pop \<Longrightarrow>
    nb_cons_step tot warmup j (tb_run s) r \<Longrightarrow> tb_cons_step c tot warmup j s (s\<lparr>tb_run := r\<rparr>)"
| tc_now: "j < length (nb_cons (tb_run s)) \<Longrightarrow> nb_cons (tb_run s) ! j = HC_add x \<Longrightarrow> tb_now s j = None \<Longrightarrow>
    tb_ns_at c (tb_cycles s) = Some ts \<Longrightarrow> tb_cons_step c tot warmup j s (s\<lparr>tb_now := (tb_now s)(j \<mapsto> ts)\<rparr>)"
| tc_add: "j < length (nb_cons (tb_run s)) \<Longrightarrow> nb_cons (tb_run s) ! j = HC_add x \<Longrightarrow> tb_now s j = Some now \<Longrightarrow>
    nb_cons_step tot warmup j (tb_run s) r \<Longrightarrow> tb_cons_step c tot warmup j s (s\<lparr>tb_run := r\<rparr>)"
| tc_warm: "j < length (nb_cons (tb_run s)) \<Longrightarrow> nb_cons (tb_run s) ! j = HC_rec n x \<Longrightarrow> \<not> n \<ge> warmup \<Longrightarrow>
    tb_cons_step c tot warmup j s
      (s\<lparr>tb_run := (tb_run s)\<lparr>nb_cons := (nb_cons (tb_run s))[j := HC_loop]\<rparr>, tb_now := (tb_now s)(j := None)\<rparr>)"
| tc_record: "j < length (nb_cons (tb_run s)) \<Longrightarrow> nb_cons (tb_run s) ! j = HC_rec n x \<Longrightarrow> n \<ge> warmup \<Longrightarrow>
    tb_now s j = Some now \<Longrightarrow> lat = now - enqueue_ns x \<Longrightarrow> sint lat \<ge> 0 \<Longrightarrow>
    tb_cons_step c tot warmup j s
      (s\<lparr>tb_run := (tb_run s)\<lparr>nb_recs := (nb_recs (tb_run s))[j := lr_record lat (nb_recs (tb_run s) ! j)],
           nb_cons := (nb_cons (tb_run s))[j := HC_loop]\<rparr>,
         tb_now := (tb_now s)(j := None)\<rparr>)"
| tc_negative: "j < length (nb_cons (tb_run s)) \<Longrightarrow> nb_cons (tb_run s) ! j = HC_rec n x \<Longrightarrow> n \<ge> warmup \<Longrightarrow>
    tb_now s j = Some now \<Longrightarrow> lat = now - enqueue_ns x \<Longrightarrow> \<not> sint lat \<ge> 0 \<Longrightarrow>
    tb_cons_step c tot warmup j s
      (s\<lparr>tb_run := (tb_run s)\<lparr>nb_dropped := Suc (nb_dropped (tb_run s)),
           nb_cons := (nb_cons (tb_run s))[j := HC_loop]\<rparr>,
         tb_now := (tb_now s)(j := None)\<rparr>)"

inductive tb_tick :: "tb_bench \<Rightarrow> tb_bench \<Rightarrow> bool" where
  tick: "tb_cycles s \<le> cycles \<Longrightarrow> tb_tick s (s\<lparr>tb_cycles := cycles\<rparr>)"

definition tb_step :: "tsc_clock \<Rightarrow> u64 \<Rightarrow> nat \<Rightarrow> nat \<Rightarrow> tb_bench \<Rightarrow> tb_bench \<Rightarrow> bool" where
  "tb_step c rate_limit_ns warmup tot s t \<longleftrightarrow>
     tb_prod_step c rate_limit_ns tot s t \<or> (\<exists>j. tb_cons_step c tot warmup j s t) \<or> tb_tick s t"

section \<open>The benchmark without a clock simulates it\<close>

lemma tb_prod_simulates:
  assumes "tb_prod_step c rate tot s t"
  shows "tb_run t = tb_run s \<or> nb_prod_step tot (tb_run s) (tb_run t)"
  using assms by cases (auto intro: nb_prod_step.intros)

lemma tb_cons_simulates:
  assumes "tb_cons_step c tot warmup j s t"
  shows "tb_run t = tb_run s \<or> nb_cons_step tot warmup j (tb_run s) (tb_run t)"
  using assms by cases (auto intro: nb_cons_step.intros)

lemma tb_simulates:
  assumes "tb_step c rate warmup tot s t"
  shows "tb_run t = tb_run s \<or> nb_step warmup tot (tb_run s) (tb_run t)"
  using assms tb_prod_simulates tb_cons_simulates
  unfolding tb_step_def nb_step_def by (fastforce elim: tb_tick.cases)

lemma tb_reach_run:
  assumes "reach (\<lambda>s. s = s0) (tb_step c rate warmup tot) s" and "tb_run s0 = nb_start n q"
  shows "reach (\<lambda>r. r = nb_start n q) (nb_step warmup tot) (tb_run s)"
  using assms(1)
proof (induction rule: reach.induct)
  case (reach_init s)
  then show ?case using assms(2) by (simp add: reach.reach_init)
next
  case (reach_step s t)
  with tb_simulates [OF reach_step(2)] show ?case by (metis reach.reach_step)
qed

lemma tb_cycles_mono: "tb_step c rate warmup tot s t \<Longrightarrow> tb_cycles s \<le> tb_cycles t"
  unfolding tb_step_def by (auto elim!: tb_prod_step.cases tb_cons_step.cases tb_tick.cases)

section \<open>Every reading is later than the stamp\<close>

definition tb_stamped :: "tsc_clock \<Rightarrow> nat \<Rightarrow> bench_item \<Rightarrow> bool" where
  "tb_stamped c C x \<longleftrightarrow> (\<exists>k \<le> C. tb_ns_at c k = Some (enqueue_ns x))"

definition tb_timed :: "tsc_clock \<Rightarrow> nat \<Rightarrow> bench_item \<Rightarrow> u64 \<Rightarrow> bool" where
  "tb_timed c C x now \<longleftrightarrow>
     (\<exists>k k'. k \<le> k' \<and> k' \<le> C \<and> tb_ns_at c k = Some (enqueue_ns x) \<and> tb_ns_at c k' = Some now)"

fun tb_cons_ok :: "tsc_clock \<Rightarrow> nat \<Rightarrow> bm_consumer \<Rightarrow> u64 option \<Rightarrow> bool" where
  "tb_cons_ok c C (HC_add x) now \<longleftrightarrow> tb_stamped c C x \<and> (\<forall>t. now = Some t \<longrightarrow> tb_timed c C x t)"
| "tb_cons_ok c C (HC_rec n x) now \<longleftrightarrow> (\<exists>t. now = Some t \<and> tb_timed c C x t)"
| "tb_cons_ok c C _ now \<longleftrightarrow> now = None"

definition tb_elapsed :: "tsc_clock \<Rightarrow> nat \<Rightarrow> nat" where
  "tb_elapsed c C = C * 1000000000 div unat (g_tsc_hz c)"

definition tb_inv :: "tsc_clock \<Rightarrow> tb_bench \<Rightarrow> bool" where
  "tb_inv c s \<longleftrightarrow> (\<forall>x \<in> set (m_pushed (nb_sys (tb_run s))). tb_stamped c (tb_cycles s) x)
     \<and> (\<forall>i x. nb_prod (tb_run s) = HP_push i x \<longrightarrow> tb_stamped c (tb_cycles s) x)
     \<and> (\<forall>j < length (nb_cons (tb_run s)). tb_cons_ok c (tb_cycles s) (nb_cons (tb_run s) ! j) (tb_now s j))
     \<and> nb_dropped (tb_run s) = 0
     \<and> (\<forall>r \<in> set (nb_recs (tb_run s)). \<forall>lat \<in> set (lr_samples r). unat lat \<le> tb_elapsed c (tb_cycles s))"

lemma tb_invD:
  assumes "tb_inv c s"
  shows "x \<in> set (m_pushed (nb_sys (tb_run s))) \<Longrightarrow> tb_stamped c (tb_cycles s) x"
    and "nb_prod (tb_run s) = HP_push i x \<Longrightarrow> tb_stamped c (tb_cycles s) x"
    and "j < length (nb_cons (tb_run s)) \<Longrightarrow> tb_cons_ok c (tb_cycles s) (nb_cons (tb_run s) ! j) (tb_now s j)"
    and "nb_dropped (tb_run s) = 0"
    and "r \<in> set (nb_recs (tb_run s)) \<Longrightarrow> lat \<in> set (lr_samples r) \<Longrightarrow> unat lat \<le> tb_elapsed c (tb_cycles s)"
  using assms by (simp_all add: tb_inv_def)

lemma tb_stamped_mono: "tb_stamped c C x \<Longrightarrow> C \<le> C' \<Longrightarrow> tb_stamped c C' x"
  unfolding tb_stamped_def by (meson le_trans)

lemma tb_timed_mono: "tb_timed c C x now \<Longrightarrow> C \<le> C' \<Longrightarrow> tb_timed c C' x now"
  unfolding tb_timed_def by (meson le_trans)

lemma tb_cons_ok_mono: "tb_cons_ok c C pc now \<Longrightarrow> C \<le> C' \<Longrightarrow> tb_cons_ok c C' pc now"
  by (cases pc) (auto intro: tb_stamped_mono tb_timed_mono)

lemma tb_elapsed_mono: "C \<le> C' \<Longrightarrow> tb_elapsed c C \<le> tb_elapsed c C'"
  by (simp add: tb_elapsed_def div_le_mono)

text \<open>Within range the clock is exact, and a latency is not negative.\<close>

lemma tb_ns_exact:
  assumes "tb_ns_at c k = Some v" and "k \<le> 18446744073"
  shows "unat v = tb_elapsed c k"
proof -
  have "tsc_to_ns c (word_of_nat k) = Some v" using assms(1) by (simp add: tb_ns_at_def tsc_epoch_ns_def)
  moreover have "unat (word_of_nat k :: u64) = k" using assms(2) by (simp add: unat_of_nat)
  ultimately show ?thesis using tsc_to_ns_exact [of c "word_of_nat k" v] assms(2) by (simp add: tb_elapsed_def)
qed

lemma tb_latency:
  assumes "tb_timed c C x now" and "C \<le> 18446744073" and "2 \<le> unat (g_tsc_hz c)"
  shows "sint (now - enqueue_ns x) \<ge> 0" and "unat (now - enqueue_ns x) \<le> tb_elapsed c C"
proof -
  obtain k k' where k: "k \<le> k'" "k' \<le> C" "tb_ns_at c k = Some (enqueue_ns x)" "tb_ns_at c k' = Some now"
    using assms(1) by (auto simp: tb_timed_def)
  then have e: "unat (enqueue_ns x) = tb_elapsed c k" "unat now = tb_elapsed c k'"
    using tb_ns_exact assms(2) by (meson le_trans)+
  then have le: "unat (enqueue_ns x) \<le> unat now" using tb_elapsed_mono k(1) by simp
  from unat_minus_le [OF this] have m: "unat (now - enqueue_ns x) \<le> tb_elapsed c k'" using e by simp
  then show "unat (now - enqueue_ns x) \<le> tb_elapsed c C" using tb_elapsed_mono [OF k(2)] by (rule le_trans)
  have "tb_elapsed c k' \<le> 18446744073 * 1000000000 div 2"
    unfolding tb_elapsed_def using k(2) assms(2,3) by (intro le_trans [OF div_le_mono div_le_mono2]) auto
  with m have "unat (now - enqueue_ns x) < 2 ^ 63" by simp
  then show "sint (now - enqueue_ns x) \<ge> 0" using sint_of_small by simp
qed

text \<open>What the steps inside \<open>try_emplace\<close> and \<open>try_pop\<close> leave alone.\<close>

lemma nb_push_frame:
  assumes step: "nb_prod_step tot r t" and pr: "nb_prod r = HP_push i x" and I: "nb_inv warmup tot r"
  shows "nb_cons t = nb_cons r" "nb_recs t = nb_recs r" "nb_dropped t = nb_dropped r"
    "y \<in> set (m_pushed (nb_sys t)) \<Longrightarrow> y = x \<or> y \<in> set (m_pushed (nb_sys r))"
    "nb_prod t = HP_push k y \<Longrightarrow> y = x"
proof -
  have item: "mprod_item (m_prod (nb_sys r)) = Some x" if "m_prod (nb_sys r) \<noteq> MP_idle" "mprod_sent (m_prod (nb_sys r)) = 0"
    using nb_invD(2) [OF I] pr that by simp
  show "nb_cons t = nb_cons r" "nb_recs t = nb_recs r" "nb_dropped t = nb_dropped r"
    using step by (cases; simp)+
  show "y \<in> set (m_pushed (nb_sys t)) \<Longrightarrow> y = x \<or> y \<in> set (m_pushed (nb_sys r))"
    using step item pr by cases (auto dest!: mp_frame(3) split: mprod.splits)
  show "nb_prod t = HP_push k y \<Longrightarrow> y = x"
    using step pr by cases auto
qed

lemma same_place: "xs ! j = x \<Longrightarrow> xs = xs[j := x]"
  by auto

lemma nb_pop_frame:
  assumes step: "nb_cons_step tot warmup j r t" and pc: "nb_cons r ! j = HC_loop \<or> nb_cons r ! j = HC_pop"
    and I: "nb_inv warmup tot r"
  shows "nb_prod t = nb_prod r" "nb_recs t = nb_recs r" "nb_dropped t = nb_dropped r"
    "m_pushed (nb_sys t) = m_pushed (nb_sys r)"
    "\<exists>c. nb_cons t = (nb_cons r)[j := c]
      \<and> (c = HC_loop \<or> c = HC_pop \<or> c = HC_done \<or> (\<exists>x \<in> set (m_pushed (nb_sys r)). c = HC_add x))"
proof -
  show "nb_prod t = nb_prod r" "nb_recs t = nb_recs r" "nb_dropped t = nb_dropped r"
    "m_pushed (nb_sys t) = m_pushed (nb_sys r)"
    using step pc by (cases; auto dest: mc_frame(1))+
  note S = spmc_sys_invD [OF nb_invD(1) [OF I]]
  have mine: "x \<in> set (m_pushed (nb_sys r))" if "m_cons (nb_sys r) j = MC_notify h x" for h x
    using S(8) [of j] S(9) that by simp
  show "\<exists>c. nb_cons t = (nb_cons r)[j := c]
      \<and> (c = HC_loop \<or> c = HC_pop \<or> c = HC_done \<or> (\<exists>x \<in> set (m_pushed (nb_sys r)). c = HC_add x))"
    using step pc
  proof cases
    case (nc_call q h)
    then have "nb_cons t = (nb_cons r)[j := HC_pop]" using same_place [OF nc_call(3)] by simp
    then show ?thesis by blast
  next
    case (nc_run q)
    then have "nb_cons t = (nb_cons r)[j := HC_pop]" using same_place [OF nc_run(3)] by simp
    then show ?thesis by blast
  qed (use mine in auto)
qed

section \<open>The invariant holds\<close>

lemma tb_start_inv: "tb_inv c (tb_start C n q)"
  by (simp add: tb_inv_def tb_start_def nb_start_def spmc_boot_def lr_new_def)

lemma tb_inv_later:
  assumes I: "tb_inv c s" and "tb_cycles s \<le> C"
  shows "tb_inv c (s\<lparr>tb_cycles := C\<rparr>)"
  using tb_invD [OF I] assms(2) tb_stamped_mono tb_cons_ok_mono le_trans [OF _ tb_elapsed_mono [OF assms(2)]]
  by (simp add: tb_inv_def) blast

lemma tb_prod_keeps:
  assumes step: "tb_prod_step c rate tot s t" and I: "tb_inv c s" and N: "nb_inv warmup tot (tb_run s)"
  shows "tb_inv c t"
proof -
  have now: "tb_stamped c (tb_cycles s) \<lparr>enqueue_ns = ts, payload = p\<rparr>" if "tb_ns_at c (tb_cycles s) = Some ts" for ts p
    using that by (auto simp: tb_stamped_def)
  from step show ?thesis
  proof cases
    case (tp_emplace i x r)
    note F = nb_push_frame [OF tp_emplace(3,2) N]
    have "tb_stamped c (tb_cycles s) y" if "y \<in> set (m_pushed (nb_sys r))" for y
      using F(4) [OF that] tb_invD(1,2) [OF I] tp_emplace(2) by blast
    moreover have "tb_stamped c (tb_cycles s) y" if "nb_prod r = HP_push k y" for k y
      using F(5) [OF that] tb_invD(2) [OF I] tp_emplace(2) by blast
    ultimately show ?thesis using I F(1-3) tp_emplace(1) by (simp add: tb_inv_def)
  qed (use I now in \<open>simp_all add: tb_inv_def\<close>)
qed

text \<open>A consumer changes its own place and reading.\<close>

lemma tb_inv_cons:
  assumes I: "tb_inv c s" and ok: "tb_cons_ok c (tb_cycles s) pc now"
    and r: "m_pushed (nb_sys r) = m_pushed (nb_sys (tb_run s))" "nb_prod r = nb_prod (tb_run s)"
      "nb_cons r = (nb_cons (tb_run s))[j := pc]" "nb_dropped r = nb_dropped (tb_run s)"
    and recs: "\<And>x lat. x \<in> set (nb_recs r) \<Longrightarrow> lat \<in> set (lr_samples x) \<Longrightarrow> unat lat \<le> tb_elapsed c (tb_cycles s)"
    and t: "tb_run t = r" "tb_cycles t = tb_cycles s" "tb_now t = (tb_now s)(j := now)"
  shows "tb_inv c t"
proof -
  have "tb_cons_ok c (tb_cycles s) (nb_cons r ! i) (tb_now t i)" if "i < length (nb_cons (tb_run s))" for i
    using ok tb_invD(3) [OF I that] that r(3) t(3) by (cases "i = j") simp_all
  with tb_invD(1,2,4) [OF I] r recs t(1,2) show ?thesis by (simp add: tb_inv_def)
qed

lemma tb_cons_keeps:
  assumes step: "tb_cons_step c tot warmup j s t" and I: "tb_inv c s" and N: "nb_inv warmup tot (tb_run s)"
    and range: "tb_cycles s \<le> 18446744073" "2 \<le> unat (g_tsc_hz c)"
  shows "tb_inv c t"
proof -
  note C = tb_invD(3) [OF I, of j] and R = tb_invD(5) [OF I]
  from step show ?thesis
  proof cases
    case (tc_pop r)
    note F = nb_pop_frame [OF tc_pop(4,3) N]
    obtain pc where pc: "nb_cons r = (nb_cons (tb_run s))[j := pc]"
      "pc = HC_loop \<or> pc = HC_pop \<or> pc = HC_done \<or> (\<exists>x \<in> set (m_pushed (nb_sys (tb_run s))). pc = HC_add x)"
      using F(5) by blast
    have "tb_now s j = None" using C tc_pop(2,3) by auto
    moreover from this have "tb_cons_ok c (tb_cycles s) pc (tb_now s j)" using pc(2) tb_invD(1) [OF I] by auto
    ultimately show ?thesis
      by (intro tb_inv_cons [OF I _ F(4,1) pc(1) F(3)]) (use R F(2) tc_pop(1) in auto)
  next
    case (tc_now x ts)
    have "tb_stamped c (tb_cycles s) x" using C tc_now(2,3) by simp
    then have "tb_timed c (tb_cycles s) x ts" using tc_now(5) by (auto simp: tb_stamped_def tb_timed_def)
    then show ?thesis using C tc_now R same_place [OF tc_now(3)]
      by (intro tb_inv_cons [OF I, where pc = "HC_add x" and now = "Some ts" and j = j and r = "tb_run s"]) simp_all
  next
    case (tc_add x now r)
    have r: "r = (tb_run s)\<lparr>nb_consumed := Suc (nb_consumed (tb_run s)),
        nb_cons := (nb_cons (tb_run s))[j := HC_rec (nb_consumed (tb_run s)) x]\<rparr>"
      using tc_add(5,3) by cases auto
    then show ?thesis using C tc_add R
      by (intro tb_inv_cons [OF I, where pc = "HC_rec (nb_consumed (tb_run s)) x" and now = "Some now" and j = j and r = r]) auto
  next
    case (tc_warm n x)
    then show ?thesis using R
      by (intro tb_inv_cons [OF I, where pc = HC_loop and now = None and j = j and r = "tb_run t"]) auto
  next
    case (tc_record n x now lat)
    have "tb_timed c (tb_cycles s) x now" using C tc_record(2,3,5) by simp
    from tb_latency(2) [OF this range] have "unat lat \<le> tb_elapsed c (tb_cycles s)" using tc_record(6) by simp
    then have "unat l \<le> tb_elapsed c (tb_cycles s)"
      if "y \<in> set ((nb_recs (tb_run s))[j := lr_record lat (nb_recs (tb_run s) ! j)])" "l \<in> set (lr_samples y)" for y l
    proof (cases "y \<in> set (nb_recs (tb_run s))")
      case False
      then have y: "y = lr_record lat (nb_recs (tb_run s) ! j)" "j < length (nb_recs (tb_run s))"
        using that(1) set_update_subset_insert [of "nb_recs (tb_run s)"] by (blast, metis list_update_beyond not_less)
      then have "l = lat \<or> l \<in> set (lr_samples (nb_recs (tb_run s) ! j))" using that(2) by (auto simp: lr_record_def)
      then show ?thesis using \<open>unat lat \<le> _\<close> R [OF nth_mem [OF y(2)]] by blast
    qed (use R that(2) in blast)
    then show ?thesis using tc_record
      by (intro tb_inv_cons [OF I, where pc = HC_loop and now = None and j = j and r = "tb_run t"]) auto
  next
    case (tc_negative n x now lat)
    have "tb_timed c (tb_cycles s) x now" using C tc_negative(2,3,5) by simp
    from tb_latency(1) [OF this range] show ?thesis using tc_negative(6,7) by simp
  qed
qed

lemma tb_reach_inv:
  assumes "reach (\<lambda>s. s = tb_start C n q) (tb_step c rate warmup tot) s"
    and "spmc_ctor sz can_alloc capacity = Inr (Some q)" and "tot < 2 ^ 63" and "2 \<le> unat (g_tsc_hz c)"
    and "tb_cycles s \<le> 18446744073"
  shows "tb_inv c s"
  using assms(1,5)
proof (induction rule: reach.induct)
  case (reach_init s)
  then show ?case using tb_start_inv by blast
next
  case (reach_step s t)
  then have I: "tb_inv c s" and le: "tb_cycles s \<le> 18446744073" using tb_cycles_mono [OF reach_step(2)] by simp_all
  have N: "nb_inv warmup tot (tb_run s)"
    using nb_reach_inv [OF tb_reach_run [OF reach_step(1)] assms(2,3)] by (simp add: tb_start_def)
  consider "tb_prod_step c rate tot s t" | j where "tb_cons_step c tot warmup j s t" | "tb_tick s t"
    using reach_step(2) unfolding tb_step_def by blast
  then show ?case
  proof cases
    case 3
    then show ?thesis using tb_inv_later [OF I] by cases simp
  qed (use tb_prod_keeps [OF _ I N] tb_cons_keeps [OF _ I N le assms(4)] in blast)+
qed

section \<open>The paced producer\<close>

text \<open>
  The target of the pacing is the first reading plus \<open>rate\<close> for every item stamped, and the
  item stamped last was stamped at its target or later.
\<close>

fun tb_stamps :: "bm_producer \<Rightarrow> nat \<Rightarrow> nat" where
  "tb_stamps (HP_loop i) tot = i"
| "tb_stamps (HP_push i x) tot = Suc i"
| "tb_stamps HP_done tot = tot"

definition tb_range :: "tsc_clock \<Rightarrow> int" where
  "tb_range c = int ((2 ^ 64 - 1) div unat (g_tsc_hz c))"

lemma tb_ns_range:
  assumes "tb_ns_at c k = Some v" and "2 \<le> unat (g_tsc_hz c)"
  shows "0 \<le> sint v" and "sint v \<le> tb_range c"
proof -
  have le: "unat v \<le> (2 ^ 64 - 1) div unat (g_tsc_hz c)"
    using assms(1) tsc_to_ns_le unfolding tb_ns_at_def tsc_epoch_ns_def by blast
  also have "\<dots> \<le> (2 ^ 64 - 1) div 2" using assms(2) by (intro div_le_mono2) simp_all
  finally have "sint v = int (unat v)" by (intro sint_of_small) simp
  moreover have "int (unat v) \<le> tb_range c" using le unfolding tb_range_def by (simp only: of_nat_le_iff)
  ultimately show "0 \<le> sint v" "sint v \<le> tb_range c" by simp_all
qed

definition tb_armed :: "nat \<Rightarrow> u64 \<Rightarrow> nat \<Rightarrow> bench_item spmc \<Rightarrow> tb_bench" where
  "tb_armed cycles first n_consumers q = (tb_start cycles n_consumers q)\<lparr>tb_next_ns := Some first\<rparr>"

definition tb_paced_ok :: "tsc_clock \<Rightarrow> u64 \<Rightarrow> u64 \<Rightarrow> nat \<Rightarrow> tb_bench \<Rightarrow> bool" where
  "tb_paced_ok c first rate tot s \<longleftrightarrow>
     (let m = tb_stamps (nb_prod (tb_run s)) tot in m \<le> tot
       \<and> (\<exists>next_ns. tb_next_ns s = Some next_ns \<and> sint next_ns = sint first + int m * sint rate)
       \<and> (0 < m \<longrightarrow> sint first + int (m - 1) * sint rate \<le> tb_range c))"

lemma sint_add_small:
  assumes "- (2 ^ 63) \<le> sint a + sint b" and "sint a + sint b < 2 ^ 63"
  shows "sint (a + b :: u64) = sint a + sint b"
proof -
  have "sint (a + b) = signed_take_bit 63 (sint a + sint b)" by (simp add: signed_take_bit_add sint_word_ariths(1))
  also have "\<dots> = sint a + sint b" using assms by (intro signed_take_bit_int_eq_self) simp_all
  finally show ?thesis .
qed

lemma tb_paced_prod:
  assumes step: "tb_prod_step c rate tot s t" and P: "tb_paced_ok c first rate tot s"
    and rate: "0 < sint rate" "2 \<le> unat (g_tsc_hz c)" and room: "0 \<le> sint first" "sint first + int tot * sint rate < 2 ^ 63"
  shows "tb_paced_ok c first rate tot t"
  using step
proof cases
  case (tp_paced next_ns i ts)
  have n: "sint next_ns = sint first + int i * sint rate" using P tp_paced(3,4) by (simp add: tb_paced_ok_def)
  have "int (Suc i) * sint rate \<le> int tot * sint rate" using tp_paced(5) rate(1) by (intro mult_right_mono) simp_all
  then have le: "sint next_ns + sint rate \<le> sint first + int tot * sint rate" unfolding n by (simp add: algebra_simps)
  have "0 \<le> sint next_ns" unfolding n using room(1) rate(1) by simp
  then have "sint (next_ns + rate) = sint next_ns + sint rate" using le room(2) rate(1) by (intro sint_add_small) linarith+
  moreover have "sint next_ns \<le> tb_range c" using tp_paced(7) tb_ns_range(2) [OF tp_paced(6) rate(2)] by linarith
  ultimately show ?thesis using tp_paced(1,5) n by (simp add: tb_paced_ok_def algebra_simps)
next
  case (tp_end i)
  then show ?thesis using P by (auto simp: tb_paced_ok_def Let_def)
next
  case (tp_emplace i x r)
  have "tb_stamps (nb_prod r) tot = tb_stamps (nb_prod (tb_run s)) tot"
    using tp_emplace(3,2) by cases simp_all
  then show ?thesis using P tp_emplace(1) by (simp add: tb_paced_ok_def)
qed (use P rate(1) in \<open>auto simp: tb_paced_ok_def\<close>)

lemma tb_cons_leaves_producer:
  assumes "tb_cons_step c tot warmup j s t"
  shows "nb_prod (tb_run t) = nb_prod (tb_run s)" and "tb_next_ns t = tb_next_ns s"
proof -
  show "nb_prod (tb_run t) = nb_prod (tb_run s)"
    using assms by cases (auto elim: nb_cons_step.cases)
  show "tb_next_ns t = tb_next_ns s" using assms by cases simp_all
qed

lemma tb_paced_reach:
  assumes "reach (\<lambda>s. s = tb_armed C first n q) (tb_step c rate warmup tot) s"
    and "tb_ns_at c C = Some first" and "0 < sint rate" and "2 \<le> unat (g_tsc_hz c)"
    and "sint first + int tot * sint rate < 2 ^ 63"
  shows "tb_paced_ok c first rate tot s"
  using assms(1)
proof (induction rule: reach.induct)
  case (reach_init s)
  then show ?case by (simp add: tb_paced_ok_def tb_armed_def tb_start_def nb_start_def)
next
  case (reach_step s t)
  note room = tb_ns_range(1) [OF assms(2,4)] assms(5)
  from reach_step(2) consider "tb_prod_step c rate tot s t" | j where "tb_cons_step c tot warmup j s t" | "tb_tick s t"
    unfolding tb_step_def by blast
  then show ?case
  proof cases
    case 1
    then show ?thesis using tb_paced_prod reach_step.IH assms(3,4) room by blast
  next
    case 2
    then show ?thesis using tb_cons_leaves_producer [OF 2] reach_step.IH by (simp add: tb_paced_ok_def)
  next
    case 3
    then show ?thesis using reach_step.IH by cases (simp add: tb_paced_ok_def)
  qed
qed

lemma ledger_length:
  assumes "ledger_ok H pushed taken log"
  shows "length log \<le> H"
proof -
  have "set (map (fst \<circ> snd) log) \<subseteq> {..<H}" and d: "distinct (map (fst \<circ> snd) log)"
    using assms by (auto simp: ledger_ok_def)
  then have "card (set (map (fst \<circ> snd) log)) \<le> card {..<H}" by (intro card_mono) simp_all
  then show ?thesis unfolding distinct_card [OF d] by simp
qed

text \<open>Consumers leave their loops only when every item has been stamped.\<close>

lemma nb_done_needs_all:
  assumes I: "nb_inv warmup tot r" and "HC_done \<in> set (nb_cons r)"
  shows "tot \<le> tb_stamps (nb_prod r) tot"
proof -
  note D = nb_invD [OF I]
  have "tot \<le> length (m_log (nb_sys r))" using D(5) assms(2) by (simp add: nb_books_ok_def)
  also have "\<dots> \<le> length (m_pushed (nb_sys r))"
    using ledger_length [OF spmc_sys_invD(6) [OF D(1)]] spmc_sys_invD(9) [OF D(1)] by (rule le_trans)
  also have "\<dots> \<le> tb_stamps (nb_prod r) tot"
    using D(2) by (cases "nb_prod r"; cases "m_prod (nb_sys r)") simp_all
  finally show ?thesis .
qed

section \<open>Properties\<close>

text \<open>
  C21. \<open>run_benchmark\<close> of the TSC benchmark measures every item as long as the run stays within
  18446744073 cycles of the epoch, 6.1 s at 3 GHz: no latency comes out negative, so the
  guard before \<open>record\<close> never drops a sample; no sample exceeds the time since the epoch; and
  when all consumers have left their loops, each item was popped once and the merged recorder
  holds exactly \<open>measure\<close> samples. With or without a rate limit, under every interleaving of
  the threads and of the counter.
\<close>

theorem tb_measures_every_item:
  assumes "spmc_ctor sz can_alloc capacity = Inr (Some q)" and "0 < n" and "warmup + msr < 2 ^ 63"
    and "2 \<le> unat (g_tsc_hz c)" and "reach (\<lambda>s. s = tb_start C n q) (tb_step c rate warmup (warmup + msr)) s"
    and "tb_cycles s \<le> 18446744073"
  shows "nb_dropped (tb_run s) = 0
    \<and> list_all (\<lambda>lat. unat lat \<le> tb_cycles s * 1000000000 div unat (g_tsc_hz c)) (lr_samples (nb_merged (tb_run s)))
    \<and> (nb_all_done (tb_run s) \<longrightarrow>
        mset (map payload (nb_popped (tb_run s))) = mset (map word_of_nat [0..<warmup + msr])
        \<and> lr_count (nb_merged (tb_run s)) = msr)"
proof -
  have N: "nb_inv warmup (warmup + msr) (tb_run s)" "nb_cons (tb_run s) \<noteq> []"
    using nb_reach_inv [OF tb_reach_run [OF assms(5)] assms(1,3)] assms(2) by (auto simp: tb_start_def)
  note T = tb_invD [OF tb_reach_inv [OF assms(5,1,3,4,6)]]
  have "list_all (\<lambda>lat. unat lat \<le> tb_elapsed c (tb_cycles s)) (lr_samples (nb_merged (tb_run s)))"
    using T(5) by (auto simp: nb_merged_def merged_samples lr_new_def list_all_iff)
  then show ?thesis using T(4) nb_books(1,5) [OF N(1) _ N(2)] by (simp add: tb_elapsed_def)
qed

text \<open>A clock of 3 GHz; the counter is read one second after the epoch.\<close>

definition tb_clock :: tsc_clock where
  "tb_clock = \<lparr>g_tsc_hz = 3000000000, g_epoch_cycles = 7\<rparr>"

lemma tb_clock_reads:
  "k \<le> 18446744073 \<Longrightarrow> tb_ns_at tb_clock k = Some (word_of_nat k * 1000000000 div 3000000000)"
  by (simp add: tb_ns_at_def tsc_epoch_ns_def tsc_to_ns_def tb_clock_def)

theorem tb_measures_every_item_witness:
  "\<exists>s :: tb_bench. nb_prod (tb_run s) = HP_push 0 \<lparr>enqueue_ns = 1000000000, payload = 0\<rparr> \<and> nb_dropped (tb_run s) = 0
    \<and> list_all (\<lambda>lat. unat lat \<le> 1000000000) (lr_samples (nb_merged (tb_run s)))"
proof -
  define s0 where "s0 = tb_start 0 3 bm_q0"
  define s1 where "s1 = s0\<lparr>tb_cycles := 3000000000\<rparr>"
  define s2 where "s2 = s1\<lparr>tb_run := tb_set_prod (HP_push 0 \<lparr>enqueue_ns = 1000000000, payload = 0\<rparr>) (tb_run s1)\<rparr>"
  note defs = s2_def s1_def s0_def tb_start_def nb_start_def
  have "tb_tick s0 s1" unfolding s1_def by (rule tick) (simp add: defs)
  then have "tb_step tb_clock 0 2 (2 + 7) s0 s1" unfolding tb_step_def by blast
  then have r1: "reach (\<lambda>s. s = tb_start 0 3 bm_q0) (tb_step tb_clock 0 2 (2 + 7)) s1"
    by (rule reach_step [OF reach_init, rotated]) (simp add: s0_def)
  have "tb_prod_step tb_clock 0 (2 + 7) s1 s2"
    using tp_free [of 0 s1 0 "2 + 7" tb_clock 1000000000] tb_clock_reads [of 3000000000] by (simp add: defs)
  then have "tb_step tb_clock 0 2 (2 + 7) s1 s2" unfolding tb_step_def by blast
  note m = tb_measures_every_item [OF bm_q0_ctor _ _ _ reach_step [OF r1 this]]
  have "tb_cycles s2 = 3000000000" "unat (g_tsc_hz tb_clock) = 3000000000" by (simp_all add: defs tb_clock_def)
  then have "nb_dropped (tb_run s2) = 0 \<and> list_all (\<lambda>lat. unat lat \<le> 1000000000) (lr_samples (nb_merged (tb_run s2)))"
    using m by simp
  moreover have "nb_prod (tb_run s2) = HP_push 0 \<lparr>enqueue_ns = 1000000000, payload = 0\<rparr>" by (simp add: defs)
  ultimately show ?thesis by blast
qed

text \<open>
  C22. A paced \<open>run_benchmark\<close> of the TSC benchmark that starts too late never ends. If the target
  of the last item, the first reading plus \<open>rate_limit_ns\<close> for each item before it, is beyond
  what \<open>epoch_ns\<close> can return, then in every reachable state the producer is still in its loop
  and so is every consumer, so that no join returns: with the 500 ns and 1100000 items of
  scenario 2 at 3 GHz, whenever the producer starts 5.6 s or more after \<open>set_epoch\<close>.
\<close>

theorem tb_paced_never_ends:
  assumes "spmc_ctor sz can_alloc capacity = Inr (Some q)" and "tot < 2 ^ 63" and "2 \<le> unat (g_tsc_hz c)"
    and "0 < sint rate" and "tb_ns_at c C = Some first"
    and "int ((2 ^ 64 - 1) div unat (g_tsc_hz c)) < sint first + int (tot - 1) * sint rate"
    and "sint first + int tot * sint rate < 2 ^ 63"
    and "reach (\<lambda>s. s = tb_armed C first n q) (tb_step c rate warmup tot) s"
  shows "nb_prod (tb_run s) \<noteq> HP_done \<and> HC_done \<notin> set (nb_cons (tb_run s))"
proof -
  let ?m = "tb_stamps (nb_prod (tb_run s)) tot"
  have P: "tb_paced_ok c first rate tot s" by (rule tb_paced_reach [OF assms(8,5,4,3,7)])
  have pos: "0 < tot"
  proof (rule ccontr)
    assume "\<not> 0 < tot"
    then show False using assms(6) tb_ns_range(2) [OF assms(5,3)] by (simp add: tb_range_def)
  qed
  have "?m < tot"
  proof (rule ccontr)
    assume "\<not> ?m < tot"
    then have "?m = tot" using P by (simp add: tb_paced_ok_def Let_def)
    then show False using P pos assms(6) by (simp add: tb_paced_ok_def tb_range_def)
  qed
  moreover have "nb_inv warmup tot (tb_run s)"
    using nb_reach_inv [OF tb_reach_run [OF assms(8)] assms(1,2)] by (simp add: tb_armed_def tb_start_def)
  ultimately show ?thesis using nb_done_needs_all by fastforce
qed

theorem tb_paced_never_ends_witness:
  "\<not> (\<exists>s. reach (\<lambda>s. s = tb_armed 18000000000 6000000000 4 bm_q0) (tb_step tb_clock 500 100000 1100000) s
     \<and> (nb_prod (tb_run s) = HP_done \<or> nb_all_done (tb_run s) \<and> nb_cons (tb_run s) \<noteq> []))"
proof -
  have "tb_ns_at tb_clock 18000000000 = Some 6000000000" using tb_clock_reads [of 18000000000] by simp
  from tb_paced_never_ends [OF bm_q0_ctor _ _ _ this, where rate = 500 and tot = 1100000 and warmup = 100000 and n = 4]
  have "nb_prod (tb_run s) \<noteq> HP_done \<and> HC_done \<notin> set (nb_cons (tb_run s))"
    if "reach (\<lambda>s. s = tb_armed 18000000000 6000000000 4 bm_q0) (tb_step tb_clock 500 100000 1100000) s" for s
    using that by (simp add: tb_clock_def)
  moreover have "HC_done \<in> set (nb_cons r)" if "nb_all_done r" "nb_cons r \<noteq> []" for r
    using that by (cases "nb_cons r") (simp_all add: nb_all_done_def)
  ultimately show ?thesis by blast
qed

end
