(* ===== verification/Benchmark_Roundtrip.thy ===== *)
theory Benchmark_Roundtrip
  imports Benchmark Spsc Broadcast
begin

text \<open>
  \<open>BM_Roundtrip\<close> of \<open>benchmark/GBenchmark.cpp\<close>, in which one thread inserts an item and removes
  it again, over any queue with the contract \<open>bounded_fifo\<close> and for both queues the file
  registers; \<open>BM_BroadcastRoundtrip\<close>, the same on \<open>SPMCBroadcastQueue\<close>; and \<open>run_benchmark\<close> over \<open>SPSCQueue\<close>, by the lemmas of \<open>Benchmark\<close>. The number of
  iterations is what \<open>benchmark::State\<close> allows.
\<close>

section \<open>The loop\<close>

text \<open>What each iteration got from \<open>try_emplace\<close> and \<open>try_pop\<close>; \<open>i\<close> is the next payload.\<close>

fun bm_roundtrip :: "(bench_item \<Rightarrow> 'q \<Rightarrow> bool \<times> 'q) \<Rightarrow> ('q \<Rightarrow> bench_item option \<times> 'q) \<Rightarrow> nat \<Rightarrow> u64 \<Rightarrow> 'q \<Rightarrow>
    (bool \<times> bench_item option) list \<times> 'q" where
  "bm_roundtrip enq deq 0 i q = ([], q)"
| "bm_roundtrip enq deq (Suc n) i q =
     (let (ok, q1) = enq \<lparr>enqueue_ns = 0, payload = i\<rparr> q;
          (r, q2) = deq q1;
          (rest, q3) = bm_roundtrip enq deq n (i + 1) q2
      in ((ok, r) # rest, q3))"

text \<open>\<open>BM_BroadcastRoundtrip\<close>: \<open>ok\<close> of \<open>try_publish\<close> and \<open>got\<close> of consumer 0, whose callback does nothing.\<close>

fun bm_broadcast_roundtrip :: "nat \<Rightarrow> u64 \<Rightarrow> bench_item bcast \<Rightarrow>
    ((unit + bool) \<times> (unit + bool)) list \<times> bench_item bcast" where
  "bm_broadcast_roundtrip 0 i q = ([], q)"
| "bm_broadcast_roundtrip (Suc n) i q =
     (let (ok, q1) = bc_try_publish (Inr \<lparr>enqueue_ns = 0, payload = i\<rparr>) q;
          (got, _, q2) = bc_try_consume 0 (\<lambda>_ st. (None, st)) () q1;
          (rest, q3) = bm_broadcast_roundtrip n (i + 1) q2
      in ((ok, got) # rest, q3))"

context item_fifo begin

lemma roundtrip_step:
  assumes "inv q" and "view q = []" and "0 < room q" and "enq x q = (ok, q1)" and "deq q1 = (r, q2)"
  shows "ok" and "r = Some x" and "inv q2" and "view q2 = []" and "room q2 = room q"
proof -
  have e: "ok" "view q1 = [x]" using enq_view [OF assms(1), of x] assms(2-4) by (simp_all add: fifo_enq_def)
  have i: "inv q1" "room q1 = room q" using enq_inv [OF assms(1), of x] enq_room [OF assms(1), of x] assms(4) by simp_all
  have d: "(r, view q2) = (Some x, [])" using deq_view [OF i(1)] e(2) assms(5) by (simp add: fifo_deq_def)
  show "ok" "r = Some x" "view q2 = []" using e(1) d by simp_all
  show "inv q2" "room q2 = room q" using deq_inv [OF i(1)] deq_room [OF i(1)] i(2) assms(5) by simp_all
qed

lemma roundtrip_all:
  assumes "inv q" and "view q = []" and "0 < room q"
  shows "fst (bm_roundtrip enq deq n i q) = map (\<lambda>k. (True, Some \<lparr>enqueue_ns = 0, payload = i + word_of_nat k\<rparr>)) [0..<n]
    \<and> view (snd (bm_roundtrip enq deq n i q)) = []"
  using assms
proof (induction n arbitrary: i q)
  case (Suc n)
  obtain ok q1 where e: "enq \<lparr>enqueue_ns = 0, payload = i\<rparr> q = (ok, q1)" by fastforce
  obtain r q2 where d: "deq q1 = (r, q2)" by fastforce
  note S = roundtrip_step [OF Suc.prems e d]
  have "0 < room q2" using S(5) Suc.prems(3) by simp
  note IH = Suc.IH [OF S(3,4) this, of "i + 1"]
  have "map (\<lambda>k. (True, Some \<lparr>enqueue_ns = 0, payload = i + word_of_nat k\<rparr>)) [0..<Suc n]
      = (True, Some \<lparr>enqueue_ns = 0, payload = i\<rparr>)
        # map (\<lambda>k. (True, Some \<lparr>enqueue_ns = 0, payload = i + 1 + word_of_nat k\<rparr>)) [0..<n]"
    unfolding map_upt_Suc by (simp add: add.assoc)
  moreover obtain rest q3 where "bm_roundtrip enq deq n (i + 1) q2 = (rest, q3)" by fastforce
  ultimately show ?case using IH S(1,2) by (simp add: e d del: upt_Suc)
qed simp

end

text \<open>\<open>SPSCQueue\<close> as the queue of the benchmarks.\<close>

interpretation spsc_bench: item_fifo
  "spsc_enq :: bench_item \<Rightarrow> bench_item spsc \<Rightarrow> bool \<times> bench_item spsc" "spsc_deq left_behind" spsc_view spsc_room spsc_inv
  for left_behind
  by unfold_locales

section \<open>The broadcast queue\<close>

text \<open>With one consumer that has read everything, the queue has room again.\<close>

lemma broadcast_roundtrip_step:
  assumes "bc_inv h q" and "length (b_cursors q) = 1" and "bc_count 0 q = length h" and "Suc (length h) < 2 ^ 64"
  shows "\<exists>q1 q2. bc_try_publish (Inr x :: unit + 'a) q = (Inr True, q1)
    \<and> bc_try_consume 0 (\<lambda>_ st. (None :: unit option, st)) () q1 = (Inr True, (), q2)
    \<and> bc_inv (h @ [x]) q2 \<and> length (b_cursors q2) = 1 \<and> bc_count 0 q2 = Suc (length h)"
proof -
  obtain c where c: "b_cursors q = [c]" using assms(2) by (auto simp: length_Suc_conv)
  then have h: "unat c = length h" using assms(3) by (simp add: bc_count_def bc_position_def)
  have "0 < unat (b_capacity q)" using assms(1) by (simp add: bc_inv_def)
  then have "length h \<noteq> bc_slowest q + unat (b_capacity q)" by (simp add: bc_slowest_def c h)
  from bc_publish_ok [OF assms(1) this assms(4), of x]
  obtain q1 where q1: "bc_try_publish (Inr x :: unit + 'a) q = (Inr True, q1)" "bc_inv (h @ [x]) q1" "b_cursors q1 = [c]"
    using c by auto
  show ?thesis
    using q1(1) bc_consume_some(1) [OF q1(2), of 0 "\<lambda>_ st. (None :: unit option, st)" "()"]
      bc_consume_some(2,3) [OF q1(2), of 0] h
    by (simp add: q1(3) bc_count_def bc_position_def)
qed

lemma broadcast_roundtrip_all:
  assumes "bc_inv h q" and "length (b_cursors q) = 1" and "bc_count 0 q = length h" and "length h + n < 2 ^ 64"
  shows "fst (bm_broadcast_roundtrip n i q) = replicate n (Inr True, Inr True)
    \<and> bc_count 0 (snd (bm_broadcast_roundtrip n i q)) = length h + n"
  using assms
proof (induction n arbitrary: h i q)
  case (Suc n)
  from Suc.prems(4) have "Suc (length h) < 2 ^ 64" by simp
  from broadcast_roundtrip_step [OF Suc.prems(1-3) this, of "\<lparr>enqueue_ns = 0, payload = i\<rparr>"]
  obtain q1 q2 where q: "bc_try_publish (Inr \<lparr>enqueue_ns = 0, payload = i\<rparr> :: unit + bench_item) q = (Inr True, q1)"
    "bc_try_consume 0 (\<lambda>_ st. (None :: unit option, st)) () q1 = (Inr True, (), q2)"
    and I: "bc_inv (h @ [\<lparr>enqueue_ns = 0, payload = i\<rparr>]) q2" "length (b_cursors q2) = 1" "bc_count 0 q2 = Suc (length h)"
    by blast
  obtain rest q3 where r: "bm_broadcast_roundtrip n (i + 1) q2 = (rest, q3)" by fastforce
  show ?case using Suc.IH [OF I(1,2), of "i + 1"] I(3) Suc.prems(4) by (simp add: q r)
qed simp

section \<open>Properties\<close>

text \<open>
  \<open>BM_Roundtrip\<close> on the queues of capacity 4096 it is registered for: in every iteration the
  insertion succeeds, as the comment there says, and the removal returns the item just
  inserted; the queue is empty at the end, for any number of iterations.
\<close>

theorem bm_roundtrip_never_fills:
  assumes "spsc_ctor can_alloc dflt 4096 = Inr p" and "spmc_ctor sz can_alloc' 4096 = Inr (Some q)"
  shows "fst (bm_roundtrip spsc_enq (spsc_deq left_behind) n 0 p)
      = map (\<lambda>k. (True, Some \<lparr>enqueue_ns = 0, payload = word_of_nat k\<rparr>)) [0..<n]
    \<and> spsc_view (snd (bm_roundtrip spsc_enq (spsc_deq left_behind) n 0 p)) = []
    \<and> fst (bm_roundtrip spmc_enq spmc_deq n 0 q) = map (\<lambda>k. (True, Some \<lparr>enqueue_ns = 0, payload = word_of_nat k\<rparr>)) [0..<n]
    \<and> spmc_view (snd (bm_roundtrip spmc_enq spmc_deq n 0 q)) = []"
proof -
  have p: "spsc_inv p" "spsc_view p = []" "0 < spsc_room p" using spsc_ctor_ok [OF assms(1)] by simp_all
  have q: "spmc_inv q" "spmc_view q = []" using spmc_ctor_ok [OF assms(2)] by simp_all
  then have "0 < spmc_room q" by (simp add: spmc_inv_def spmc_room_def)
  from spsc_bench.roundtrip_all [OF p, of left_behind n 0] bench.roundtrip_all [OF q this, of n 0]
  show ?thesis by simp
qed

lemma bm_capacity: "bit_ceil 4096 = 4096" "has_single_bit 4096"
proof -
  have "is_pow2 4096" unfolding is_pow2_def by (rule exI [of _ 12]) simp
  then show "has_single_bit 4096" by (simp add: has_single_bit_is_pow2)
  show "bit_ceil 4096 = 4096" by (simp add: bit_ceil_def bit_ceil_nat.simps)
qed

theorem bm_roundtrip_never_fills_witness:
  "\<exists>p q. spsc_ctor (\<lambda>_. True) dflt 4096 = Inr p \<and> spmc_ctor 64 (\<lambda>_. True) 4096 = Inr (Some q)
    \<and> fst (bm_roundtrip spsc_enq (spsc_deq id) 2 0 p)
        = [(True, Some \<lparr>enqueue_ns = 0, payload = 0\<rparr>), (True, Some \<lparr>enqueue_ns = 0, payload = 1\<rparr>)]
    \<and> fst (bm_roundtrip spmc_enq spmc_deq 2 0 q)
        = [(True, Some \<lparr>enqueue_ns = 0, payload = 0\<rparr>), (True, Some \<lparr>enqueue_ns = 0, payload = 1\<rparr>)]"
proof -
  obtain p where p: "spsc_ctor (\<lambda>_. True) dflt 4096 = Inr p" using bm_capacity by (simp add: spsc_ctor_def)
  obtain q :: "bench_item spmc" where q: "spmc_ctor 64 (\<lambda>_. True) 4096 = Inr (Some q)"
    using bm_capacity by (auto simp: spmc_ctor_def spmc_check_and_round_capacity_def allocate_slots_def)
  from bm_roundtrip_never_fills [OF p q, of id 2] p q show ?thesis by (simp add: upt_rec)
qed

text \<open>
  \<open>BM_BroadcastRoundtrip\<close> with its one consumer and capacity 4096: every \<open>try_publish\<close> and every
  \<open>try_consume\<close> succeeds, and the consumer's position counts the iterations.
\<close>

theorem bm_broadcast_roundtrip_succeeds:
  assumes "bc_ctor alloc dflt 1 4096 = Inr q" and "n < 2 ^ 64"
  shows "bc_consumer 0 q = Some 0
    \<and> fst (bm_broadcast_roundtrip n 0 q) = replicate n (Inr True, Inr True)
    \<and> bc_count 0 (snd (bm_broadcast_roundtrip n 0 q)) = n"
  using broadcast_roundtrip_all [of "[]" q n 0] bc_ctor_ok [OF assms(1)] assms(2) by (simp add: bc_consumer_index)

text \<open>
  \<open>run_benchmark\<close> over \<open>SPSCQueue\<close> measures what it says: when the consumer has left its loop, all
  items were popped, in order and each once, the queue is empty, the counter is \<open>warmup +
  measure\<close> and the recorder holds \<open>measure\<close> samples, less those with a negative latency.
\<close>

theorem bm_spsc_counts_every_item:
  assumes "spsc_ctor can_alloc dflt capacity = Inr q"
    and "reach (\<lambda>s. s = bm_start q 1) (bm_step spsc_enq (spsc_deq left_behind) warmup (warmup + msr)) s"
    and "bm_cons s = [HC_done]"
  shows "map payload (bm_popped s) = map word_of_nat [0..<warmup + msr] \<and> bm_consumed s = warmup + msr
    \<and> spsc_view (bm_queue s) = [] \<and> lr_count (bm_merged s) + bm_dropped s = msr"
  using spsc_bench.bm_result [OF assms(2)] spsc_ctor_ok [OF assms(1)] assms(3) by simp

end
