(* ===== verification/Spec2Isabelle.thy ===== *)
theory Spec2Isabelle
  imports Spsc_Concurrent Spmc_Concurrent Spmc_Wakeup Broadcast_Concurrent Overwrite_Concurrent ThreadPool TscClock
    Benchmark Benchmark_Compete Benchmark_Broadcast Benchmark_Overwrite Benchmark_Tsc Benchmark_Roundtrip
begin

text \<open>
  A verification development for the CPP-Concurrency-Toolbox: four bounded queues for one
  producer thread, a thread pool, and the latency measurement used by its benchmarks.

  \<^bold>\<open>The program.\<close> The library is five headers under \<open>src/include\<close>. \<open>SPSCQueue\<close>
  (SPSCLockFreeQueue.h) connects one producer and one consumer. \<open>SPMCQueue\<close>
  (SPMCLockFreeQueue.h) hands each element to one of many competing consumers, with
  spinning and blocking operations. \<open>SPMCBroadcastQueue\<close> (SPMCBroadcastQueue.h) shows every
  element to each of \<open>N\<close> consumers and makes the producer wait for the slowest.
  \<open>SPMCOverwriteQueue\<close> (SPMCOverwriteQueue.h) never makes the producer wait and lets slow
  readers detect what they lost. \<open>ThreadPool\<close> (ThreadPool.h) runs tasks behind a mutex and a
  condition variable. The queues share their capacity policy and ring arithmetic and nothing
  else. The benchmarks under \<open>src/benchmark\<close> drive the queues, stamp the items with
  \<open>steady_clock\<close> or with TscClock.hpp, and collect latencies in LatencyRecorder.hpp.

  \<^bold>\<open>The theories.\<close>

  \<^item> \<open>Prelude\<close>: 64-bit words, reachability of a step relation, the interface
    \<open>guarded_machine\<close> of a machine with an invariant and the interface \<open>bounded_fifo\<close> of a
    bounded queue.
  \<^item> \<open>Capacity\<close>: \<open>std::has_single_bit\<close>, \<open>std::bit_ceil\<close> and the three
    \<open>check_and_round_capacity\<close> functions, with the contract they share.
  \<^item> \<open>Ring\<close>: positions, laps and slices of a ring.
  \<^item> \<open>Spsc\<close>, \<open>Spmc\<close>, \<open>Broadcast\<close>, \<open>Overwrite\<close>: one queue each, called by one thread at a
    time. A record mirrors the fields of the class, there is one function per member
    function with its branches in the order of the code, exceptions are values of a sum
    type, and undefined behaviour (a destroyed or missing object, slots outside the
    allocation, a division by zero) is a \<open>None\<close> or an outcome of its own. The lemmas give
    the well-formedness invariant, the behaviour of each operation and, through an
    interpretation of \<open>bounded_fifo\<close>, \<open>fanout\<close> or \<open>lossy\<close>, the refinement to lists.
  \<^item> \<open>Memory\<close>: the stores of one thread as a log, and what loads, acquire loads and acquire
    fences of the other threads can see of it.
  \<^item> \<open>Spsc_Concurrent\<close>, \<open>Spmc_Concurrent\<close>, \<open>Broadcast_Concurrent\<close>, \<open>Overwrite_Concurrent\<close>:
    the same operations as step relations in which a step is one access to shared memory,
    the program counters of the threads being part of the state. The interpretations of
    \<open>guarded_machine\<close> give the invariants of the reachable states.
  \<^item> \<open>Spmc_Wakeup\<close>: which threads may sleep in \<open>pop_wait\<close> and \<open>emplace_wait\<close>, as two further
    invariants of the machine of \<open>Spmc_Concurrent\<close>.
  \<^item> \<open>ThreadPool\<close>: workers, \<open>enqueue\<close> calls and the owner of the pool as one step relation.
  \<^item> \<open>LatencyRecorder\<close>, \<open>TscClock\<close>: the recorder and the clock with the pacing loops.
  \<^item> \<open>Benchmark\<close>: \<open>run_benchmark\<close> of BenchmarkMain.cpp, over any queue with the contract
    \<open>bounded_fifo\<close> whose calls are single steps, interpreted on the model of \<open>SPMCQueue\<close>.
  \<^item> \<open>Benchmark_Compete\<close>, \<open>Benchmark_Broadcast\<close>, \<open>Benchmark_Overwrite\<close>: \<open>run_benchmark\<close>,
    \<open>run_broadcast_benchmark\<close> and \<open>run_overwrite_benchmark\<close> of the same file, whose threads move
    by the steps of \<open>Spmc_Concurrent\<close>, \<open>Broadcast_Concurrent\<close> and \<open>Overwrite_Concurrent\<close>; in the
    last one items are laid out as bytes.
  \<^item> \<open>Benchmark_Tsc\<close>: \<open>run_benchmark\<close> of TscBenchmarkMain.cpp, the machine of \<open>Benchmark_Compete\<close>
    with its stamps taken from \<open>TscClock\<close>, its pacing and a counter that advances at any time.
  \<^item> \<open>Benchmark_Roundtrip\<close>: \<open>BM_Roundtrip\<close> and \<open>BM_BroadcastRoundtrip\<close> of GBenchmark.cpp, and
    \<open>run_benchmark\<close> over \<open>SPSCQueue\<close>.

  \<^bold>\<open>What is shown.\<close> For each queue that under every interleaving elements are delivered as
  promised (in order and exactly once; to everybody; or accounted for as received or
  missed), that slots are never accessed by two threads in conflict, that refusals and
  empty results are accurate, and that the operations do not wait, or only where they say so;
  a consumer of \<open>SPMCQueue\<close> asleep in \<open>pop_wait\<close> is always woken (\<open>spmc_consumers_woken\<close>).
  For the thread pool, whose tasks may enqueue further ones, that tasks run exactly once and start
  in the order of their insertion, that destroying the pool drains it, that exceptions end up in the futures, and what its only
  deadlock is. For the measurement that percentiles are order statistics, that merging
  recorders is recording in one, how far the clock is exact, and that the benchmarks count
  every item: \<open>nb_pops_once_and_finishes\<close> where each is popped once, \<open>bb_delivers_and_finishes\<close> where it
  goes to every consumer, \<open>ob_loss_accounts\<close> where it is received or reported as lost; all
  three can finish from every state they reach (\<open>ob_can_finish\<close>). On TscClock no latency is ever
  negative within the exact range of the clock (\<open>tb_measures_every_item\<close>), and in the roundtrip
  benchmarks no call ever fails (\<open>bm_roundtrip_never_fills\<close>).

  \<^bold>\<open>Flaws shown.\<close> \<open>spmc_lost_wakeup\<close>: a blocking producer of \<open>SPMCQueue\<close> can sleep for ever
  beside a free slot; it takes a consumer in \<open>pop_wait\<close> to happen (\<open>spmc_producer_woken\<close>).
  \<open>spmc_ctor_overruns\<close>: huge capacities that pass the check wrap the
  size of the allocation. \<open>ow_skips_intact_item\<close>: a lapped reader can skip an item that is
  still intact. \<open>ow_throw_blocks_readers\<close>: a throwing constructor in \<open>publish\<close> blocks readers
  until the slot is reused. \<open>tp_dtor_hangs\<close>, \<open>tp_ctor_hangs\<close>: the thread pool can miss the
  wake-up of its destruction. \<open>tsc_pacing_hangs\<close>: the paced producer of the TSC benchmark
  spins for ever once the clock's range is exceeded, and the whole benchmark with it
  (\<open>tb_paced_never_ends\<close>).

  \<^bold>\<open>Memory model and bounds.\<close> Loads that the code does not order may return stale values
  wherever the algorithm depends on tolerating them: the indices of \<open>SPSCQueue\<close>, the tail and
  the cursors of \<open>SPMCBroadcastQueue\<close> return any value stored since the one last seen by the
  thread; the head and the sequence numbers of \<open>SPMCQueue\<close> return any value up to the latest;
  compare-exchange and \<open>wait\<close> see the latest store. \<open>SPMCOverwriteQueue\<close> is proved under the
  model of \<open>Memory\<close>, with its relaxed stores and loads, its release and acquire fences and its
  payload copied byte by byte. Positions are 64-bit words. The sequential refinements of \<open>SPSCQueue\<close> and
  \<open>SPMCQueue\<close> hold across their wrap-around; the invariants of the concurrent machines hold
  as long as fewer operations were counted than the bound of the interpretation, \<open>2 ^ 63 - 1\<close> or
  more, which no run reaches. \<open>try_pop\<close> is given fuel, of which one iteration is enough for a
  thread running alone (\<open>spmc_try_pop_total\<close>, and the run of \<open>spmc_refines_fifo\<close>, in which a call
  that does not return has no result). A thread running alone blocks in \<open>emplace_wait\<close> only on a
  full queue and in \<open>pop_wait\<close> only on an empty one (\<open>spmc_never_goes_wrong\<close>). The decisions of
  \<open>spmc_reports_accurate\<close> are for every value that a load may return.

  \<^bold>\<open>Not modelled.\<close> The compiler's view of the seqlock as a data race; memory layout, padding
  and alignment; element types whose move constructor both throws and changes its source;
  \<open>spin_hint\<close> and thread pinning, which have no effect on the state; deleted
  copy operations and concepts, which are checked at compile time. A task of the thread pool
  may call \<open>enqueue\<close>, but does not block until another task has run. Of the benchmarks,
  \<open>run_broadcast_benchmark\<close> and \<open>run_overwrite_benchmark\<close> of TscBenchmarkMain.cpp but for their
  pacing loops (their threads are those of BenchmarkMain.cpp), the latency functions of
  GBenchmark.cpp, whose iterations are up to the framework, and the registrations and \<open>main\<close>. In
  BenchmarkMain.cpp the rate limit of the producers only delays the stamp,
  which may be anything. Floating-point arithmetic is a parameter of \<open>LatencyRecorder\<close>, and
  the loss percentage is left as its numerator and denominator. Tests, build files and scripts.
\<close>

end
